(* ===== verification/Prelude.thy ===== *)
theory Prelude
  imports Main "HOL-Library.Word"
begin

text \<open>
  Shared vocabulary of the development: the machine types of the target (an ILP32 platform, the
  32-bit microcontrollers nanostack runs on: \<open>int\<close>, pointers and \<open>size_t\<close> are 32 bits wide),
  the word-addressed memory that the linked list and the allocator share, the named collections
  that component proofs feed to the simplifier, and generic lemmas.
\<close>

unbundle bit_operations_syntax

section \<open>Machine types\<close>

type_synonym u8 = "8 word"
type_synonym u16 = "16 word"
type_synonym u32 = "32 word"
type_synonym u64 = "64 word"

text \<open>
  Memory is an array of 4-byte cells indexed by word address (byte address divided by 4). A cell
  holds either a signed block size or a pointer; both are read as an integer. The null pointer
  is address 0.
\<close>

type_synonym addr = int
type_synonym memory = "addr \<Rightarrow> int"

abbreviation NULL :: addr where
  "NULL \<equiv> 0"

named_theorems frame_simps \<open>which cells an operation may change\<close>
named_theorems layout_simps \<open>shape of data in memory\<close>
named_theorems model_defs \<open>definitions unfolded to evaluate the model\<close>

section \<open>Generic lemmas\<close>

text \<open>Two two-cell objects at \<open>a\<close> and \<open>b\<close> do not overlap.\<close>

definition apart :: "addr \<Rightarrow> addr \<Rightarrow> bool" where
  "apart a b \<longleftrightarrow> a + 2 \<le> b \<or> b + 2 \<le> a"

lemma apart_sym: "apart a b \<longleftrightarrow> apart b a"
  by (auto simp: apart_def)

lemma apart_neq [dest]: "apart a b \<Longrightarrow> a \<noteq> b"
  by (auto simp: apart_def)

end
