(* ===== verification/NsList.thy ===== *)
theory NsList
  imports Prelude
begin

text \<open>
  The doubly-linked list of \<open>ns_list.h\<close>, at pointer level. A list head at address \<open>l\<close> is two
  cells, \<open>first_entry\<close> at \<open>l\<close> and \<open>last_nextptr\<close> at \<open>l + 1\<close>; an entry \<open>e\<close> holds its link at
  \<open>e + off\<close> (\<open>next\<close>) and \<open>e + off + 1\<close> (\<open>prev\<close>, which points to the cell that points to \<open>e\<close>).
  \<open>ns_list_rep\<close> relates the memory to the HOL list of entry addresses; one lemma per operation
  says what it does to that list, and one which cells it may write.
\<close>

section \<open>The code\<close>

definition first_entry :: "addr \<Rightarrow> addr" where
  "first_entry list = list"

definition last_nextptr :: "addr \<Rightarrow> addr" where
  "last_nextptr list = list + 1"

definition NS_LIST_NEXT :: "int \<Rightarrow> addr \<Rightarrow> addr" where
  "NS_LIST_NEXT offset e = e + offset"

definition NS_LIST_PREV :: "int \<Rightarrow> addr \<Rightarrow> addr" where
  "NS_LIST_PREV offset e = e + offset + 1"

definition NS_LIST_ENTRY :: "int \<Rightarrow> addr \<Rightarrow> addr" where
  "NS_LIST_ENTRY offset linkptr = linkptr - offset"

definition NS_LIST_POISON :: int where
  "NS_LIST_POISON = 0xDEADBEEF"

definition ns_list_init :: "memory \<Rightarrow> addr \<Rightarrow> memory" where
  "ns_list_init m list =
     (let m = m(first_entry list := NULL)
      in m(last_nextptr list := first_entry list))"

definition ns_list_link_init :: "int \<Rightarrow> memory \<Rightarrow> addr \<Rightarrow> memory" where
  "ns_list_link_init offset m e =
     m(NS_LIST_NEXT offset e := NS_LIST_POISON, NS_LIST_PREV offset e := NS_LIST_POISON)"

definition ns_list_add_to_start :: "memory \<Rightarrow> addr \<Rightarrow> int \<Rightarrow> addr \<Rightarrow> memory" where
  "ns_list_add_to_start m list offset entry =
     (let m = m(NS_LIST_PREV offset entry := first_entry list);
          nxt = m (first_entry list);
          m = m(NS_LIST_NEXT offset entry := nxt);
          m = (if nxt \<noteq> NULL
               then m(NS_LIST_PREV offset nxt := NS_LIST_NEXT offset entry)
               else m(last_nextptr list := NS_LIST_NEXT offset entry))
      in m(first_entry list := entry))"

definition ns_list_add_after :: "memory \<Rightarrow> addr \<Rightarrow> int \<Rightarrow> addr \<Rightarrow> addr \<Rightarrow> memory" where
  "ns_list_add_after m list offset current entry =
     (let m = m(NS_LIST_PREV offset entry := NS_LIST_NEXT offset current);
          nxt = m (NS_LIST_NEXT offset current);
          m = m(NS_LIST_NEXT offset entry := nxt);
          m = (if nxt \<noteq> NULL
               then m(NS_LIST_PREV offset nxt := NS_LIST_NEXT offset entry)
               else m(last_nextptr list := NS_LIST_NEXT offset entry))
      in m(NS_LIST_NEXT offset current := entry))"

definition ns_list_add_before :: "memory \<Rightarrow> int \<Rightarrow> addr \<Rightarrow> addr \<Rightarrow> memory" where
  "ns_list_add_before m offset current entry =
     (let m = m(NS_LIST_NEXT offset entry := current);
          prev_nextptr = m (NS_LIST_PREV offset current);
          m = m(NS_LIST_PREV offset entry := prev_nextptr);
          m = m(prev_nextptr := entry)
      in m(NS_LIST_PREV offset current := NS_LIST_NEXT offset entry))"

definition ns_list_add_to_end :: "memory \<Rightarrow> addr \<Rightarrow> int \<Rightarrow> addr \<Rightarrow> memory" where
  "ns_list_add_to_end m list offset entry =
     (let m = m(NS_LIST_NEXT offset entry := NULL);
          prev_nextptr = m (last_nextptr list);
          m = m(NS_LIST_PREV offset entry := prev_nextptr);
          m = m(prev_nextptr := entry)
      in m(last_nextptr list := NS_LIST_NEXT offset entry))"

definition ns_list_is_empty :: "memory \<Rightarrow> addr \<Rightarrow> bool" where
  "ns_list_is_empty m list \<longleftrightarrow> m (first_entry list) = NULL"

definition ns_list_get_first :: "memory \<Rightarrow> addr \<Rightarrow> addr" where
  "ns_list_get_first m list = m (first_entry list)"

definition ns_list_get_next :: "memory \<Rightarrow> int \<Rightarrow> addr \<Rightarrow> addr" where
  "ns_list_get_next m offset current = m (NS_LIST_NEXT offset current)"

definition ns_list_get_previous :: "memory \<Rightarrow> addr \<Rightarrow> int \<Rightarrow> addr \<Rightarrow> addr" where
  "ns_list_get_previous m list offset current =
     (if current = m (first_entry list) then NULL
      else NS_LIST_ENTRY offset (m (NS_LIST_PREV offset current)))"

definition ns_list_get_last :: "memory \<Rightarrow> addr \<Rightarrow> int \<Rightarrow> addr" where
  "ns_list_get_last m list offset =
     (if m (first_entry list) = NULL then NULL
      else NS_LIST_ENTRY offset (m (last_nextptr list)))"

definition ns_list_remove :: "memory \<Rightarrow> addr \<Rightarrow> int \<Rightarrow> addr \<Rightarrow> memory" where
  "ns_list_remove m list offset removed =
     (let nxt = m (NS_LIST_NEXT offset removed);
          prev_nextptr = m (NS_LIST_PREV offset removed);
          m = (if nxt \<noteq> NULL
               then m(NS_LIST_PREV offset nxt := prev_nextptr)
               else m(last_nextptr list := prev_nextptr));
          m = m(prev_nextptr := nxt)
      in ns_list_link_init offset m removed)"

definition ns_list_replace :: "memory \<Rightarrow> addr \<Rightarrow> int \<Rightarrow> addr \<Rightarrow> addr \<Rightarrow> memory" where
  "ns_list_replace m list offset current replacement =
     (let prev_nextptr = m (NS_LIST_PREV offset current);
          m = m(NS_LIST_PREV offset replacement := prev_nextptr);
          nxt = m (NS_LIST_NEXT offset current);
          m = m(NS_LIST_NEXT offset replacement := nxt);
          m = (if nxt \<noteq> NULL
               then m(NS_LIST_PREV offset nxt := NS_LIST_NEXT offset replacement)
               else m(last_nextptr list := NS_LIST_NEXT offset replacement));
          m = m(prev_nextptr := replacement)
      in ns_list_link_init offset m current)"

definition ns_list_concatenate :: "memory \<Rightarrow> addr \<Rightarrow> addr \<Rightarrow> int \<Rightarrow> memory" where
  "ns_list_concatenate m dst src offset =
     (let src_first = m (first_entry src)
      in if src_first = NULL then m
         else let m = m(m (last_nextptr dst) := src_first);
                  m = m(NS_LIST_PREV offset src_first := m (last_nextptr dst));
                  m = m(last_nextptr dst := m (last_nextptr src))
              in ns_list_init m src)"

text \<open>The loop of \<open>ns_list_count_\<close>; on a cyclic list it does not return (\<open>None\<close>).\<close>

partial_function (option) ns_list_count_loop ::
    "memory \<Rightarrow> int \<Rightarrow> addr \<Rightarrow> u32 \<Rightarrow> u32 option" where
  "ns_list_count_loop m offset p count =
     (if p = NULL then Some count
      else ns_list_count_loop m offset (m (NS_LIST_NEXT offset p)) (count + 1))"

declare ns_list_count_loop.simps [code]

definition ns_list_count :: "memory \<Rightarrow> addr \<Rightarrow> int \<Rightarrow> u32 option" where
  "ns_list_count m list offset = ns_list_count_loop m offset (m (first_entry list)) 0"

lemmas ns_list_addrs = first_entry_def last_nextptr_def NS_LIST_NEXT_def NS_LIST_PREV_def
  NS_LIST_ENTRY_def

section \<open>Representation\<close>

fun seg :: "memory \<Rightarrow> int \<Rightarrow> addr \<Rightarrow> addr list \<Rightarrow> bool" where
  "seg m off c [] = True"
| "seg m off c (x # xs) =
     (x \<noteq> NULL \<and> m c = x \<and> m (x + off + 1) = c \<and> seg m off (x + off) xs)"

definition end_cell :: "int \<Rightarrow> addr \<Rightarrow> addr list \<Rightarrow> addr" where
  "end_cell off c xs = (if xs = [] then c else last xs + off)"

definition link_cells :: "int \<Rightarrow> addr list \<Rightarrow> addr set" where
  "link_cells off xs = (\<Union>x \<in> set xs. {x + off, x + off + 1})"

definition head_cells :: "addr \<Rightarrow> addr set" where
  "head_cells l = {l, l + 1}"

definition entries_apart :: "addr \<Rightarrow> int \<Rightarrow> addr list \<Rightarrow> bool" where
  "entries_apart l off xs \<longleftrightarrow> distinct xs \<and> (\<forall>x \<in> set xs. apart l (x + off)) \<and>
     (\<forall>x \<in> set xs. \<forall>y \<in> set xs. x \<noteq> y \<longrightarrow> apart x y)"

definition ns_list_rep :: "memory \<Rightarrow> addr \<Rightarrow> int \<Rightarrow> addr list \<Rightarrow> bool" where
  "ns_list_rep m l off xs \<longleftrightarrow> seg m off l xs \<and> m (end_cell off l xs) = NULL \<and>
     m (l + 1) = end_cell off l xs \<and> entries_apart l off xs"

definition fresh_entry :: "addr \<Rightarrow> int \<Rightarrow> addr list \<Rightarrow> addr \<Rightarrow> bool" where
  "fresh_entry l off xs e \<longleftrightarrow> e \<noteq> NULL \<and> apart l (e + off) \<and> (\<forall>x \<in> set xs. apart x e)"

lemma end_cell_simps [simp]:
  "end_cell off c [] = c"
  "end_cell off c (x # xs) = end_cell off (x + off) xs"
  by (auto simp: end_cell_def)

lemma end_cell_append [simp]:
  "end_cell off c (xs @ ys) = end_cell off (end_cell off c xs) ys"
  by (induction xs arbitrary: c) auto

lemma seg_append [simp]:
  "seg m off c (xs @ ys) \<longleftrightarrow> seg m off c xs \<and> seg m off (end_cell off c xs) ys"
  by (induction xs arbitrary: c) auto

lemma link_cells_simps [simp]:
  "link_cells off [] = {}"
  "link_cells off (x # xs) = {x + off, x + off + 1} \<union> link_cells off xs"
  "link_cells off (xs @ ys) = link_cells off xs \<union> link_cells off ys"
  by (auto simp: link_cells_def)

lemma end_cell_in: "end_cell off c xs \<in> insert c (link_cells off xs)"
  by (induction xs arbitrary: c) auto

text \<open>A segment is read through the first cell and the link cells only.\<close>

lemma seg_frame:
  assumes "\<And>a. a \<in> insert c (link_cells off xs) \<Longrightarrow> m' a = m a"
  shows "seg m' off c xs = seg m off c xs"
  using assms
proof (induction xs arbitrary: c)
  case (Cons x xs)
  then have "seg m' off (x + off) xs = seg m off (x + off) xs"
    by (intro Cons.IH) auto
  with Cons.prems show ?case by auto
qed simp

text \<open>The last cell of a segment is written by appending, so it is not read.\<close>

lemma seg_upd_end:
  assumes "distinct xs" "c \<notin> link_cells off xs"
    "\<forall>x \<in> set xs. \<forall>y \<in> set xs. x \<noteq> y \<longrightarrow> apart x y"
  shows "seg (m(end_cell off c xs := v)) off c xs \<longleftrightarrow> (if xs = [] then True else seg m off c xs)"
  using assms
proof (induction xs arbitrary: c)
  case (Cons x xs)
  show ?case
  proof (cases "xs = []")
    case True with Cons.prems show ?thesis by auto
  next
    case False
    have *: "x + off \<notin> link_cells off xs" "x + off + 1 \<notin> link_cells off xs"
      using Cons.prems by (fastforce simp: link_cells_def apart_def)+
    have "end_cell off (x + off) xs \<in> link_cells off xs"
      using False by (auto simp: end_cell_def link_cells_def)
    with * Cons.prems False show ?thesis
      using Cons.IH [of "x + off"] by auto
  qed
qed simp

lemma seg_upd_other [simp]:
  "a \<notin> insert c (link_cells off xs) \<Longrightarrow> seg (m(a := v)) off c xs = seg m off c xs"
  by (rule seg_frame) auto

lemma seg_upd_end' [simp]:
  assumes "entries_apart l off xs"
  shows "seg (m(end_cell off l xs := v)) off l xs = seg m off l xs"
proof -
  have "l \<notin> link_cells off xs"
    using assms by (fastforce simp: entries_apart_def link_cells_def apart_def)
  with assms show ?thesis
    using seg_upd_end [of xs l off m v] by (auto simp: entries_apart_def)
qed

lemma entries_apart_Nil [simp]: "entries_apart l off []"
  by (simp add: entries_apart_def)

lemma entries_apart_Cons:
  "entries_apart l off (x # xs) \<longleftrightarrow>
     apart l (x + off) \<and> (\<forall>y \<in> set xs. apart x y) \<and> entries_apart l off xs"
  by (auto simp: entries_apart_def apart_sym)

lemma entries_apart_append:
  "entries_apart l off (xs @ ys) \<longleftrightarrow> entries_apart l off xs \<and> entries_apart l off ys \<and>
     (\<forall>x \<in> set xs. \<forall>y \<in> set ys. apart x y)"
  by (induction xs) (auto simp: entries_apart_Cons apart_sym)

lemmas entries_apart_simps = entries_apart_Cons entries_apart_append

lemma notin_link_cells:
  "(\<forall>y \<in> set xs. apart x y) \<Longrightarrow> x + off \<notin> link_cells off xs \<and> x + off + 1 \<notin> link_cells off xs"
  by (fastforce simp: link_cells_def apart_def)

lemma notin_link_cells':
  "(\<forall>y \<in> set xs. apart y x) \<Longrightarrow> x + off \<notin> link_cells off xs \<and> x + off + 1 \<notin> link_cells off xs"
  by (fastforce simp: link_cells_def apart_def)

lemma head_notin_link_cells:
  "entries_apart l off xs \<Longrightarrow> l \<notin> link_cells off xs \<and> l + 1 \<notin> link_cells off xs"
  by (fastforce simp: entries_apart_def link_cells_def apart_def)

lemma apart_cells:
  "apart x y \<Longrightarrow> x + off \<noteq> y + off \<and> x + off \<noteq> y + off + 1 \<and> x + off + 1 \<noteq> y + off \<and>
     x + off + 1 \<noteq> y + off + 1"
  by (auto simp: apart_def)

lemma link_cells_disjoint:
  "(\<forall>x \<in> set xs. \<forall>y \<in> set ys. apart x y) \<Longrightarrow> link_cells off xs \<inter> link_cells off ys = {}"
  by (fastforce simp: link_cells_def apart_def)

lemma end_cell_cases: "end_cell off c xs = c \<or> end_cell off c xs \<in> link_cells off xs"
  using end_cell_in [of off c xs] by auto

text \<open>
  Where the end of a segment is not: these decide, for the simplifier, whether a write hits it.
\<close>

lemma end_cell_neq [simp]:
  assumes "a \<noteq> c" "a \<notin> link_cells off xs"
  shows "end_cell off c xs \<noteq> a" "a \<noteq> end_cell off c xs"
  using assms end_cell_cases [of off c xs] by auto

lemma end_cell_notin [simp]:
  assumes "c \<notin> link_cells off ys" "link_cells off xs \<inter> link_cells off ys = {}"
  shows "end_cell off c xs \<notin> link_cells off ys"
  using assms end_cell_cases [of off c xs] by auto

text \<open>All the cells involved when the entry \<open>e\<close> sits between \<open>xs\<close> and \<open>ys\<close>.\<close>

lemma around_entry:
  assumes "entries_apart l off (xs @ e # ys)"
  shows "l \<notin> link_cells off xs" "l + 1 \<notin> link_cells off xs"
    "l \<notin> link_cells off ys" "l + 1 \<notin> link_cells off ys"
    "e + off \<notin> link_cells off xs" "e + off + 1 \<notin> link_cells off xs"
    "e + off \<notin> link_cells off ys" "e + off + 1 \<notin> link_cells off ys"
    "link_cells off xs \<inter> link_cells off ys = {}" "link_cells off ys \<inter> link_cells off xs = {}"
    "e + off \<noteq> l" "e + off + 1 \<noteq> l" "e + off \<noteq> l + 1" "e + off + 1 \<noteq> l + 1"
proof -
  have ea: "entries_apart l off xs" "entries_apart l off ys" "apart l (e + off)"
    "\<forall>y \<in> set ys. apart e y" "\<forall>x \<in> set xs. apart x e" "\<forall>x \<in> set xs. \<forall>y \<in> set ys. apart x y"
    using assms by (auto simp: entries_apart_simps)
  show 1: "l \<notin> link_cells off xs" "l + 1 \<notin> link_cells off xs"
    "l \<notin> link_cells off ys" "l + 1 \<notin> link_cells off ys"
    using head_notin_link_cells [OF ea(1)] head_notin_link_cells [OF ea(2)] by simp_all
  show 2: "e + off \<notin> link_cells off xs" "e + off + 1 \<notin> link_cells off xs"
    "e + off \<notin> link_cells off ys" "e + off + 1 \<notin> link_cells off ys"
    using notin_link_cells [OF ea(4)] notin_link_cells' [OF ea(5)] by simp_all
  show 3: "link_cells off xs \<inter> link_cells off ys = {}" "link_cells off ys \<inter> link_cells off xs = {}"
    using link_cells_disjoint [OF ea(6)] by blast+
  show "e + off \<noteq> l" "e + off + 1 \<noteq> l" "e + off \<noteq> l + 1" "e + off + 1 \<noteq> l + 1"
    using ea(3) by (auto simp: apart_def)
qed

lemma ns_list_remove_rep:
  assumes rep: "ns_list_rep m l off (xs @ e # ys)"
  shows "ns_list_rep (ns_list_remove m l off e) l off (xs @ ys)"
proof -
  have ea: "entries_apart l off (xs @ e # ys)" using rep by (simp add: ns_list_rep_def)
  note ar = around_entry [OF ea]
  have ea': "entries_apart l off (xs @ ys)" "entries_apart l off xs"
    using ea by (auto simp: entries_apart_simps)
  have s: "seg m off l xs" "m (end_cell off l xs) = e" "m (e + off + 1) = end_cell off l xs"
     "seg m off (e + off) ys" "e \<noteq> 0"
    "m (end_cell off (e + off) ys) = 0" "m (l + 1) = end_cell off (e + off) ys"
    using rep by (auto simp: ns_list_rep_def)
  show ?thesis
  proof (cases ys)
    case Nil
    then show ?thesis
      using s ar ea'
      by (simp add: ns_list_rep_def ns_list_remove_def ns_list_link_init_def Let_def
          ns_list_addrs fun_upd_twist [of "l + 1"])
  next
    case (Cons y zs)
    then have "around": "entries_apart l off ((xs @ [e]) @ y # zs)" using ea by simp
    note ar2 = around_entry [OF "around"]
    show ?thesis
      using s ar ar2 ea' Cons
      by (simp add: ns_list_rep_def ns_list_remove_def ns_list_link_init_def Let_def
          ns_list_addrs)
  qed
qed


lemmas ns_list_op_defs = ns_list_rep_def Let_def ns_list_addrs ns_list_link_init_def

lemma ns_list_rep_add_entry:
  assumes "ns_list_rep m l off (xs @ ys)" "fresh_entry l off (xs @ ys) e"
  shows "entries_apart l off (xs @ e # ys)"
  using assms by (auto simp: ns_list_rep_def fresh_entry_def entries_apart_simps apart_sym)

lemma ns_list_init_rep: "ns_list_rep (ns_list_init m l) l off []"
  by (simp add: ns_list_init_def ns_list_op_defs)

lemma ns_list_add_to_start_rep:
  assumes rep: "ns_list_rep m l off xs" and fr: "fresh_entry l off xs e"
  shows "ns_list_rep (ns_list_add_to_start m l off e) l off (e # xs)"
proof -
  have ea: "entries_apart l off ([] @ e # xs)"
    using ns_list_rep_add_entry [of m l off "[]" xs e] rep fr by simp
  note ar = around_entry [OF ea]
  have ea': "entries_apart l off xs" "e \<noteq> 0" using rep fr by (auto simp: ns_list_rep_def fresh_entry_def)
  show ?thesis
  proof (cases xs)
    case Nil
    then show ?thesis
      using rep ar ea ea' by (simp add: ns_list_add_to_start_def ns_list_op_defs)
  next
    case (Cons y zs)
    then have ea2: "entries_apart l off ([e] @ y # zs)" using ea by simp
    show ?thesis
      using rep ar around_entry [OF ea2] ea ea' Cons
      by (simp add: ns_list_add_to_start_def ns_list_op_defs)
  qed
qed

lemma ns_list_add_to_end_rep:
  assumes rep: "ns_list_rep m l off xs" and fr: "fresh_entry l off xs e"
  shows "ns_list_rep (ns_list_add_to_end m l off e) l off (xs @ [e])"
proof -
  have ea: "entries_apart l off (xs @ e # [])"
    using ns_list_rep_add_entry [of m l off xs "[]" e] rep fr by simp
  note ar = around_entry [OF ea]
  have ea': "entries_apart l off xs" "e \<noteq> 0" using rep fr by (auto simp: ns_list_rep_def fresh_entry_def)
  show ?thesis
    using rep ar ea ea' by (simp add: ns_list_add_to_end_def ns_list_op_defs)
qed

lemma ns_list_add_after_rep:
  assumes rep: "ns_list_rep m l off (xs @ c # ys)" and fr: "fresh_entry l off (xs @ c # ys) e"
  shows "ns_list_rep (ns_list_add_after m l off c e) l off (xs @ c # e # ys)"
proof -
  have ea: "entries_apart l off ((xs @ [c]) @ e # ys)"
    using ns_list_rep_add_entry [of m l off "xs @ [c]" ys e] rep fr by simp
  have ea2: "entries_apart l off (xs @ c # e # ys)" using ea by simp
  note ar = around_entry [OF ea] around_entry [OF ea2]
  have ea': "e \<noteq> 0" using rep fr by (auto simp: ns_list_rep_def fresh_entry_def)
  show ?thesis
  proof (cases ys)
    case Nil
    then show ?thesis
      using rep ar ea ea' by (simp add: ns_list_add_after_def ns_list_op_defs)
  next
    case (Cons y zs)
    then have ea3: "entries_apart l off ((xs @ [c, e]) @ y # zs)" using ea by simp
    show ?thesis
      using rep ar around_entry [OF ea3] ea ea' Cons
      by (simp add: ns_list_add_after_def ns_list_op_defs)
  qed
qed

lemma ns_list_add_before_rep:
  assumes rep: "ns_list_rep m l off (xs @ c # ys)" and fr: "fresh_entry l off (xs @ c # ys) e"
  shows "ns_list_rep (ns_list_add_before m off c e) l off (xs @ e # c # ys)"
proof -
  have ea: "entries_apart l off (xs @ e # c # ys)"
    using ns_list_rep_add_entry [of m l off xs "c # ys" e] rep fr by simp
  have ea2: "entries_apart l off ((xs @ [e]) @ c # ys)" "entries_apart l off xs"
    using ea by (simp_all add: entries_apart_simps)
  have ea': "e \<noteq> 0" using rep fr by (auto simp: ns_list_rep_def fresh_entry_def)
  show ?thesis
    using rep around_entry [OF ea] around_entry [OF ea2(1)] ea ea2(2) ea'
    by (simp add: ns_list_add_before_def ns_list_op_defs)
qed

lemma ns_list_replace_rep:
  assumes rep: "ns_list_rep m l off (xs @ c # ys)" and fr: "fresh_entry l off (xs @ c # ys) e"
  shows "ns_list_rep (ns_list_replace m l off c e) l off (xs @ e # ys)"
proof -
  have ea: "entries_apart l off ((xs @ [c]) @ e # ys)"
    using ns_list_rep_add_entry [of m l off "xs @ [c]" ys e] rep fr by simp
  have ea2: "entries_apart l off (xs @ c # e # ys)" "entries_apart l off (xs @ e # ys)"
    "entries_apart l off xs"
    using ea by (simp_all add: entries_apart_simps)
  note ar = around_entry [OF ea] around_entry [OF ea2(1)]
  have ea': "e \<noteq> 0" using rep fr by (auto simp: ns_list_rep_def fresh_entry_def)
  show ?thesis
  proof (cases ys)
    case Nil
    then show ?thesis
      using rep ar ea2 ea' by (simp add: ns_list_replace_def ns_list_op_defs)
  next
    case (Cons y zs)
    then have ea3: "entries_apart l off ((xs @ [c, e]) @ y # zs)" using ea by simp
    show ?thesis
      using rep ar around_entry [OF ea3] ea2 ea' Cons
      by (simp add: ns_list_replace_def ns_list_op_defs)
  qed
qed

lemma ns_list_get_first_rep:
  "ns_list_rep m l off xs \<Longrightarrow> ns_list_get_first m l = (case xs of [] \<Rightarrow> NULL | x # _ \<Rightarrow> x)"
  by (auto simp: ns_list_get_first_def ns_list_op_defs split: list.splits)

lemma ns_list_is_empty_rep:
  "ns_list_rep m l off xs \<Longrightarrow> ns_list_is_empty m l \<longleftrightarrow> xs = []"
  by (cases xs) (auto simp: ns_list_is_empty_def ns_list_op_defs)

lemma ns_list_get_next_rep:
  "ns_list_rep m l off (xs @ x # ys) \<Longrightarrow>
     ns_list_get_next m off x = (case ys of [] \<Rightarrow> NULL | y # _ \<Rightarrow> y)"
  by (auto simp: ns_list_get_next_def ns_list_op_defs split: list.splits)

lemma ns_list_get_last_rep:
  assumes "ns_list_rep m l off xs"
  shows "ns_list_get_last m l off = (if xs = [] then NULL else last xs)"
proof (cases xs rule: rev_cases)
  case Nil
  then show ?thesis using assms by (simp add: ns_list_get_last_def ns_list_op_defs)
next
  case (snoc ys y)
  then have "m l \<noteq> NULL"
    using assms ns_list_is_empty_rep [of m l off xs] by (simp add: ns_list_is_empty_def ns_list_addrs)
  then show ?thesis
    using assms snoc by (simp add: ns_list_get_last_def ns_list_op_defs)
qed

lemma ns_list_get_previous_rep:
  assumes "ns_list_rep m l off (xs @ x # ys)"
  shows "ns_list_get_previous m l off x = (if xs = [] then NULL else last xs)"
proof (cases xs rule: rev_cases)
  case Nil
  then show ?thesis
    using assms by (auto simp: ns_list_get_previous_def ns_list_op_defs)
next
  case (snoc as a)
  have "x \<notin> set xs" using assms by (auto simp: ns_list_rep_def entries_apart_def)
  moreover have "m l \<in> set xs" using assms snoc by (cases as) (auto simp: ns_list_rep_def)
  ultimately have "x \<noteq> m l" by auto
  then show ?thesis
    using assms snoc by (auto simp: ns_list_get_previous_def ns_list_op_defs)
qed


lemma ns_list_rep_not_null: "ns_list_rep m l off xs \<Longrightarrow> NULL \<notin> set xs"
proof -
  have "seg m off c xs \<Longrightarrow> NULL \<notin> set xs" for c by (induction xs arbitrary: c) auto
  then show "ns_list_rep m l off xs \<Longrightarrow> NULL \<notin> set xs" by (auto simp: ns_list_rep_def)
qed

lemma ns_list_rep_distinct: "ns_list_rep m l off xs \<Longrightarrow> distinct xs"
  by (simp add: ns_list_rep_def entries_apart_def)

lemma ns_list_count_loop_seg:
  "seg m off c xs \<Longrightarrow> m (end_cell off c xs) = NULL \<Longrightarrow>
     ns_list_count_loop m off (m c) n = Some (n + of_nat (length xs))"
proof (induction xs arbitrary: c n)
  case Nil
  then show ?case by (simp add: ns_list_count_loop.simps)
next
  case (Cons x xs)
  then show ?case
    by (subst ns_list_count_loop.simps) (simp add: ns_list_addrs add.assoc)
qed

lemma ns_list_count_rep:
  "ns_list_rep m l off xs \<Longrightarrow> ns_list_count m l off = Some (of_nat (length xs))"
  by (auto simp: ns_list_count_def ns_list_op_defs ns_list_count_loop_seg)

section \<open>Which cells an operation may write\<close>

lemma ns_list_rep_frame:
  assumes "ns_list_rep m l off xs"
    and "\<And>a. a \<in> head_cells l \<union> link_cells off xs \<Longrightarrow> m' a = m a"
  shows "ns_list_rep m' l off xs"
proof -
  have "seg m' off l xs = seg m off l xs"
    using assms(2) by (intro seg_frame) (auto simp: head_cells_def)
  moreover have "m' (end_cell off l xs) = m (end_cell off l xs)"
    using assms(2) end_cell_cases [of off l xs] by (auto simp: head_cells_def)
  ultimately show ?thesis
    using assms by (auto simp: ns_list_rep_def head_cells_def)
qed

lemma ns_list_prev_cell:
  "ns_list_rep m l off (xs @ x # ys) \<Longrightarrow>
     m (NS_LIST_PREV off x) \<in> head_cells l \<union> link_cells off xs"
  using end_cell_cases [of off l xs] by (auto simp: ns_list_op_defs head_cells_def)

lemma ns_list_last_cell:
  "ns_list_rep m l off xs \<Longrightarrow> m (l + 1) \<in> head_cells l \<union> link_cells off xs"
  using end_cell_cases [of off l xs] by (auto simp: ns_list_op_defs head_cells_def)

lemma ns_list_init_frame [frame_simps]:
  "a \<notin> head_cells l \<Longrightarrow> ns_list_init m l a = m a"
  by (auto simp: ns_list_init_def ns_list_op_defs head_cells_def)

lemma fresh_entry_cells:
  assumes "fresh_entry l off xs e"
  shows "e + off \<noteq> l" "e + off + 1 \<noteq> l" "e + off \<noteq> l + 1" "e + off + 1 \<noteq> l + 1" "e \<noteq> NULL"
  using assms by (auto simp: fresh_entry_def apart_def)

lemma ns_list_add_to_start_frame [frame_simps]:
  assumes "ns_list_rep m l off xs" "fresh_entry l off xs e"
    "a \<notin> head_cells l \<union> link_cells off (e # xs)"
  shows "ns_list_add_to_start m l off e a = m a"
  using assms(1,3) fresh_entry_cells [OF assms(2)]
  by (cases xs) (simp_all add: ns_list_add_to_start_def ns_list_op_defs head_cells_def)

lemma ns_list_add_to_end_frame [frame_simps]:
  assumes "ns_list_rep m l off xs" "fresh_entry l off xs e"
    "a \<notin> head_cells l \<union> link_cells off (e # xs)"
  shows "ns_list_add_to_end m l off e a = m a"
proof -
  have "a \<noteq> m (l + 1)" using ns_list_last_cell [OF assms(1)] assms(3) by auto
  then show ?thesis
    using assms(3) fresh_entry_cells [OF assms(2)]
    by (simp add: ns_list_add_to_end_def ns_list_op_defs head_cells_def)
qed

lemma ns_list_add_after_frame [frame_simps]:
  assumes "ns_list_rep m l off (xs @ c # ys)" "fresh_entry l off (xs @ c # ys) e"
    "a \<notin> head_cells l \<union> link_cells off (e # xs @ c # ys)"
  shows "ns_list_add_after m l off c e a = m a"
proof -
  have "c + off \<noteq> e + off + 1" using assms(2) by (auto simp: fresh_entry_def apart_def)
  then show ?thesis
    using assms(1,3) fresh_entry_cells [OF assms(2)]
    by (cases ys) (simp_all add: ns_list_add_after_def ns_list_op_defs head_cells_def)
qed

lemma ns_list_add_before_frame [frame_simps]:
  assumes "ns_list_rep m l off (xs @ c # ys)" "fresh_entry l off (xs @ c # ys) e"
    "a \<notin> head_cells l \<union> link_cells off (e # xs @ c # ys)"
  shows "ns_list_add_before m off c e a = m a"
proof -
  have "c + off + 1 \<noteq> e + off" using assms(2) by (auto simp: fresh_entry_def apart_def)
  moreover have "a \<noteq> m (c + off + 1)"
    using ns_list_prev_cell [OF assms(1)] assms(3) by (auto simp: ns_list_addrs)
  ultimately show ?thesis
    using assms(3) fresh_entry_cells [OF assms(2)]
    by (simp add: ns_list_add_before_def ns_list_op_defs head_cells_def)
qed

lemma ns_list_remove_frame [frame_simps]:
  assumes "ns_list_rep m l off (xs @ e # ys)"
    "a \<notin> head_cells l \<union> link_cells off (xs @ e # ys)"
  shows "ns_list_remove m l off e a = m a"
proof -
  have "a \<noteq> m (e + off + 1)"
    using ns_list_prev_cell [OF assms(1)] assms(2) by (auto simp: ns_list_addrs)
  then show ?thesis
    using assms by (cases ys) (simp_all add: ns_list_remove_def ns_list_op_defs head_cells_def)
qed

lemma ns_list_remove_poisons:
  "ns_list_remove m l off e (NS_LIST_NEXT off e) = NS_LIST_POISON"
  "ns_list_remove m l off e (NS_LIST_PREV off e) = NS_LIST_POISON"
  by (simp_all add: ns_list_remove_def ns_list_op_defs)

section \<open>Concatenation\<close>

lemma ns_list_concatenate_rep:
  assumes rx: "ns_list_rep m dst off xs" and ry: "ns_list_rep m src off ys"
    and ap: "apart dst src" "\<forall>x \<in> set xs. apart src (x + off)" "\<forall>y \<in> set ys. apart dst (y + off)"
      "\<forall>x \<in> set xs. \<forall>y \<in> set ys. apart x y"
  shows "ns_list_rep (ns_list_concatenate m dst src off) dst off (xs @ ys)"
    and "ns_list_rep (ns_list_concatenate m dst src off) src off []"
proof -
  have sx: "src \<notin> link_cells off xs" "src + 1 \<notin> link_cells off xs"
    using ap(2) by (fastforce simp: link_cells_def apart_def)+
  have sy: "src \<notin> link_cells off ys" "src + 1 \<notin> link_cells off ys"
    using ry head_notin_link_cells by (auto simp: ns_list_rep_def)
  have h: "src \<noteq> dst" "src + 1 \<noteq> dst" "src \<noteq> dst + 1"
    using ap(1) by (auto simp: apart_def)
  show "ns_list_rep (ns_list_concatenate m dst src off) dst off (xs @ ys)"
  proof (cases ys)
    case Nil
    then show ?thesis using rx ry by (simp add: ns_list_concatenate_def ns_list_op_defs)
  next
    case (Cons y zs)
    have ea: "entries_apart dst off (xs @ y # zs)" "entries_apart dst off xs"
      using rx ry ap Cons unfolding ns_list_rep_def entries_apart_append
      by (simp_all add: entries_apart_def)
    have sy': "y + off \<noteq> src" "y + off + 1 \<noteq> src" using sy Cons by auto
    show ?thesis
      using rx ry Cons sx sy sy' h ea(2) around_entry [OF ea(1)] ea(1)
      by (simp add: ns_list_concatenate_def ns_list_init_def ns_list_op_defs)
  qed
  show "ns_list_rep (ns_list_concatenate m dst src off) src off []"
    using ry by (cases ys) (simp_all add: ns_list_concatenate_def ns_list_init_def ns_list_op_defs)
qed


section \<open>Walking a list\<close>

text \<open>
  The interface of the loops over a list: where a walk starts and how it steps. Its clients are
  the loops of the allocator, forwards and backwards, and of the NVM helper.
\<close>

fun walk :: "('s \<Rightarrow> addr \<Rightarrow> 'r + 's) \<Rightarrow> 's \<Rightarrow> addr list \<Rightarrow> 'r + 's" where
  "walk body acc [] = Inr acc"
| "walk body acc (x # xs) =
     (case body acc x of Inl r \<Rightarrow> Inl r | Inr acc' \<Rightarrow> walk body acc' xs)"

locale list_walk =
  fixes rep :: "memory \<Rightarrow> addr list \<Rightarrow> bool"
    and start :: "memory \<Rightarrow> addr"
    and step :: "memory \<Rightarrow> addr \<Rightarrow> addr"
  assumes start_rep: "rep m xs \<Longrightarrow> start m = (case xs of [] \<Rightarrow> NULL | x # _ \<Rightarrow> x)"
    and step_rep: "rep m (xs @ x # ys) \<Longrightarrow> step m x = (case ys of [] \<Rightarrow> NULL | y # _ \<Rightarrow> y)"
    and not_null: "rep m xs \<Longrightarrow> NULL \<notin> set xs"
begin

text \<open>
  Any loop that starts at \<open>start\<close>, steps by \<open>step\<close>, and leaves on \<open>Inl\<close> returns, with
  the value of walking over the represented list.
\<close>

lemma foreach_from:
  assumes loop: "\<And>p acc. loop p acc =
      (if p = NULL then Some (Inr acc)
       else case body acc p of Inl r \<Rightarrow> Some (Inl r) | Inr acc' \<Rightarrow> loop (step m p) acc')"
    and rep: "rep m (xs @ ys)"
  shows "loop (case ys of [] \<Rightarrow> NULL | y # _ \<Rightarrow> y) acc = Some (walk body acc ys)"
  using rep
proof (induction ys arbitrary: xs acc)
  case Nil
  then show ?case by (subst loop) simp
next
  case (Cons y ys)
  have "y \<noteq> NULL" using not_null [OF Cons.prems] by auto
  moreover have "step m y = (case ys of [] \<Rightarrow> NULL | z # _ \<Rightarrow> z)"
    using Cons.prems by (rule step_rep)
  moreover have "rep m ((xs @ [y]) @ ys)" using Cons.prems by simp
  ultimately show ?case
    using Cons.IH [of "xs @ [y]"] by (subst loop) (simp split: sum.split)
qed

lemma foreach:
  assumes loop: "\<And>p acc. loop p acc =
      (if p = NULL then Some (Inr acc)
       else case body acc p of Inl r \<Rightarrow> Some (Inl r) | Inr acc' \<Rightarrow> loop (step m p) acc')"
    and rep: "rep m xs"
  shows "loop (start m) acc = Some (walk body acc xs)"
  using foreach_from [where loop = loop and body = body and xs = "[]" and ys = xs and m = m, OF loop]
    rep by (simp add: start_rep)

end

interpretation forwards: list_walk
  "\<lambda>m xs. ns_list_rep m l off xs" "\<lambda>m. ns_list_get_first m l" "\<lambda>m. ns_list_get_next m off"
  for l off
  by unfold_locales (auto simp: ns_list_get_first_rep ns_list_get_next_rep dest: ns_list_rep_not_null)

interpretation backwards: list_walk
  "\<lambda>m xs. ns_list_rep m l off (rev xs)" "\<lambda>m. ns_list_get_last m l off"
  "\<lambda>m. ns_list_get_previous m l off"
  for l off
proof unfold_locales
  fix m xs
  assume "ns_list_rep m l off (rev xs)"
  then show "ns_list_get_last m l off = (case xs of [] \<Rightarrow> NULL | x # _ \<Rightarrow> x)"
    by (auto simp: ns_list_get_last_rep last_rev split: list.split)
next
  fix m xs x ys
  assume "ns_list_rep m l off (rev (xs @ x # ys))"
  then have "ns_list_get_previous m l off x = (if rev ys = [] then NULL else last (rev ys))"
    by (intro ns_list_get_previous_rep) simp
  then show "ns_list_get_previous m l off x = (case ys of [] \<Rightarrow> NULL | y # _ \<Rightarrow> y)"
    by (auto simp: last_rev split: list.split)
next
  fix m xs
  assume "ns_list_rep m l off (rev xs)"
  then show "NULL \<notin> set xs" using ns_list_rep_not_null by fastforce
qed

section \<open>Sequences of operations\<close>

text \<open>
  The list operations as data, their effect on the HOL list, and the conditions under which the
  header allows a call: a new entry must be unattached, and a position must be on the list.
\<close>

datatype list_op =
    Add_to_start addr
  | Add_to_end addr
  | Add_after addr addr
  | Add_before addr addr
  | Remove addr
  | Replace addr addr

fun list_exec :: "addr \<Rightarrow> int \<Rightarrow> memory \<Rightarrow> list_op \<Rightarrow> memory" where
  "list_exec l off m (Add_to_start e) = ns_list_add_to_start m l off e"
| "list_exec l off m (Add_to_end e) = ns_list_add_to_end m l off e"
| "list_exec l off m (Add_after c e) = ns_list_add_after m l off c e"
| "list_exec l off m (Add_before c e) = ns_list_add_before m off c e"
| "list_exec l off m (Remove e) = ns_list_remove m l off e"
| "list_exec l off m (Replace c e) = ns_list_replace m l off c e"

fun list_spec :: "addr list \<Rightarrow> list_op \<Rightarrow> addr list" where
  "list_spec xs (Add_to_start e) = e # xs"
| "list_spec xs (Add_to_end e) = xs @ [e]"
| "list_spec xs (Add_after c e) = takeWhile (\<lambda>x. x \<noteq> c) xs @ c # e # tl (dropWhile (\<lambda>x. x \<noteq> c) xs)"
| "list_spec xs (Add_before c e) = takeWhile (\<lambda>x. x \<noteq> c) xs @ e # dropWhile (\<lambda>x. x \<noteq> c) xs"
| "list_spec xs (Remove e) = remove1 e xs"
| "list_spec xs (Replace c e) = takeWhile (\<lambda>x. x \<noteq> c) xs @ e # tl (dropWhile (\<lambda>x. x \<noteq> c) xs)"

fun list_legal :: "addr \<Rightarrow> int \<Rightarrow> addr list \<Rightarrow> list_op \<Rightarrow> bool" where
  "list_legal l off xs (Add_to_start e) \<longleftrightarrow> fresh_entry l off xs e"
| "list_legal l off xs (Add_to_end e) \<longleftrightarrow> fresh_entry l off xs e"
| "list_legal l off xs (Add_after c e) \<longleftrightarrow> c \<in> set xs \<and> fresh_entry l off xs e"
| "list_legal l off xs (Add_before c e) \<longleftrightarrow> c \<in> set xs \<and> fresh_entry l off xs e"
| "list_legal l off xs (Remove e) \<longleftrightarrow> e \<in> set xs"
| "list_legal l off xs (Replace c e) \<longleftrightarrow> c \<in> set xs \<and> fresh_entry l off xs e"

fun all_legal :: "addr \<Rightarrow> int \<Rightarrow> addr list \<Rightarrow> list_op list \<Rightarrow> bool" where
  "all_legal l off xs [] = True"
| "all_legal l off xs (p # ps) \<longleftrightarrow> list_legal l off xs p \<and> all_legal l off (list_spec xs p) ps"

lemma split_at_entry:
  assumes "c \<in> set xs" "distinct xs"
  obtains as bs where "xs = as @ c # bs" "c \<notin> set as"
    "takeWhile (\<lambda>x. x \<noteq> c) xs = as" "dropWhile (\<lambda>x. x \<noteq> c) xs = c # bs" "remove1 c xs = as @ bs"
proof -
  obtain as bs where s: "xs = as @ c # bs" "c \<notin> set as"
    using split_list_first [OF assms(1)] by blast
  have "takeWhile (\<lambda>x. x \<noteq> c) xs = as" "dropWhile (\<lambda>x. x \<noteq> c) xs = c # bs"
    using s by (auto simp: takeWhile_tail dropWhile_append3 intro!: takeWhile_eq_all_conv [THEN iffD2])
  with s that show ?thesis by (simp add: remove1_append)
qed

lemma list_exec_rep:
  assumes "ns_list_rep m l off xs" "list_legal l off xs p"
  shows "ns_list_rep (list_exec l off m p) l off (list_spec xs p)"
proof -
  have d: "distinct xs" using assms(1) by (rule ns_list_rep_distinct)
  show ?thesis
  proof (cases p)
    case (Add_after c e)
    with assms d show ?thesis
      by (auto elim!: split_at_entry [of c xs] simp: ns_list_add_after_rep)
  next
    case (Add_before c e)
    with assms d show ?thesis
      by (auto elim!: split_at_entry [of c xs] simp: ns_list_add_before_rep)
  next
    case (Remove e)
    with assms d show ?thesis
      by (auto elim!: split_at_entry [of e xs] simp: ns_list_remove_rep)
  next
    case (Replace c e)
    with assms d show ?thesis
      by (auto elim!: split_at_entry [of c xs] simp: ns_list_replace_rep)
  qed (use assms in \<open>simp_all add: ns_list_add_to_start_rep ns_list_add_to_end_rep\<close>)
qed

section \<open>Properties\<close>

text \<open>
  C11. From any well-formed list, every sequence of legal insertions, removals and replacements
  leaves a well-formed list that holds exactly the entries, in exactly the order, that the same
  operations give on a HOL list.
\<close>

theorem ns_list_operations_refine_lists:
  assumes "ns_list_rep m l off xs" and "all_legal l off xs ps"
  shows "ns_list_rep (foldl (list_exec l off) m ps) l off (foldl list_spec xs ps)"
  using assms
proof (induction ps arbitrary: m xs)
  case (Cons p ps)
  then have "ns_list_rep (list_exec l off m p) l off (list_spec xs p)"
    by (intro list_exec_rep) auto
  with Cons show ?case by simp
qed simp

theorem ns_list_operations_refine_lists_witness:
  "ns_list_rep (foldl (list_exec 100 1) (ns_list_init (\<lambda>_. 0) 100)
      [Add_to_end 10, Add_to_start 20, Add_after 20 30, Add_before 10 40, Replace 30 50, Remove 20])
    100 1 [50, 40, 10]"
  using ns_list_operations_refine_lists [of "ns_list_init (\<lambda>_. 0) 100" 100 1 "[]"
      "[Add_to_end 10, Add_to_start 20, Add_after 20 30, Add_before 10 40, Replace 30 50, Remove 20]"]
  by (simp add: ns_list_init_rep fresh_entry_def apart_def)

end
