(* ===== verification/DynMem.thy ===== *)
theory DynMem
  imports NsList
begin

text \<open>
  The heap manager of \<open>nsdynmemLIB.c\<close> (built without \<open>STANDARD_MALLOC\<close>), translated function by
  function. One record holds what a book-keeping pointer reaches: the fields of \<open>struct ns_mem_book\<close>,
  the statistics it points to, the memory, and the list of failures reported to the heap failure
  callback. Hole descriptors live in that memory, linked by the operations of NsList. A function whose
  loop walks the hole list returns an option; \<open>None\<close> is a walk that does not end. Critical sections
  only exclude interrupts and have no effect on a sequential state.
\<close>

section \<open>Types and constants\<close>

datatype heap_fail_t =
    NS_DYN_MEM_NULL_FREE
  | NS_DYN_MEM_DOUBLE_FREE
  | NS_DYN_MEM_ALLOCATE_SIZE_NOT_VALID
  | NS_DYN_MEM_POINTER_NOT_VALID
  | NS_DYN_MEM_HEAP_SECTOR_CORRUPTED
  | NS_DYN_MEM_HEAP_SECTOR_UNITIALIZED

record mem_stat_t =
  heap_sector_size :: u32
  heap_sector_alloc_cnt :: u32
  heap_sector_allocated_bytes :: u32
  heap_sector_allocated_bytes_max :: u32
  heap_alloc_total_bytes :: u32
  heap_alloc_fail_cnt :: u32

datatype mem_stat_update_t = DEV_HEAP_ALLOC_OK | DEV_HEAP_ALLOC_FAIL | DEV_HEAP_FREE

record ns_mem_book =
  heap_main :: "addr list"
  heap_main_end :: "addr list"
  mem_stat_info :: mem_stat_t
  heap_failure_callback :: bool \<comment> \<open>whether a callback was given\<close>
  holes_list :: addr
  heap_size :: u32
  temporary_alloc_heap_limit :: u32
  mem :: memory
  failures :: "heap_fail_t list" \<comment> \<open>calls of the callback, latest last\<close>

definition REGION_COUNT :: nat where
  "REGION_COUNT = 3"

text \<open>\<open>sizeof(ns_mem_word_size_t)\<close> and \<open>sizeof(ns_mem_book_t)\<close> in bytes, \<open>hole_t\<close> in words.\<close>

definition WORD_SIZE :: u32 where
  "WORD_SIZE = 4"

definition BOOK_SIZE :: u32 where
  "BOOK_SIZE = 48"

definition HOLE_T_SIZE :: int where
  "HOLE_T_SIZE = 2"

definition TEMPORARY_ALLOC_FREE_HEAP_THRESHOLD :: u32 where
  "TEMPORARY_ALLOC_FREE_HEAP_THRESHOLD = 5"

text \<open>Offset of the link in \<open>hole_t\<close>, and of \<open>holes_list\<close> in the book, in words.\<close>

definition HOLE_LINK :: int where
  "HOLE_LINK = 0"

definition HOLES_LIST_OFFSET :: int where
  "HOLES_LIST_OFFSET = 8"

section \<open>Helpers\<close>

definition hole_from_block_start :: "addr \<Rightarrow> addr" where
  "hole_from_block_start start = start + 1"

definition block_start_from_hole :: "addr \<Rightarrow> addr" where
  "block_start_from_hole start = start - 1"

definition heap_failure :: "ns_mem_book \<Rightarrow> heap_fail_t \<Rightarrow> ns_mem_book" where
  "heap_failure book reason =
     (if heap_failure_callback book then book\<lparr>failures := failures book @ [reason]\<rparr> else book)"

fun region_find_loop :: "ns_mem_book \<Rightarrow> addr \<Rightarrow> int \<Rightarrow> nat list \<Rightarrow> int" where
  "region_find_loop book block_ptr sz [] = -1"
| "region_find_loop book block_ptr sz (index # rest) =
     (if heap_main book ! index \<noteq> NULL \<and> block_ptr \<ge> heap_main book ! index \<and>
         block_ptr < heap_main_end book ! index \<and> block_ptr + sz < heap_main_end book ! index
      then int index else region_find_loop book block_ptr sz rest)"

definition ns_dyn_mem_region_find :: "ns_mem_book \<Rightarrow> addr \<Rightarrow> int \<Rightarrow> int" where
  "ns_dyn_mem_region_find book block_ptr sz =
     region_find_loop book block_ptr sz [0..<REGION_COUNT]"

fun region_save_loop :: "ns_mem_book \<Rightarrow> addr \<Rightarrow> int \<Rightarrow> nat list \<Rightarrow> int \<times> ns_mem_book" where
  "region_save_loop book region_start_ptr region_size [] = (-1, book)"
| "region_save_loop book region_start_ptr region_size (i # rest) =
     (if heap_main book ! i = NULL
      then (0, book\<lparr>heap_main := (heap_main book)[i := region_start_ptr],
                    heap_main_end := (heap_main_end book)[i := region_start_ptr + region_size]\<rparr>)
      else region_save_loop book region_start_ptr region_size rest)"

definition ns_dyn_mem_region_save :: "ns_mem_book \<Rightarrow> addr \<Rightarrow> int \<Rightarrow> int \<times> ns_mem_book" where
  "ns_dyn_mem_region_save book region_start_ptr region_size =
     region_save_loop book region_start_ptr region_size [1..<REGION_COUNT]"

fun dev_stat_update :: "mem_stat_t \<Rightarrow> mem_stat_update_t \<Rightarrow> u32 \<Rightarrow> mem_stat_t" where
  "dev_stat_update s DEV_HEAP_ALLOC_OK sz =
     (let s = s\<lparr>heap_sector_alloc_cnt := heap_sector_alloc_cnt s + 1\<rparr>;
          s = s\<lparr>heap_sector_allocated_bytes := heap_sector_allocated_bytes s + sz\<rparr>;
          s = (if heap_sector_allocated_bytes_max s < heap_sector_allocated_bytes s
               then s\<lparr>heap_sector_allocated_bytes_max := heap_sector_allocated_bytes s\<rparr> else s)
      in s\<lparr>heap_alloc_total_bytes := heap_alloc_total_bytes s + sz\<rparr>)"
| "dev_stat_update s DEV_HEAP_ALLOC_FAIL sz =
     s\<lparr>heap_alloc_fail_cnt := heap_alloc_fail_cnt s + 1\<rparr>"
| "dev_stat_update s DEV_HEAP_FREE sz =
     (let s = s\<lparr>heap_sector_alloc_cnt := heap_sector_alloc_cnt s - 1\<rparr>
      in s\<lparr>heap_sector_allocated_bytes := heap_sector_allocated_bytes s - sz\<rparr>)"

text \<open>
  The number of data words for a request. An invalid request is reported and still converted, in
  \<open>size_t\<close> arithmetic: close to the top of the range the sum wraps and the result is 0.
\<close>

definition convert_allocation_size :: "ns_mem_book \<Rightarrow> u32 \<Rightarrow> int \<times> ns_mem_book" where
  "convert_allocation_size book requested_bytes =
     (uint ((requested_bytes + WORD_SIZE - 1) div WORD_SIZE),
      if heap_main book ! 0 = NULL then heap_failure book NS_DYN_MEM_HEAP_SECTOR_UNITIALIZED
      else if requested_bytes < 1 then heap_failure book NS_DYN_MEM_ALLOCATE_SIZE_NOT_VALID
      else if requested_bytes > heap_size book - 2 * WORD_SIZE
      then heap_failure book NS_DYN_MEM_ALLOCATE_SIZE_NOT_VALID
      else book)"

definition ns_mem_block_validate :: "memory \<Rightarrow> addr \<Rightarrow> int" where
  "ns_mem_block_validate m block_start =
     (let size_start = m block_start;
          block_end = block_start + (1 + \<bar>size_start\<bar>)
      in if size_start \<noteq> 0 \<and> size_start = m block_end then 0 else -1)"

text \<open>
  Alignment of a memory area, as \<open>ns_mem_init\<close> and \<open>ns_mem_region_add\<close> write it: the start is moved
  up to a word boundary and the length is then corrected, by \<open>4 - length mod 4\<close>.
\<close>

definition align_region :: "u32 \<Rightarrow> u32 \<Rightarrow> u32 \<times> u32" where
  "align_region ptr sz =
     (let temp_int = ptr mod WORD_SIZE;
          (ptr, sz) = (if temp_int \<noteq> 0 then (ptr + (WORD_SIZE - temp_int), sz - (WORD_SIZE - temp_int))
                         else (ptr, sz));
          temp_int = sz mod WORD_SIZE;
          sz = (if temp_int \<noteq> 0 then sz - (WORD_SIZE - temp_int) else sz)
      in (ptr, sz))"

section \<open>Initialisation\<close>

definition zero_stats :: mem_stat_t where
  "zero_stats = \<lparr>heap_sector_size = 0, heap_sector_alloc_cnt = 0, heap_sector_allocated_bytes = 0,
     heap_sector_allocated_bytes_max = 0, heap_alloc_total_bytes = 0, heap_alloc_fail_cnt = 0\<rparr>"

definition default_limit :: "u32 \<Rightarrow> u32" where
  "default_limit sz = sz div 100 * (100 - TEMPORARY_ALLOC_FREE_HEAP_THRESHOLD)"

definition ns_mem_init :: "memory \<Rightarrow> u32 \<Rightarrow> u32 \<Rightarrow> bool \<Rightarrow> ns_mem_book" where
  "ns_mem_init m heap h_size passed_fptr =
     (let (heap, h_size) = align_region heap h_size;
          base = uint heap div 4;
          main = base + uint BOOK_SIZE div 4;
          hsize = h_size - BOOK_SIZE;
          temp_int = uint (hsize div WORD_SIZE) - 2;
          m = m(main := - temp_int);
          ptr = main + (temp_int + 1);
          m = m(ptr := - temp_int);
          hl = base + HOLES_LIST_OFFSET;
          m = ns_list_init m hl;
          m = ns_list_add_to_start m hl HOLE_LINK (hole_from_block_start main)
      in \<lparr>heap_main = [main, NULL, NULL], heap_main_end = [ptr, NULL, NULL],
          mem_stat_info = zero_stats\<lparr>heap_sector_size := hsize\<rparr>,
          heap_failure_callback = passed_fptr, holes_list = hl, heap_size = hsize,
          temporary_alloc_heap_limit = default_limit hsize, mem = m, failures = []\<rparr>)"

section \<open>Adding a region\<close>

text \<open>The loop that finds the last hole below the new one, or that the new one is on the list.\<close>

definition region_add_body :: "addr \<Rightarrow> addr \<Rightarrow> addr \<Rightarrow> int + addr" where
  "region_add_body hole_to_add previous_hole hole_in_list =
     (if hole_in_list < hole_to_add then Inr hole_in_list
      else if hole_in_list = hole_to_add then Inl (-2) else Inr previous_hole)"

partial_function (option) region_add_loop ::
    "memory \<Rightarrow> addr \<Rightarrow> addr \<Rightarrow> addr \<Rightarrow> (int + addr) option" where
  "region_add_loop m hole_to_add p previous_hole =
     (if p = NULL then Some (Inr previous_hole)
      else case region_add_body hole_to_add previous_hole p of
        Inl r \<Rightarrow> Some (Inl r)
      | Inr previous_hole' \<Rightarrow>
          region_add_loop m hole_to_add (ns_list_get_next m HOLE_LINK p) previous_hole')"

declare region_add_loop.simps [code]

definition region_add_book :: "ns_mem_book \<Rightarrow> u32 \<Rightarrow> u32 \<Rightarrow> (int \<times> ns_mem_book) option" where
  "region_add_book book region_ptr region_size =
     (let (region_ptr, region_size) = align_region region_ptr region_size;
          temp_int = uint (region_size div WORD_SIZE) - 2;
          start = uint region_ptr div 4;
          m = (mem book)(start := - temp_int);
          block_ptr = start + (temp_int + 1);
          m = m(block_ptr := - temp_int);
          book = book\<lparr>mem := m\<rparr>;
          hole_to_add = hole_from_block_start start
      in case region_add_loop m hole_to_add (ns_list_get_first m (holes_list book)) NULL of
           None \<Rightarrow> None
         | Some (Inl r) \<Rightarrow> Some (r, book)
         | Some (Inr previous_hole) \<Rightarrow>
             (let (saved, book) = ns_dyn_mem_region_save book start
                                    (uint (region_size div WORD_SIZE) - 1)
              in if saved \<noteq> 0 then Some (-3, book)
                 else
                   let m = (if previous_hole \<noteq> NULL
                            then ns_list_add_after m (holes_list book) HOLE_LINK previous_hole hole_to_add
                            else ns_list_add_to_start m (holes_list book) HOLE_LINK hole_to_add);
                       sz = heap_size book + region_size
                   in Some (0, book\<lparr>mem := m, heap_size := sz,
                                 mem_stat_info := (mem_stat_info book)\<lparr>heap_sector_size := sz\<rparr>,
                                 temporary_alloc_heap_limit := default_limit sz\<rparr>)))"

text \<open>The book-keeping pointer of the API; \<open>None\<close> is the null pointer.\<close>

definition ns_mem_region_add ::
    "ns_mem_book option \<Rightarrow> u32 \<Rightarrow> u32 \<Rightarrow> (int \<times> ns_mem_book option) option" where
  "ns_mem_region_add book region_ptr region_size =
     (case book of
        None \<Rightarrow> Some (-1, None)
      | Some b \<Rightarrow>
          if region_ptr = 0 \<or> region_size < 3 * WORD_SIZE then Some (-1, Some b)
          else map_option (\<lambda>(r, b'). (r, Some b')) (region_add_book b region_ptr region_size))"

section \<open>Statistics and the threshold of temporary allocations\<close>

definition ns_mem_get_mem_stat :: "ns_mem_book \<Rightarrow> mem_stat_t" where
  "ns_mem_get_mem_stat heap = mem_stat_info heap"

definition ns_mem_set_temporary_alloc_free_heap_threshold ::
    "ns_mem_book option \<Rightarrow> u8 \<Rightarrow> u32 \<Rightarrow> int \<times> ns_mem_book option" where
  "ns_mem_set_temporary_alloc_free_heap_threshold book free_heap_percentage free_heap_amount =
     (case book of
        None \<Rightarrow> (-1, None)
      | Some b \<Rightarrow>
          let heap_limit = 0;
              heap_limit = (if free_heap_amount \<noteq> 0 \<and> free_heap_amount < heap_size b div 2
                            then heap_size b - free_heap_amount else heap_limit);
              heap_limit = (if free_heap_amount = 0 \<and> free_heap_percentage \<noteq> 0 \<and>
                               free_heap_percentage < 50
                            then heap_size b div 100 * (100 - ucast free_heap_percentage)
                            else heap_limit);
              heap_limit = (if free_heap_amount = 0 \<and> free_heap_percentage = 0
                            then heap_size b else heap_limit)
          in if heap_limit = 0 then (-2, Some b)
             else (0, Some (b\<lparr>temporary_alloc_heap_limit := heap_limit\<rparr>)))"

section \<open>Allocation\<close>

datatype search_exit = Found addr | Corrupted

definition alloc_search_body :: "memory \<Rightarrow> int \<Rightarrow> unit \<Rightarrow> addr \<Rightarrow> search_exit + unit" where
  "alloc_search_body m data_size acc cur_hole =
     (let p = block_start_from_hole cur_hole
      in if ns_mem_block_validate m p \<noteq> 0 \<or> m p \<ge> 0 then Inl Corrupted
         else if - m p \<ge> data_size then Inl (Found p) else Inr acc)"

text \<open>The search over the hole list, upwards for direction 1 and downwards for -1.\<close>

definition alloc_search_first :: "memory \<Rightarrow> addr \<Rightarrow> int \<Rightarrow> addr" where
  "alloc_search_first m hl direction =
     (if direction > 0 then ns_list_get_first m hl else ns_list_get_last m hl HOLE_LINK)"

definition alloc_search_next :: "memory \<Rightarrow> addr \<Rightarrow> int \<Rightarrow> addr \<Rightarrow> addr" where
  "alloc_search_next m hl direction cur_hole =
     (if direction > 0 then ns_list_get_next m HOLE_LINK cur_hole
      else ns_list_get_previous m hl HOLE_LINK cur_hole)"

partial_function (option) alloc_search ::
    "memory \<Rightarrow> addr \<Rightarrow> int \<Rightarrow> int \<Rightarrow> addr \<Rightarrow> unit \<Rightarrow> (search_exit + unit) option" where
  "alloc_search m hl direction data_size cur_hole acc =
     (if cur_hole = NULL then Some (Inr acc)
      else case alloc_search_body m data_size acc cur_hole of
        Inl r \<Rightarrow> Some (Inl r)
      | Inr acc' \<Rightarrow>
          alloc_search m hl direction data_size (alloc_search_next m hl direction cur_hole) acc')"

declare alloc_search.simps [code]

text \<open>
  Carving the request out of the hole found: the memory, the start of the allocated block and its
  number of data words.
\<close>

definition alloc_take :: "memory \<Rightarrow> addr \<Rightarrow> int \<Rightarrow> addr \<Rightarrow> int \<Rightarrow> memory \<times> addr \<times> int" where
  "alloc_take m hl direction block_ptr data_size =
     (let block_data_size = - m block_ptr;
          (m, block_ptr, data_size) =
            (if block_data_size \<ge> data_size + 2 + HOLE_T_SIZE then
               let hole_size = block_data_size - data_size - 2;
                   (m, hole_ptr, block_ptr) =
                     (if direction > 0 then
                        let hole_ptr = block_ptr + 1 + data_size + 1;
                            before_hole = ns_list_get_previous m hl HOLE_LINK (hole_from_block_start block_ptr);
                            m = ns_list_remove m hl HOLE_LINK (hole_from_block_start block_ptr);
                            m = (if before_hole \<noteq> NULL
                                 then ns_list_add_after m hl HOLE_LINK before_hole (hole_from_block_start hole_ptr)
                                 else ns_list_add_to_start m hl HOLE_LINK (hole_from_block_start hole_ptr))
                        in (m, hole_ptr, block_ptr)
                      else (m, block_ptr, block_ptr + (1 + hole_size + 1)));
                   m = m(hole_ptr := - hole_size);
                   m = m(hole_ptr + (1 + hole_size) := - hole_size)
               in (m, block_ptr, data_size)
             else
               (ns_list_remove m hl HOLE_LINK (hole_from_block_start block_ptr), block_ptr, block_data_size));
          m = m(block_ptr := data_size);
          m = m(block_ptr + (1 + data_size) := data_size)
      in (m, block_ptr, data_size))"

text \<open>The common exit (label \<open>done\<close>): statistics, then the pointer to the data words.\<close>

definition alloc_done :: "ns_mem_book \<Rightarrow> addr \<Rightarrow> int \<Rightarrow> addr \<times> ns_mem_book" where
  "alloc_done book block_ptr data_size =
     (if block_ptr \<noteq> NULL
      then (block_ptr + 1,
            book\<lparr>mem_stat_info := dev_stat_update (mem_stat_info book) DEV_HEAP_ALLOC_OK
                    (word_of_int (data_size + 2) * WORD_SIZE)\<rparr>)
      else (NULL,
            book\<lparr>mem_stat_info := dev_stat_update (mem_stat_info book) DEV_HEAP_ALLOC_FAIL 0\<rparr>))"

definition internal_alloc_book ::
    "ns_mem_book \<Rightarrow> u32 \<Rightarrow> int \<Rightarrow> (addr \<times> ns_mem_book) option" where
  "internal_alloc_book book alloc_size direction =
     (if direction = 1 \<and>
         heap_sector_allocated_bytes (mem_stat_info book) > temporary_alloc_heap_limit book
      then Some (NULL, book\<lparr>mem_stat_info :=
                          dev_stat_update (mem_stat_info book) DEV_HEAP_ALLOC_FAIL 0\<rparr>)
      else
        let (data_size, book) = convert_allocation_size book alloc_size
        in if data_size = 0 then Some (alloc_done book NULL data_size)
           else
             case alloc_search (mem book) (holes_list book) direction data_size
                    (alloc_search_first (mem book) (holes_list book) direction) () of
               None \<Rightarrow> None
             | Some (Inr _) \<Rightarrow> Some (alloc_done book NULL data_size)
             | Some (Inl Corrupted) \<Rightarrow>
                 Some (alloc_done (heap_failure book NS_DYN_MEM_HEAP_SECTOR_CORRUPTED) NULL data_size)
             | Some (Inl (Found p)) \<Rightarrow>
                 (let (m, block_ptr, data_size) =
                        alloc_take (mem book) (holes_list book) direction p data_size
                  in Some (alloc_done (book\<lparr>mem := m\<rparr>) block_ptr data_size)))"

definition ns_mem_internal_alloc ::
    "ns_mem_book option \<Rightarrow> u32 \<Rightarrow> int \<Rightarrow> (addr \<times> ns_mem_book option) option" where
  "ns_mem_internal_alloc book alloc_size direction =
     (case book of
        None \<Rightarrow> Some (NULL, None)
      | Some b \<Rightarrow> map_option (\<lambda>(p, b'). (p, Some b')) (internal_alloc_book b alloc_size direction))"

definition ns_mem_alloc ::
    "ns_mem_book option \<Rightarrow> u32 \<Rightarrow> (addr \<times> ns_mem_book option) option" where
  "ns_mem_alloc heap alloc_size = ns_mem_internal_alloc heap alloc_size (-1)"

definition ns_mem_temporary_alloc ::
    "ns_mem_book option \<Rightarrow> u32 \<Rightarrow> (addr \<times> ns_mem_book option) option" where
  "ns_mem_temporary_alloc heap alloc_size = ns_mem_internal_alloc heap alloc_size 1"

section \<open>Freeing\<close>

text \<open>
  Merging with the block below and the block above: the book, the new boundary, the merged size and
  the hole descriptor already on the list (or null).
\<close>

definition merge_previous ::
    "ns_mem_book \<Rightarrow> addr \<Rightarrow> addr \<Rightarrow> int \<Rightarrow> ns_mem_book \<times> addr \<times> int \<times> addr" where
  "merge_previous book region_start start merged_data_size =
     (if start \<noteq> region_start \<and> mem book (start - 1) < 0 then
        let block_end = start - 1;
            block_size = 1 + (- mem book block_end) + 1;
            merged_data_size = merged_data_size + block_size;
            start = start - block_size;
            book = (if mem book start \<noteq> mem book block_end
                    then heap_failure book NS_DYN_MEM_HEAP_SECTOR_CORRUPTED else book);
            existing_start = (if block_size \<ge> 1 + HOLE_T_SIZE + 1
                              then hole_from_block_start start else NULL)
        in (book, start, merged_data_size, existing_start)
      else (book, start, merged_data_size, NULL))"

definition merge_next ::
    "ns_mem_book \<Rightarrow> addr \<Rightarrow> addr \<Rightarrow> int \<Rightarrow> ns_mem_book \<times> addr \<times> int \<times> addr" where
  "merge_next book region_end block_end merged_data_size =
     (if block_end \<noteq> region_end \<and> mem book (block_end + 1) < 0 then
        let block_start = block_end + 1;
            block_size = 1 + (- mem book block_start) + 1;
            merged_data_size = merged_data_size + block_size;
            block_end = block_end + block_size;
            book = (if mem book block_end \<noteq> mem book block_start
                    then heap_failure book NS_DYN_MEM_HEAP_SECTOR_CORRUPTED else book);
            existing_end = (if block_size \<ge> 1 + HOLE_T_SIZE + 1
                            then hole_from_block_start block_start else NULL)
        in (book, block_end, merged_data_size, existing_end)
      else (book, block_end, merged_data_size, NULL))"

definition find_above_body :: "addr \<Rightarrow> unit \<Rightarrow> addr \<Rightarrow> addr + unit" where
  "find_above_body to_add acc p = (if p > to_add then Inl p else Inr acc)"

partial_function (option) find_above_loop ::
    "memory \<Rightarrow> addr \<Rightarrow> addr \<Rightarrow> unit \<Rightarrow> (addr + unit) option" where
  "find_above_loop m to_add p acc =
     (if p = NULL then Some (Inr acc)
      else case find_above_body to_add acc p of
        Inl r \<Rightarrow> Some (Inl r)
      | Inr acc' \<Rightarrow> find_above_loop m to_add (ns_list_get_next m HOLE_LINK p) acc')"

declare find_above_loop.simps [code]

definition update_hole_list ::
    "memory \<Rightarrow> addr \<Rightarrow> addr \<Rightarrow> int \<Rightarrow> addr \<Rightarrow> addr \<Rightarrow> memory option" where
  "update_hole_list m hl start merged_data_size existing_start existing_end =
     (let to_add = hole_from_block_start start;
          (before_hole, m) =
            (if existing_end \<noteq> NULL
             then (ns_list_get_next m HOLE_LINK existing_end, ns_list_remove m hl HOLE_LINK existing_end)
             else (NULL, m))
      in if existing_start \<noteq> NULL then Some m
         else if merged_data_size \<ge> HOLE_T_SIZE then
           case (if existing_end = NULL
                 then find_above_loop m to_add (ns_list_get_first m hl) ()
                 else Some (Inl before_hole)) of
             None \<Rightarrow> None
           | Some found \<Rightarrow>
               (let before_hole = (case found of Inl p \<Rightarrow> p | Inr _ \<Rightarrow> NULL)
                in if before_hole \<noteq> NULL
                   then Some (ns_list_add_before m HOLE_LINK before_hole to_add)
                   else Some (ns_list_add_to_end m hl HOLE_LINK to_add))
         else Some m)"

definition ns_mem_free_and_merge_with_adjacent_blocks ::
    "ns_mem_book \<Rightarrow> addr \<Rightarrow> int \<Rightarrow> ns_mem_book option" where
  "ns_mem_free_and_merge_with_adjacent_blocks book cur_block data_size =
     (let start = cur_block;
          block_end = cur_block + data_size + 1;
          region_index = ns_dyn_mem_region_find book cur_block data_size
      in if region_index < 0 then Some (heap_failure book NS_DYN_MEM_HEAP_SECTOR_CORRUPTED)
         else
           let region_start = heap_main book ! nat region_index;
               region_end = heap_main_end book ! nat region_index;
               book = book\<lparr>mem := (mem book)(start := - data_size, block_end := - data_size)\<rparr>;
               (book, start, merged_data_size, existing_start) =
                 merge_previous book region_start start data_size;
               (book, block_end, merged_data_size, existing_end) =
                 merge_next book region_end block_end merged_data_size
           in case update_hole_list (mem book) (holes_list book) start merged_data_size
                     existing_start existing_end of
                None \<Rightarrow> None
              | Some m \<Rightarrow> Some (book\<lparr>mem := m(start := - merged_data_size,
                                              block_end := - merged_data_size)\<rparr>))"

definition pointer_address_validate :: "ns_mem_book \<Rightarrow> addr \<Rightarrow> int \<Rightarrow> bool" where
  "pointer_address_validate book ptr sz = (ns_dyn_mem_region_find book ptr sz \<ge> 0)"

definition ns_mem_free :: "ns_mem_book \<Rightarrow> addr \<Rightarrow> ns_mem_book option" where
  "ns_mem_free book block =
     (if block = NULL then Some book
      else
        let ptr = block - 1;
            sz = mem book ptr
        in if \<not> pointer_address_validate book ptr sz
           then Some (heap_failure book NS_DYN_MEM_POINTER_NOT_VALID)
           else if sz < 0 then Some (heap_failure book NS_DYN_MEM_DOUBLE_FREE)
           else if ns_mem_block_validate (mem book) ptr \<noteq> 0
           then Some (heap_failure book NS_DYN_MEM_HEAP_SECTOR_CORRUPTED)
           else
             map_option
               (\<lambda>b. b\<lparr>mem_stat_info := dev_stat_update (mem_stat_info b) DEV_HEAP_FREE
                                         (word_of_int (sz + 2) * WORD_SIZE)\<rparr>)
               (ns_mem_free_and_merge_with_adjacent_blocks book ptr sz))"

section \<open>The default heap\<close>

text \<open>
  The \<open>ns_dyn_\<close> functions work on the static \<open>default_book\<close>, here an argument that is null before
  \<open>ns_dyn_mem_init\<close>. Freeing a block or asking for the statistics then reads through the null pointer;
  the outer \<open>None\<close> stands for that too.
\<close>

definition ns_dyn_mem_init :: "memory \<Rightarrow> u32 \<Rightarrow> u32 \<Rightarrow> bool \<Rightarrow> ns_mem_book option" where
  "ns_dyn_mem_init m heap h_size passed_fptr = Some (ns_mem_init m heap h_size passed_fptr)"

definition ns_dyn_mem_region_add ::
    "ns_mem_book option \<Rightarrow> u32 \<Rightarrow> u32 \<Rightarrow> (int \<times> ns_mem_book option) option" where
  "ns_dyn_mem_region_add default_book region_ptr region_size =
     ns_mem_region_add default_book region_ptr region_size"

definition ns_dyn_mem_get_mem_stat :: "ns_mem_book option \<Rightarrow> mem_stat_t option" where
  "ns_dyn_mem_get_mem_stat default_book = map_option ns_mem_get_mem_stat default_book"

definition ns_dyn_mem_set_temporary_alloc_free_heap_threshold ::
    "ns_mem_book option \<Rightarrow> u8 \<Rightarrow> u32 \<Rightarrow> int \<times> ns_mem_book option" where
  "ns_dyn_mem_set_temporary_alloc_free_heap_threshold default_book percentage amount =
     ns_mem_set_temporary_alloc_free_heap_threshold default_book percentage amount"

definition ns_dyn_mem_alloc ::
    "ns_mem_book option \<Rightarrow> u32 \<Rightarrow> (addr \<times> ns_mem_book option) option" where
  "ns_dyn_mem_alloc default_book alloc_size = ns_mem_alloc default_book alloc_size"

definition ns_dyn_mem_temporary_alloc ::
    "ns_mem_book option \<Rightarrow> u32 \<Rightarrow> (addr \<times> ns_mem_book option) option" where
  "ns_dyn_mem_temporary_alloc default_book alloc_size = ns_mem_temporary_alloc default_book alloc_size"

definition ns_dyn_mem_free :: "ns_mem_book option \<Rightarrow> addr \<Rightarrow> ns_mem_book option option" where
  "ns_dyn_mem_free default_book block =
     (if block = NULL then Some default_book
      else case default_book of None \<Rightarrow> None | Some b \<Rightarrow> map_option Some (ns_mem_free b block))"

end
