(* ===== verification/DynMemLayout.thy ===== *)
theory DynMemLayout
  imports DynMem
begin

text \<open>
  The layout of the heap of \<open>nsdynmemLIB.c\<close> and its invariant. A region is a sequence of blocks, each
  delimited by two words that hold its size, negative when it is free; the free blocks of two words
  and more hold the hole descriptors, which the list links in address order. The frame rule
  \<open>regions_ok_update\<close> reduces an operation to the one stretch of blocks it rewrites.
\<close>

section \<open>Blocks of a region\<close>

fun span :: "int list \<Rightarrow> int" where
  "span [] = 0"
| "span (s # ss) = \<bar>s\<bar> + 2 + span ss"

fun blocks_at :: "memory \<Rightarrow> addr \<Rightarrow> int list \<Rightarrow> bool" where
  "blocks_at m a [] = True"
| "blocks_at m a (s # ss) \<longleftrightarrow>
     s \<noteq> 0 \<and> m a = s \<and> m (a + 1 + \<bar>s\<bar>) = s \<and> blocks_at m (a + (\<bar>s\<bar> + 2)) ss"

fun holes_at :: "addr \<Rightarrow> int list \<Rightarrow> addr set" where
  "holes_at a [] = {}"
| "holes_at a (s # ss) =
     (if s \<le> - HOLE_T_SIZE then {a + 1} else {}) \<union> holes_at (a + (\<bar>s\<bar> + 2)) ss"

fun live_at :: "addr \<Rightarrow> int list \<Rightarrow> (addr \<times> int) set" where
  "live_at a [] = {}"
| "live_at a (s # ss) =
     (if s > 0 then {(a + 1, s)} else {}) \<union> live_at (a + (\<bar>s\<bar> + 2)) ss"

text \<open>Cells no list operation may touch: the delimiting words, and the data of allocated blocks.\<close>

fun kept_at :: "addr \<Rightarrow> int list \<Rightarrow> addr set" where
  "kept_at a [] = {}"
| "kept_at a (s # ss) =
     {a, a + 1 + \<bar>s\<bar>} \<union> (if s > 0 then {a..a + 1 + s} else {}) \<union> kept_at (a + (\<bar>s\<bar> + 2)) ss"

fun coalesced :: "int list \<Rightarrow> bool" where
  "coalesced (s # t # ss) \<longleftrightarrow> \<not> (s < 0 \<and> t < 0) \<and> coalesced (t # ss)"
| "coalesced ss = True"

lemma span_nonneg: "0 \<le> span ss"
  by (induction ss) auto

lemma span_append [simp]: "span (xs @ ys) = span xs + span ys"
  by (induction xs) auto

lemma span_pos: "ss \<noteq> [] \<Longrightarrow> 2 \<le> span ss"
  using span_nonneg [of "tl ss"] by (cases ss) auto

lemma blocks_at_append [simp]:
  "blocks_at m a (xs @ ys) \<longleftrightarrow> blocks_at m a xs \<and> blocks_at m (a + span xs) ys"
  by (induction xs arbitrary: a) (auto simp: algebra_simps)

lemma holes_at_append [simp]: "holes_at a (xs @ ys) = holes_at a xs \<union> holes_at (a + span xs) ys"
  by (induction xs arbitrary: a) (auto simp: algebra_simps)

lemma live_at_append [simp]: "live_at a (xs @ ys) = live_at a xs \<union> live_at (a + span xs) ys"
  by (induction xs arbitrary: a) (auto simp: algebra_simps)

lemma kept_at_append [simp]: "kept_at a (xs @ ys) = kept_at a xs \<union> kept_at (a + span xs) ys"
  by (induction xs arbitrary: a) (auto simp: algebra_simps)

lemma holes_at_bounds: "x \<in> holes_at a ss \<Longrightarrow> a + 1 \<le> x \<and> x + 3 \<le> a + span ss"
proof (induction ss arbitrary: a)
  case (Cons s ss)
  show ?case
    using Cons.prems Cons.IH [of "a + (\<bar>s\<bar> + 2)"] span_nonneg [of ss]
    by (auto simp: HOLE_T_SIZE_def split: if_splits)
qed simp

lemma kept_at_bounds: "c \<in> kept_at a ss \<Longrightarrow> a \<le> c \<and> c < a + span ss"
proof (induction ss arbitrary: a)
  case (Cons s ss)
  show ?case
    using Cons.prems Cons.IH [of "a + (\<bar>s\<bar> + 2)"] span_nonneg [of ss]
    by (auto split: if_splits)
qed simp

lemma live_at_bounds: "(p, n) \<in> live_at a ss \<Longrightarrow> 0 < n \<and> a + 1 \<le> p \<and> p + n + 1 \<le> a + span ss"
proof (induction ss arbitrary: a)
  case (Cons s ss)
  show ?case
    using Cons.prems Cons.IH [of "a + (\<bar>s\<bar> + 2)"] span_nonneg [of ss]
    by (auto split: if_splits)
qed simp

lemma live_at_kept: "(p, n) \<in> live_at a ss \<Longrightarrow> {p - 1..p + n} \<subseteq> kept_at a ss"
proof (induction ss arbitrary: a)
  case (Cons s ss)
  then show ?case
    using Cons.IH [of "a + (\<bar>s\<bar> + 2)"] by (force split: if_splits)
qed simp

text \<open>The link of a hole descriptor lies in data of a free block: no kept cell is part of it.\<close>

lemma holes_not_kept: "x \<in> holes_at a ss \<Longrightarrow> x \<notin> kept_at a ss \<and> x + 1 \<notin> kept_at a ss"
proof (induction ss arbitrary: a)
  case (Cons s ss)
  show ?case
  proof (cases "x \<in> holes_at (a + (\<bar>s\<bar> + 2)) ss")
    case True
    with Cons.IH holes_at_bounds [OF True] show ?thesis by auto
  next
    case False
    with Cons.prems have s: "s \<le> - HOLE_T_SIZE" "x = a + 1" by (auto split: if_splits)
    then have "x \<notin> kept_at (a + (\<bar>s\<bar> + 2)) ss" "x + 1 \<notin> kept_at (a + (\<bar>s\<bar> + 2)) ss"
      using kept_at_bounds [of _ "a + (\<bar>s\<bar> + 2)" ss] by (force simp: HOLE_T_SIZE_def)+
    with s show ?thesis by (auto simp: HOLE_T_SIZE_def)
  qed
qed simp

lemma blocks_at_cong:
  assumes "\<And>c. c \<in> kept_at a ss \<Longrightarrow> m' c = m c"
  shows "blocks_at m' a ss = blocks_at m a ss"
  using assms
proof (induction ss arbitrary: a)
  case (Cons s ss)
  then have "blocks_at m' (a + (\<bar>s\<bar> + 2)) ss = blocks_at m (a + (\<bar>s\<bar> + 2)) ss" by simp
  with Cons.prems show ?case by simp
qed simp

lemma coalesced_Cons:
  "coalesced (s # ss) \<longleftrightarrow> coalesced ss \<and> (ss = [] \<or> \<not> (s < 0 \<and> hd ss < 0))"
  by (cases ss) auto

lemma coalesced_append:
  "coalesced (xs @ ys) \<longleftrightarrow> coalesced xs \<and> coalesced ys \<and>
     (xs = [] \<or> ys = [] \<or> \<not> (last xs < 0 \<and> hd ys < 0))"
proof (induction xs)
  case (Cons x xs)
  then show ?case by (cases xs; cases ys) auto
qed simp

text \<open>A hole of the region is the data of one of its free blocks.\<close>

lemma holes_at_split:
  assumes "x \<in> holes_at a ss"
  obtains ss1 k ss2 where "ss = ss1 @ - k # ss2" "x = a + span ss1 + 1" "HOLE_T_SIZE \<le> k"
  using assms
proof (induction ss arbitrary: a thesis)
  case (Cons s ss)
  show ?case
  proof (cases "x \<in> holes_at (a + (\<bar>s\<bar> + 2)) ss")
    case True
    then obtain ss1 k ss2 where "ss = ss1 @ - k # ss2" "x = a + (\<bar>s\<bar> + 2) + span ss1 + 1"
      "HOLE_T_SIZE \<le> k" using Cons.IH by blast
    then show ?thesis using Cons.prems(1) [of "s # ss1" k ss2] by simp
  next
    case False
    with Cons.prems(2) have "s \<le> - HOLE_T_SIZE" "x = a + 1" by (auto split: if_splits)
    then show ?thesis using Cons.prems(1) [of "[]" "- s" ss] by simp
  qed
qed simp

lemma live_at_split:
  assumes "(p, n) \<in> live_at a ss"
  obtains ss1 ss2 where "ss = ss1 @ n # ss2" "p = a + span ss1 + 1" "0 < n"
  using assms
proof (induction ss arbitrary: a thesis)
  case (Cons s ss)
  show ?case
  proof (cases "(p, n) \<in> live_at (a + (\<bar>s\<bar> + 2)) ss")
    case True
    then obtain ss1 ss2 where "ss = ss1 @ n # ss2" "p = a + (\<bar>s\<bar> + 2) + span ss1 + 1"
      "0 < n" using Cons.IH by blast
    then show ?thesis using Cons.prems(1) [of "s # ss1" ss2] by simp
  next
    case False
    with Cons.prems(2) have "0 < s" "n = s" "p = a + 1" by (auto split: if_splits)
    then show ?thesis using Cons.prems(1) [of "[]" ss] by simp
  qed
qed simp

section \<open>The heap invariant\<close>

type_synonym region = "addr \<times> int list"

definition region_end :: "region \<Rightarrow> addr" where
  "region_end r = fst r + span (snd r)"

definition hole_set :: "region list \<Rightarrow> addr set" where
  "hole_set R = (\<Union>(a, ss) \<in> set R. holes_at a ss)"

definition live_blocks :: "region list \<Rightarrow> (addr \<times> int) set" where
  "live_blocks R = (\<Union>(a, ss) \<in> set R. live_at a ss)"

definition kept_cells :: "region list \<Rightarrow> addr set" where
  "kept_cells R = (\<Union>(a, ss) \<in> set R. kept_at a ss)"

definition disjoint_regions :: "region \<Rightarrow> region \<Rightarrow> bool" where
  "disjoint_regions r r' \<longleftrightarrow> region_end r \<le> fst r' \<or> region_end r' \<le> fst r"

definition region_ok :: "memory \<Rightarrow> addr \<Rightarrow> region \<Rightarrow> bool" where
  "region_ok m hl r \<longleftrightarrow> 0 < fst r \<and> snd r \<noteq> [] \<and> blocks_at m (fst r) (snd r) \<and> coalesced (snd r) \<and>
     (hl + 2 \<le> fst r \<or> region_end r \<le> hl)"

definition hole_list :: "memory \<Rightarrow> addr \<Rightarrow> addr set \<Rightarrow> addr list \<Rightarrow> bool" where
  "hole_list m hl H xs \<longleftrightarrow> ns_list_rep m hl HOLE_LINK xs \<and> sorted_wrt (<) xs \<and> set xs = H"

definition regions_ok :: "memory \<Rightarrow> addr \<Rightarrow> region list \<Rightarrow> bool" where
  "regions_ok m hl R \<longleftrightarrow> (\<forall>r \<in> set R. region_ok m hl r) \<and> sorted_wrt disjoint_regions R \<and>
     (\<exists>xs. hole_list m hl (hole_set R) xs)"

definition book_regions :: "ns_mem_book \<Rightarrow> region list \<Rightarrow> bool" where
  "book_regions book R \<longleftrightarrow> R \<noteq> [] \<and> length R \<le> REGION_COUNT \<and>
     heap_main book = map fst R @ replicate (REGION_COUNT - length R) NULL \<and>
     heap_main_end book = map (\<lambda>r. region_end r - 1) R @ replicate (REGION_COUNT - length R) NULL"

definition heap_inv :: "ns_mem_book \<Rightarrow> region list \<Rightarrow> bool" where
  "heap_inv book R \<longleftrightarrow> book_regions book R \<and> regions_ok (mem book) (holes_list book) R"


lemma hole_set_simps [simp]:
  "hole_set [] = {}" "hole_set (r # R) = holes_at (fst r) (snd r) \<union> hole_set R"
  "hole_set (R @ R') = hole_set R \<union> hole_set R'"
  by (auto simp: hole_set_def)

lemma live_blocks_simps [simp]:
  "live_blocks [] = {}" "live_blocks (r # R) = live_at (fst r) (snd r) \<union> live_blocks R"
  "live_blocks (R @ R') = live_blocks R \<union> live_blocks R'"
  by (auto simp: live_blocks_def)

lemma kept_cells_simps [simp]:
  "kept_cells [] = {}" "kept_cells (r # R) = kept_at (fst r) (snd r) \<union> kept_cells R"
  "kept_cells (R @ R') = kept_cells R \<union> kept_cells R'"
  by (auto simp: kept_cells_def)

subsection \<open>One stretch of blocks and its surroundings\<close>

text \<open>
  Every operation rewrites one stretch of \<open>w\<close> words, the blocks between \<open>ss1\<close> and \<open>ss2\<close> in the
  region that starts at \<open>a\<close>. These are the holes, cells and allocated blocks everywhere else.
\<close>

definition rest_holes :: "region list \<Rightarrow> addr \<Rightarrow> int list \<Rightarrow> int \<Rightarrow> int list \<Rightarrow> region list \<Rightarrow> addr set" where
  "rest_holes R1 a ss1 w ss2 R2 =
     hole_set R1 \<union> holes_at a ss1 \<union> holes_at (a + span ss1 + w) ss2 \<union> hole_set R2"

definition rest_kept :: "region list \<Rightarrow> addr \<Rightarrow> int list \<Rightarrow> int \<Rightarrow> int list \<Rightarrow> region list \<Rightarrow> addr set" where
  "rest_kept R1 a ss1 w ss2 R2 =
     kept_cells R1 \<union> kept_at a ss1 \<union> kept_at (a + span ss1 + w) ss2 \<union> kept_cells R2"

definition rest_live ::
    "region list \<Rightarrow> addr \<Rightarrow> int list \<Rightarrow> int \<Rightarrow> int list \<Rightarrow> region list \<Rightarrow> (addr \<times> int) set" where
  "rest_live R1 a ss1 w ss2 R2 =
     live_blocks R1 \<union> live_at a ss1 \<union> live_at (a + span ss1 + w) ss2 \<union> live_blocks R2"

lemma hole_set_stretch:
  "hole_set (R1 @ (a, ss1 @ old @ ss2) # R2) =
     rest_holes R1 a ss1 (span old) ss2 R2 \<union> holes_at (a + span ss1) old"
  by (auto simp: rest_holes_def algebra_simps)

lemma live_blocks_stretch:
  "live_blocks (R1 @ (a, ss1 @ old @ ss2) # R2) =
     rest_live R1 a ss1 (span old) ss2 R2 \<union> live_at (a + span ss1) old"
  by (auto simp: rest_live_def algebra_simps)

lemma hole_set_bounds:
  assumes "x \<in> hole_set R"
  obtains r where "r \<in> set R" "fst r + 1 \<le> x" "x + 3 \<le> region_end r"
  using assms holes_at_bounds by (fastforce simp: hole_set_def region_end_def)

lemma kept_cells_bounds:
  assumes "c \<in> kept_cells R"
  obtains r where "r \<in> set R" "fst r \<le> c" "c < region_end r"
  using assms kept_at_bounds by (fastforce simp: kept_cells_def region_end_def)

lemma live_blocks_bounds:
  assumes "(p, n) \<in> live_blocks R"
  obtains r where "r \<in> set R" "0 < n" "fst r + 1 \<le> p" "p + n + 1 \<le> region_end r"
  using assms live_at_bounds by (fastforce simp: live_blocks_def region_end_def)

lemma other_regions:
  assumes "regions_ok m hl (R1 @ (a, ss) # R2)" "r \<in> set R1 \<union> set R2"
  shows "region_end r \<le> a \<or> a + span ss \<le> fst r"
  using assms by (auto simp: regions_ok_def sorted_wrt_append disjoint_regions_def region_end_def)

lemma rest_holes_outside:
  assumes ok: "regions_ok m hl (R1 @ (a, ss1 @ old @ ss2) # R2)"
    and x: "x \<in> rest_holes R1 a ss1 (span old) ss2 R2"
  shows "x + 3 \<le> a + span ss1 \<or> a + span ss1 + span old + 1 \<le> x"
proof -
  have "0 \<le> span ss1" "0 \<le> span ss2" "0 \<le> span old" by (rule span_nonneg)+
  then show ?thesis
    using x holes_at_bounds [of x a ss1] holes_at_bounds [of x "a + span ss1 + span old" ss2]
      other_regions [OF ok]
    by (fastforce simp: rest_holes_def elim!: hole_set_bounds)
qed

lemma rest_kept_outside:
  assumes ok: "regions_ok m hl (R1 @ (a, ss1 @ old @ ss2) # R2)"
    and c: "c \<in> rest_kept R1 a ss1 (span old) ss2 R2"
  shows "c < a + span ss1 \<or> a + span ss1 + span old \<le> c"
proof -
  have "0 \<le> span ss1" "0 \<le> span ss2" "0 \<le> span old" by (rule span_nonneg)+
  then show ?thesis
    using c kept_at_bounds [of c a ss1] kept_at_bounds [of c "a + span ss1 + span old" ss2]
      other_regions [OF ok]
    by (fastforce simp: rest_kept_def elim!: kept_cells_bounds)
qed

lemma rest_live_kept:
  "(p, n) \<in> rest_live R1 a ss1 w ss2 R2 \<Longrightarrow> {p - 1..p + n} \<subseteq> rest_kept R1 a ss1 w ss2 R2"
  using live_at_kept by (fastforce simp: rest_live_def rest_kept_def live_blocks_def kept_cells_def)


lemma sorted_wrt_pair:
  "sorted_wrt P xs \<Longrightarrow> x \<in> set xs \<Longrightarrow> y \<in> set xs \<Longrightarrow> x = y \<or> P x y \<or> P y x"
  by (induction xs) auto

lemma regions_apart:
  "regions_ok m hl R \<Longrightarrow> r \<in> set R \<Longrightarrow> r' \<in> set R \<Longrightarrow>
     r = r' \<or> region_end r \<le> fst r' \<or> region_end r' \<le> fst r"
  using sorted_wrt_pair [of disjoint_regions R r r']
  by (auto simp: regions_ok_def disjoint_regions_def)

lemma hole_cells_not_kept:
  assumes ok: "regions_ok m hl R" and x: "x \<in> hole_set R" and c: "c \<in> kept_cells R"
  shows "c \<noteq> x" "c \<noteq> x + 1"
proof -
  obtain r where r: "r \<in> set R" "x \<in> holes_at (fst r) (snd r)"
    using x by (auto simp: hole_set_def)
  obtain r' where r': "r' \<in> set R" "c \<in> kept_at (fst r') (snd r')"
    using c by (auto simp: kept_cells_def)
  have "c \<noteq> x \<and> c \<noteq> x + 1"
  proof (cases "r = r'")
    case True
    with r r' holes_not_kept [of x "fst r" "snd r"] show ?thesis by auto
  next
    case False
    with regions_apart [OF ok r(1) r'(1)] holes_at_bounds [OF r(2)] kept_at_bounds [OF r'(2)]
    show ?thesis by (auto simp: region_end_def)
  qed
  then show "c \<noteq> x" "c \<noteq> x + 1" by auto
qed

lemma head_outside:
  "regions_ok m hl R \<Longrightarrow> r \<in> set R \<Longrightarrow> hl + 2 \<le> fst r \<or> region_end r \<le> hl"
  by (auto simp: regions_ok_def region_ok_def)

lemma head_cells_not_kept:
  assumes ok: "regions_ok m hl R" and c: "c \<in> kept_cells R"
  shows "c \<notin> head_cells hl"
  using c head_outside [OF ok] by (fastforce simp: head_cells_def elim!: kept_cells_bounds)

lemma hole_positive:
  assumes ok: "regions_ok m hl R" and x: "x \<in> hole_set R"
  shows "0 < x" "apart hl x"
proof -
  obtain r where r: "r \<in> set R" "fst r + 1 \<le> x" "x + 3 \<le> region_end r"
    using x by (rule hole_set_bounds)
  with ok have "0 < fst r" by (auto simp: regions_ok_def region_ok_def)
  with r head_outside [OF ok r(1)] show "0 < x" "apart hl x" by (auto simp: apart_def)
qed

text \<open>
  The frame rule of the allocator: rewriting one stretch keeps the heap well-formed, provided the
  new blocks are laid out, the cells of all other blocks are kept, and the hole list matches.
\<close>

lemma rest_in_whole:
  "rest_holes R1 a ss1 (span old) ss2 R2 \<subseteq> hole_set (R1 @ (a, ss1 @ old @ ss2) # R2)"
  "rest_kept R1 a ss1 (span old) ss2 R2 \<subseteq> kept_cells (R1 @ (a, ss1 @ old @ ss2) # R2)"
  by (auto simp: rest_holes_def rest_kept_def algebra_simps)

lemma kept_cells_memb: "r \<in> set R \<Longrightarrow> c \<in> kept_at (fst r) (snd r) \<Longrightarrow> c \<in> kept_cells R"
  by (auto simp: kept_cells_def)

lemma region_ok_cong:
  assumes "region_ok m hl r" "\<And>c. c \<in> kept_at (fst r) (snd r) \<Longrightarrow> m' c = m c"
  shows "region_ok m' hl r"
  using assms blocks_at_cong [of "fst r" "snd r" m' m] by (auto simp: region_ok_def)

lemma regions_ok_update:
  assumes ok: "regions_ok m hl (R1 @ (a, ss1 @ old @ ss2) # R2)"
    and w: "span old = w" and sp': "span new = w" and ne: "new \<noteq> []" and b: "b = a + span ss1"
    and blocks: "blocks_at m' b new"
    and same: "\<And>c. c \<in> rest_kept R1 a ss1 w ss2 R2 \<Longrightarrow> m' c = m c"
    and list: "hole_list m' hl (rest_holes R1 a ss1 w ss2 R2 \<union> holes_at b new) xs"
    and coal: "coalesced (ss1 @ new @ ss2)"
  shows "regions_ok m' hl (R1 @ (a, ss1 @ new @ ss2) # R2)"
proof -
  let ?R = "R1 @ (a, ss1 @ old @ ss2) # R2" and ?R' = "R1 @ (a, ss1 @ new @ ss2) # R2"
  note same = same [folded w] and list = list [folded w, unfolded b] and blocks = blocks [unfolded b]
  have sp: "span new = span old" using w sp' by simp
  have rok: "region_ok m hl r" if "r \<in> set ?R" for r
    using ok that by (auto simp: regions_ok_def)
  have R: "region_ok m hl (a, ss1 @ old @ ss2)" by (rule rok) simp
  have b1: "blocks_at m' a ss1"
    using R same blocks_at_cong [of a ss1 m' m] by (simp add: region_ok_def rest_kept_def)
  have b2: "blocks_at m' (a + span ss1 + span old) ss2"
    using R same blocks_at_cong [of "a + span ss1 + span old" ss2 m' m]
    by (simp add: region_ok_def rest_kept_def)
  have "region_ok m' hl (a, ss1 @ new @ ss2)"
    using R b1 b2 blocks coal sp ne by (simp add: region_ok_def region_end_def)
  moreover have "region_ok m' hl r" if "r \<in> set R1 \<union> set R2" for r
  proof (rule region_ok_cong)
    show "region_ok m hl r" using that by (intro rok) auto
    show "m' c = m c" if "c \<in> kept_at (fst r) (snd r)" for c
      using kept_cells_memb [OF _ that] \<open>r \<in> set R1 \<union> set R2\<close>
      by (intro same) (auto simp: rest_kept_def)
  qed
  moreover have "sorted_wrt disjoint_regions ?R'"
    using ok sp by (auto simp: regions_ok_def sorted_wrt_append disjoint_regions_def region_end_def)
  moreover have "hole_list m' hl (hole_set ?R') xs"
    using list sp hole_set_stretch [of R1 a ss1 new ss2 R2] by simp
  ultimately show ?thesis by (auto simp: regions_ok_def)
qed

lemma book_regions_update:
  assumes "book_regions book (R1 @ (a, ss1 @ old @ ss2) # R2)" "span new = span old"
  shows "book_regions (book\<lparr>mem := m\<rparr>) (R1 @ (a, ss1 @ new @ ss2) # R2)"
  using assms by (auto simp: book_regions_def region_end_def)


lemma rest_untouched:
  assumes ok: "regions_ok m hl (R1 @ (a, ss1 @ old @ ss2) # R2)"
    and xs: "set xs \<subseteq> rest_holes R1 a ss1 (span old) ss2 R2"
    and c: "c \<in> rest_kept R1 a ss1 (span old) ss2 R2"
  shows "c \<notin> {a + span ss1..<a + span ss1 + span old} \<union> head_cells hl \<union> link_cells HOLE_LINK xs"
proof -
  have k: "c \<in> kept_cells (R1 @ (a, ss1 @ old @ ss2) # R2)" using c rest_in_whole(2) by blast
  have "c \<notin> {a + span ss1..<a + span ss1 + span old}" using rest_kept_outside [OF ok c] by auto
  moreover have "c \<notin> head_cells hl" using ok k by (rule head_cells_not_kept)
  moreover have "c \<notin> link_cells HOLE_LINK xs"
  proof
    assume "c \<in> link_cells HOLE_LINK xs"
    then obtain x where x: "x \<in> set xs" "c = x \<or> c = x + 1"
      by (auto simp: link_cells_def HOLE_LINK_def)
    with xs rest_in_whole(1) have "x \<in> hole_set (R1 @ (a, ss1 @ old @ ss2) # R2)" by blast
    with hole_cells_not_kept [OF ok this k] x(2) show False by blast
  qed
  ultimately show ?thesis by blast
qed

lemma stretch_head_apart:
  assumes ok: "regions_ok m hl (R1 @ (a, ss1 @ old @ ss2) # R2)"
  shows "0 < a + span ss1" "hl + 2 \<le> a + span ss1 \<or> a + span ss1 + span old \<le> hl"
proof -
  have "region_ok m hl (a, ss1 @ old @ ss2)" using ok by (simp add: regions_ok_def)
  moreover have "0 \<le> span ss1" "0 \<le> span ss2" by (rule span_nonneg)+
  ultimately show "0 < a + span ss1" "hl + 2 \<le> a + span ss1 \<or> a + span ss1 + span old \<le> hl"
    by (auto simp: region_ok_def region_end_def)
qed

text \<open>Splitting the hole list at a hole of the stretch; all other holes are below or above it.\<close>

lemma hole_list_below_above:
  assumes ok: "regions_ok m hl (R1 @ (a, ss1 @ old @ ss2) # R2)"
    and H: "hole_list m hl (rest_holes R1 a ss1 (span old) ss2 R2 \<union> H) xs"
    and x: "H = {x}" "a + span ss1 < x" "x + 3 \<le> a + span ss1 + span old"
  obtains as bs where "xs = as @ x # bs"
    "set as \<union> set bs = rest_holes R1 a ss1 (span old) ss2 R2"
    "\<And>y. y \<in> set as \<Longrightarrow> y + 3 \<le> a + span ss1"
    "\<And>y. y \<in> set bs \<Longrightarrow> a + span ss1 + span old + 1 \<le> y"
proof -
  let ?rest = "rest_holes R1 a ss1 (span old) ss2 R2"
  have s: "sorted_wrt (<) xs" "set xs = insert x ?rest" using H x(1) by (auto simp: hole_list_def)
  then obtain as bs where xs: "xs = as @ x # bs" by (metis insertI1 split_list)
  have lt: "y < x" if "y \<in> set as" for y using s that xs by (auto simp: sorted_wrt_append)
  have gt: "x < y" if "y \<in> set bs" for y using s that xs by (auto simp: sorted_wrt_append)
  have "x \<notin> ?rest" using rest_holes_outside [OF ok, of x] x by auto
  then have rest: "set as \<union> set bs = ?rest" using s(2) xs lt gt by force
  have "y + 3 \<le> a + span ss1" if "y \<in> set as" for y
    using rest_holes_outside [OF ok, of y] lt [OF that] rest that x by auto
  moreover have "a + span ss1 + span old + 1 \<le> y" if "y \<in> set bs" for y
    using rest_holes_outside [OF ok, of y] gt [OF that] rest that x by auto
  ultimately show thesis using that xs rest by blast
qed

text \<open>A hole on the list is a free block that passes the validity check.\<close>

lemma hole_block:
  assumes ok: "regions_ok m hl R" and x: "x \<in> hole_set R"
  obtains R1 a ss1 k ss2 R2 where "R = R1 @ (a, ss1 @ [- k] @ ss2) # R2" "x = a + span ss1 + 1"
    "2 \<le> k" "m (x - 1) = - k" "m (x + k) = - k"
proof -
  obtain a ss where r: "(a, ss) \<in> set R" "x \<in> holes_at a ss" using x by (auto simp: hole_set_def)
  obtain ss1 k ss2 where s: "ss = ss1 @ - k # ss2" "x = a + span ss1 + 1" "HOLE_T_SIZE \<le> k"
    using r(2) by (rule holes_at_split)
  obtain R1 R2 where R: "R = R1 @ (a, ss) # R2" using r(1) by (meson split_list)
  have "blocks_at m a ss" using ok r(1) by (auto simp: regions_ok_def region_ok_def)
  then have "m (x - 1) = - k" "m (x + k) = - k"
    using s by (auto simp: HOLE_T_SIZE_def algebra_simps)
  with R s that show thesis by (auto simp: HOLE_T_SIZE_def)
qed

lemma alloc_search_body_hole:
  assumes ok: "regions_ok m hl R" and x: "x \<in> hole_set R"
  shows "alloc_search_body m n u x = (if n \<le> - m (x - 1) then Inl (Found (x - 1)) else Inr u)"
proof -
  obtain k where k: "2 \<le> k" "m (x - 1) = - k" "m (x + k) = - k"
    using hole_block [OF ok x] by metis
  then show ?thesis
    by (auto simp: alloc_search_body_def block_start_from_hole_def ns_mem_block_validate_def Let_def)
qed


subsection \<open>Inserting a hole descriptor at its place\<close>

text \<open>
  Two ways to put a descriptor between the holes \<open>as\<close> below it and \<open>bs\<close> above it: after the last
  of \<open>as\<close>, as allocation does, and before the first of \<open>bs\<close>, as freeing does.
\<close>

definition new_hole :: "addr \<Rightarrow> addr list \<Rightarrow> addr \<Rightarrow> addr list \<Rightarrow> bool" where
  "new_hole hl as e bs \<longleftrightarrow> 0 < e \<and> apart hl e \<and> (\<forall>y \<in> set as. y + 2 \<le> e) \<and> (\<forall>y \<in> set bs. e + 2 \<le> y)"

definition same_outside :: "addr set \<Rightarrow> memory \<Rightarrow> memory \<Rightarrow> bool" where
  "same_outside S m m' \<longleftrightarrow> (\<forall>c. c \<notin> S \<longrightarrow> m' c = m c)"

lemma same_outside_refl [simp]: "same_outside S m m"
  by (simp add: same_outside_def)

lemma same_outside_trans:
  "same_outside S m m' \<Longrightarrow> same_outside S m' m'' \<Longrightarrow> same_outside S m m''"
  by (simp add: same_outside_def)

lemma same_outside_mono: "same_outside S m m' \<Longrightarrow> S \<subseteq> T \<Longrightarrow> same_outside T m m'"
  by (auto simp: same_outside_def)

lemma same_outside_upd [simp]: "c \<in> S \<Longrightarrow> same_outside S m (m'(c := v)) = same_outside S m m'"
  by (auto simp: same_outside_def)

lemma new_hole_fresh: "new_hole hl as e bs \<Longrightarrow> fresh_entry hl HOLE_LINK (as @ bs) e"
  by (auto simp: new_hole_def fresh_entry_def HOLE_LINK_def apart_def)

lemma new_hole_list:
  assumes "hole_list m hl H (as @ bs)" "new_hole hl as e bs" "ns_list_rep m' hl HOLE_LINK (as @ e # bs)"
  shows "hole_list m' hl (insert e H) (as @ e # bs)"
  using assms by (auto simp: hole_list_def new_hole_def sorted_wrt_append)

lemma insert_after_hole:
  assumes H: "hole_list m hl H (as @ bs)" and n: "new_hole hl as e bs"
    and m': "m' = (if as \<noteq> [] then ns_list_add_after m hl HOLE_LINK (last as) e
                   else ns_list_add_to_start m hl HOLE_LINK e)"
  shows "hole_list m' hl (insert e H) (as @ e # bs)"
    "same_outside ({e, e + 1} \<union> head_cells hl \<union> link_cells HOLE_LINK (as @ bs)) m m'"
proof -
  have rep: "ns_list_rep m hl HOLE_LINK (as @ bs)" using H by (simp add: hole_list_def)
  note fr = new_hole_fresh [OF n]
  have "ns_list_rep m' hl HOLE_LINK (as @ e # bs) \<and>
    same_outside ({e, e + 1} \<union> head_cells hl \<union> link_cells HOLE_LINK (as @ bs)) m m'"
  proof (cases as rule: rev_cases)
    case Nil
    then show ?thesis
      using ns_list_add_to_start_rep [of m hl HOLE_LINK bs e] rep fr m'
        ns_list_add_to_start_frame [of m hl HOLE_LINK bs e]
      by (simp add: same_outside_def HOLE_LINK_def)
  next
    case (snoc cs c)
    then show ?thesis
      using ns_list_add_after_rep [of m hl HOLE_LINK cs c bs e] rep fr m'
        ns_list_add_after_frame [of m hl HOLE_LINK cs c bs e]
      by (simp add: same_outside_def HOLE_LINK_def)
  qed
  then show "hole_list m' hl (insert e H) (as @ e # bs)"
    "same_outside ({e, e + 1} \<union> head_cells hl \<union> link_cells HOLE_LINK (as @ bs)) m m'"
    using new_hole_list [OF H n] by auto
qed

lemma insert_before_hole:
  assumes H: "hole_list m hl H (as @ bs)" and n: "new_hole hl as e bs"
    and m': "m' = (if bs \<noteq> [] then ns_list_add_before m HOLE_LINK (hd bs) e
                   else ns_list_add_to_end m hl HOLE_LINK e)"
  shows "hole_list m' hl (insert e H) (as @ e # bs)"
    "same_outside ({e, e + 1} \<union> head_cells hl \<union> link_cells HOLE_LINK (as @ bs)) m m'"
proof -
  have rep: "ns_list_rep m hl HOLE_LINK (as @ bs)" using H by (simp add: hole_list_def)
  note fr = new_hole_fresh [OF n]
  have "ns_list_rep m' hl HOLE_LINK (as @ e # bs) \<and>
    same_outside ({e, e + 1} \<union> head_cells hl \<union> link_cells HOLE_LINK (as @ bs)) m m'"
  proof (cases bs)
    case Nil
    then show ?thesis
      using ns_list_add_to_end_rep [of m hl HOLE_LINK as e] rep fr m'
        ns_list_add_to_end_frame [of m hl HOLE_LINK as e]
      by (simp add: same_outside_def HOLE_LINK_def)
  next
    case (Cons c cs)
    then show ?thesis
      using ns_list_add_before_rep [of m hl HOLE_LINK as c cs e] rep fr m'
        ns_list_add_before_frame [of m hl HOLE_LINK as c cs e]
      by (simp add: same_outside_def HOLE_LINK_def)
  qed
  then show "hole_list m' hl (insert e H) (as @ e # bs)"
    "same_outside ({e, e + 1} \<union> head_cells hl \<union> link_cells HOLE_LINK (as @ bs)) m m'"
    using new_hole_list [OF H n] by auto
qed


lemma regions_coalesced: "regions_ok m hl (R1 @ (a, ss) # R2) \<Longrightarrow> coalesced ss"
  by (simp add: regions_ok_def region_ok_def)

lemma hole_list_frame:
  assumes "hole_list m hl H xs"
    and "\<And>c. c \<in> head_cells hl \<union> link_cells HOLE_LINK xs \<Longrightarrow> m' c = m c"
  shows "hole_list m' hl H xs"
  using assms ns_list_rep_frame [of m hl HOLE_LINK xs m'] by (auto simp: hole_list_def)

lemma hole_list_upd:
  "hole_list m hl H xs \<Longrightarrow> c \<notin> head_cells hl \<union> link_cells HOLE_LINK xs \<Longrightarrow>
     hole_list (m(c := v)) hl H xs"
  by (rule hole_list_frame [of m]) auto

subsection \<open>Allocated blocks and the statistics\<close>

lemma live_at_disjoint:
  "(p, n) \<in> live_at a ss \<Longrightarrow> (q, k) \<in> live_at a ss \<Longrightarrow> (p, n) = (q, k) \<or> p + n + 2 \<le> q \<or> q + k + 2 \<le> p"
proof (induction ss arbitrary: a)
  case (Cons s ss)
  show ?case
    using Cons.prems Cons.IH [of "a + (\<bar>s\<bar> + 2)"] live_at_bounds [of p n "a + (\<bar>s\<bar> + 2)" ss]
      live_at_bounds [of q k "a + (\<bar>s\<bar> + 2)" ss]
    by (auto split: if_splits)
qed simp

lemma live_blocks_disjoint:
  assumes ok: "regions_ok m hl R" and p: "(p, n) \<in> live_blocks R" and q: "(q, k) \<in> live_blocks R"
  shows "(p, n) = (q, k) \<or> p + n + 2 \<le> q \<or> q + k + 2 \<le> p"
proof -
  obtain r where r: "r \<in> set R" "(p, n) \<in> live_at (fst r) (snd r)"
    using p by (auto simp: live_blocks_def)
  obtain r' where r': "r' \<in> set R" "(q, k) \<in> live_at (fst r') (snd r')"
    using q by (auto simp: live_blocks_def)
  show ?thesis
  proof (cases "r = r'")
    case True
    with r r' live_at_disjoint show ?thesis by blast
  next
    case False
    with regions_apart [OF ok r(1) r'(1)] live_at_bounds [OF r(2)] live_at_bounds [OF r'(2)]
    show ?thesis by (auto simp: region_end_def)
  qed
qed

definition live_sizes :: "region list \<Rightarrow> int list" where
  "live_sizes R = filter (\<lambda>s. 0 < s) (concat (map snd R))"

lemma live_sizes_simps [simp]:
  "live_sizes [] = []" "live_sizes (r # R) = filter (\<lambda>s. 0 < s) (snd r) @ live_sizes R"
  "live_sizes (R @ R') = live_sizes R @ live_sizes R'"
  by (simp_all add: live_sizes_def)

text \<open>
  The counters agree with the layout: the number of allocated blocks, and the bytes they take with
  their two delimiting words, both in the 32 bits of the counters.
\<close>

definition live_bytes :: "region list \<Rightarrow> int" where
  "live_bytes R = 4 * sum_list (map (\<lambda>s. s + 2) (live_sizes R))"

definition stats_ok :: "ns_mem_book \<Rightarrow> region list \<Rightarrow> bool" where
  "stats_ok book R \<longleftrightarrow>
     heap_sector_alloc_cnt (mem_stat_info book) = of_nat (length (live_sizes R)) \<and>
     heap_sector_allocated_bytes (mem_stat_info book) = of_int (live_bytes R)"

text \<open>The extent of the regions, which no allocation or release changes.\<close>

definition extents :: "region list \<Rightarrow> (addr \<times> addr) list" where
  "extents R = map (\<lambda>r. (fst r, region_end r)) R"

text \<open>The cells the heap may write: the regions and the head of the hole list.\<close>

definition managed :: "addr \<Rightarrow> region list \<Rightarrow> addr set" where
  "managed hl R = head_cells hl \<union> (\<Union>(a, e) \<in> set (extents R). {a..<e})"

lemma region_managed: "r \<in> set R \<Longrightarrow> {fst r..<region_end r} \<subseteq> managed hl R"
  by (fastforce simp: managed_def extents_def)

lemma hole_managed: "x \<in> hole_set R \<Longrightarrow> {x, x + 1} \<subseteq> managed hl R"
proof -
  assume "x \<in> hole_set R"
  then obtain r where "r \<in> set R" "fst r + 1 \<le> x" "x + 3 \<le> region_end r" by (rule hole_set_bounds)
  then show "{x, x + 1} \<subseteq> managed hl R" using region_managed [of r R hl] by auto
qed

lemma stretch_managed:
  assumes xs: "set xs \<subseteq> rest_holes R1 a ss1 (span old) ss2 R2" and R: "R = R1 @ (a, ss1 @ old @ ss2) # R2"
  shows "{a + span ss1..<a + span ss1 + span old} \<union> head_cells hl \<union> link_cells HOLE_LINK xs \<subseteq> managed hl R"
proof -
  have nn: "0 \<le> span ss1" "0 \<le> span ss2" by (rule span_nonneg)+
  have "{fst (a, ss1 @ old @ ss2)..<region_end (a, ss1 @ old @ ss2)} \<subseteq> managed hl R"
    by (rule region_managed) (simp add: R)
  then have "{a + span ss1..<a + span ss1 + span old} \<subseteq> managed hl R"
    using nn by (auto simp: region_end_def)
  moreover have "{x, x + 1} \<subseteq> managed hl R" if "x \<in> set xs" for x
    by (rule hole_managed) (use that xs rest_in_whole(1) R in blast)
  then have "link_cells HOLE_LINK xs \<subseteq> managed hl R" by (auto simp: link_cells_def HOLE_LINK_def)
  moreover have "head_cells hl \<subseteq> managed hl R" by (simp add: managed_def)
  ultimately show ?thesis by blast
qed

end
