(* ===== verification/DynMemAlloc.thy ===== *)
theory DynMemAlloc
  imports DynMemLayout
begin

text \<open>
  Allocation keeps the heap invariant: the search over the hole list ends and finds the first hole
  that is big enough in its direction, and carving the block out of it rewrites that hole only.
\<close>

section \<open>The search\<close>

definition search_order :: "int \<Rightarrow> addr list \<Rightarrow> addr list" where
  "search_order direction xs = (if direction > 0 then xs else rev xs)"

lemma walk_search:
  assumes ok: "regions_ok m hl R" and xs: "set xs \<subseteq> hole_set R"
  shows "walk (alloc_search_body m n) () xs =
    (case find (\<lambda>x. n \<le> - m (x - 1)) xs of None \<Rightarrow> Inr () | Some x \<Rightarrow> Inl (Found (x - 1)))"
  using xs by (induction xs) (auto simp: alloc_search_body_hole [OF ok] split: if_splits)

lemma alloc_search_result:
  assumes ok: "regions_ok m hl R" and xs: "hole_list m hl (hole_set R) xs"
  shows "alloc_search m hl direction n (alloc_search_first m hl direction) () =
    Some (case find (\<lambda>x. n \<le> - m (x - 1)) (search_order direction xs) of
            None \<Rightarrow> Inr () | Some x \<Rightarrow> Inl (Found (x - 1)))"
proof -
  have rep: "ns_list_rep m hl HOLE_LINK xs" "set xs = hole_set R"
    using xs by (auto simp: hole_list_def)
  have sub: "set (search_order direction xs) \<subseteq> hole_set R" using rep(2) by (simp add: search_order_def)
  have "alloc_search m hl direction n (alloc_search_first m hl direction) () =
    Some (walk (alloc_search_body m n) () (search_order direction xs))"
  proof (cases "direction > 0")
    case True
    have "alloc_search m hl direction n p acc =
      (if p = NULL then Some (Inr acc)
       else case alloc_search_body m n acc p of Inl r \<Rightarrow> Some (Inl r)
            | Inr acc' \<Rightarrow> alloc_search m hl direction n (ns_list_get_next m HOLE_LINK p) acc')" for p acc
      using True by (subst alloc_search.simps) (simp add: alloc_search_next_def split: sum.split)
    from forwards.foreach [OF this rep(1)] show ?thesis
      using True by (simp add: alloc_search_first_def search_order_def)
  next
    case False
    have rev: "ns_list_rep m hl HOLE_LINK (rev (rev xs))" using rep(1) by simp
    have "alloc_search m hl direction n p acc =
      (if p = NULL then Some (Inr acc)
       else case alloc_search_body m n acc p of Inl r \<Rightarrow> Some (Inl r)
            | Inr acc' \<Rightarrow> alloc_search m hl direction n (ns_list_get_previous m hl HOLE_LINK p) acc')"
      for p acc
      using False by (subst alloc_search.simps) (simp add: alloc_search_next_def split: sum.split)
    from backwards.foreach [OF this rev] show ?thesis
      using False by (simp add: alloc_search_first_def search_order_def)
  qed
  then show ?thesis by (simp add: walk_search [OF ok sub])
qed


section \<open>Carving the block\<close>

definition carve :: "int \<Rightarrow> int \<Rightarrow> int \<Rightarrow> int list" where
  "carve direction k n =
     (if n + 2 + HOLE_T_SIZE \<le> k
      then if direction > 0 then [n, - (k - n - 2)] else [- (k - n - 2), n] else [k])"

text \<open>Start and size of the block that \<open>carve\<close> allocates in a hole that starts at \<open>b\<close>.\<close>

definition carve_start :: "int \<Rightarrow> addr \<Rightarrow> int \<Rightarrow> int \<Rightarrow> addr" where
  "carve_start direction b k n =
     (if n + 2 + HOLE_T_SIZE \<le> k \<and> \<not> direction > 0 then b + (k - n) else b)"

definition carve_size :: "int \<Rightarrow> int \<Rightarrow> int" where
  "carve_size k n = (if n + 2 + HOLE_T_SIZE \<le> k then n else k)"

lemma span_carve: "1 \<le> n \<Longrightarrow> n \<le> k \<Longrightarrow> span (carve direction k n) = span [- k]"
  by (auto simp: carve_def HOLE_T_SIZE_def)

lemma coalesced_carve:
  assumes "coalesced (ss1 @ [- k] @ ss2)" "1 \<le> n" "n \<le> k"
  shows "coalesced (ss1 @ carve direction k n @ ss2)"
  using assms by (auto simp: carve_def HOLE_T_SIZE_def coalesced_append coalesced_Cons)

lemma stretch_cells_not_linked:
  assumes "\<And>y. y \<in> set xs \<Longrightarrow> y + 3 \<le> b \<or> b + w + 1 \<le> y" "b \<le> c" "c < b + w"
  shows "c \<notin> link_cells HOLE_LINK xs"
  using assms by (fastforce simp: link_cells_def HOLE_LINK_def)

text \<open>Removing a hole from the list when the whole of it is allocated.\<close>

lemma alloc_take_remove:
  assumes ok: "regions_ok m hl (R1 @ (a, ss1 @ [- k] @ ss2) # R2)"
    and H: "hole_list m hl (hole_set (R1 @ (a, ss1 @ [- k] @ ss2) # R2)) xs" and k: "2 \<le> k"
    and b: "b = a + span ss1"
  shows "\<exists>as bs. xs = as @ (b + 1) # bs \<and>
     set as \<union> set bs = rest_holes R1 a ss1 (k + 2) ss2 R2 \<and>
     (\<forall>y \<in> set as. y + 3 \<le> b) \<and> (\<forall>y \<in> set bs. b + (k + 2) + 1 \<le> y) \<and>
     hole_list (ns_list_remove m hl HOLE_LINK (b + 1)) hl (rest_holes R1 a ss1 (k + 2) ss2 R2) (as @ bs) \<and>
     same_outside ({b + 1, b + 2} \<union> head_cells hl \<union> link_cells HOLE_LINK (as @ bs)) m
       (ns_list_remove m hl HOLE_LINK (b + 1))"
proof -
  have sp: "span [- k] = k + 2" "holes_at (a + span ss1) [- k] = {b + 1}"
    using k b by (auto simp: HOLE_T_SIZE_def)
  have H': "hole_list m hl (rest_holes R1 a ss1 (span [- k]) ss2 R2 \<union> {b + 1}) xs"
    using H sp(2) by (simp only: hole_set_stretch)
  obtain as bs where s: "xs = as @ (b + 1) # bs"
    "set as \<union> set bs = rest_holes R1 a ss1 (span [- k]) ss2 R2"
    "\<And>y. y \<in> set as \<Longrightarrow> y + 3 \<le> a + span ss1"
    "\<And>y. y \<in> set bs \<Longrightarrow> a + span ss1 + span [- k] + 1 \<le> y"
    using hole_list_below_above [OF ok H', of "b + 1"] k sp b by auto
  have rep: "ns_list_rep m hl HOLE_LINK (as @ (b + 1) # bs)" using H s(1) by (simp add: hole_list_def)
  have "hole_list (ns_list_remove m hl HOLE_LINK (b + 1)) hl (rest_holes R1 a ss1 (k + 2) ss2 R2) (as @ bs)"
    using ns_list_remove_rep [OF rep] H s sp by (auto simp: hole_list_def sorted_wrt_append)
  moreover have "ns_list_remove m hl HOLE_LINK (b + 1) c = m c"
    if "c \<notin> {b + 1, b + 2} \<union> head_cells hl \<union> link_cells HOLE_LINK (as @ bs)" for c
    using that by (intro ns_list_remove_frame [OF rep]) (auto simp: HOLE_LINK_def)
  ultimately show ?thesis using s sp b
    by (intro exI [of _ as] exI [of _ bs]) (auto simp: same_outside_def)
qed

text \<open>
  The heap after carving: the hole \<open>[- k]\<close> is replaced by the carved blocks, and no cell of another
  block is written.
\<close>

lemma alloc_take_whole:
  assumes ok: "regions_ok m hl (R1 @ (a, ss1 @ [- k] @ ss2) # R2)"
    and H: "hole_list m hl (hole_set (R1 @ (a, ss1 @ [- k] @ ss2) # R2)) xs"
    and k: "2 \<le> k" "m b = - k" and n: "1 \<le> n" "n \<le> k" and b: "b = a + span ss1"
    and whole: "\<not> n + 2 + HOLE_T_SIZE \<le> k"
    and take: "alloc_take m hl direction b n = (m', p, n')"
  shows "p = b" "n' = k" "regions_ok m' hl (R1 @ (a, ss1 @ [k] @ ss2) # R2)"
    "\<And>c. c \<in> rest_kept R1 a ss1 (k + 2) ss2 R2 \<Longrightarrow> m' c = m c"
    "same_outside (managed hl (R1 @ (a, ss1 @ [- k] @ ss2) # R2)) m m'"
proof -
  let ?m1 = "ns_list_remove m hl HOLE_LINK (b + 1)"
  have t: "m' = ?m1(b := k, b + (1 + k) := k) \<and> p = b \<and> n' = k"
    using take whole k(2)
    by (auto simp: alloc_take_def Let_def HOLE_T_SIZE_def hole_from_block_start_def)
  then show "p = b" "n' = k" by auto
  obtain as bs where s: "set as \<union> set bs = rest_holes R1 a ss1 (k + 2) ss2 R2"
    "\<forall>y \<in> set as. y + 3 \<le> b" "\<forall>y \<in> set bs. b + (k + 2) + 1 \<le> y"
    "hole_list ?m1 hl (rest_holes R1 a ss1 (k + 2) ss2 R2) (as @ bs)"
    "same_outside ({b + 1, b + 2} \<union> head_cells hl \<union> link_cells HOLE_LINK (as @ bs)) m ?m1"
    using alloc_take_remove [OF ok H k(1) b] by blast
  have hd: "hl + 2 \<le> b \<or> b + (k + 2) \<le> hl" using stretch_head_apart(2) [OF ok] b k by simp
  have nl: "c \<notin> head_cells hl \<union> link_cells HOLE_LINK (as @ bs)" if "b \<le> c" "c < b + (k + 2)" for c
    using stretch_cells_not_linked [of "as @ bs" b "k + 2" c] s(2,3) that hd
    by (auto simp: head_cells_def)
  have list: "hole_list m' hl (rest_holes R1 a ss1 (k + 2) ss2 R2) (as @ bs)"
    unfolding t [THEN conjunct1] by (intro hole_list_upd nl s(4)) (use k in simp_all)
  have "same_outside ({b..<b + (k + 2)} \<union> head_cells hl \<union> link_cells HOLE_LINK (as @ bs)) m ?m1"
    by (rule same_outside_mono [OF s(5)]) (use k in auto)
  then have out: "same_outside ({b..<b + (k + 2)} \<union> head_cells hl \<union> link_cells HOLE_LINK (as @ bs)) m m'"
    using t k(1) by simp
  show "same_outside (managed hl (R1 @ (a, ss1 @ [- k] @ ss2) # R2)) m m'"
    by (rule same_outside_mono [OF out], rule order_trans [OF _ stretch_managed [OF _ refl, of "as @ bs"]])
      (use s(1) b k(1) in auto)
  from out show same: "m' c = m c" if "c \<in> rest_kept R1 a ss1 (k + 2) ss2 R2" for c
    using rest_untouched [OF ok, of "as @ bs" c] that s(1) b k(1) by (auto simp: same_outside_def)
  have coal: "coalesced (ss1 @ [k] @ ss2)"
    using coalesced_carve [OF regions_coalesced [OF ok], of n 1] n whole by (simp add: carve_def)
  have blk: "blocks_at m' b [k]" using t k(1) by simp
  have "holes_at b [k] = {}" using k by (simp add: HOLE_T_SIZE_def)
  then have "hole_list m' hl (rest_holes R1 a ss1 (k + 2) ss2 R2 \<union> holes_at b [k]) (as @ bs)"
    using list by simp
  then show "regions_ok m' hl (R1 @ (a, ss1 @ [k] @ ss2) # R2)"
    using k by (intro regions_ok_update [OF ok _ _ _ b blk same _ coal]) simp_all
qed

lemma alloc_take_up:
  assumes ok: "regions_ok m hl (R1 @ (a, ss1 @ [- k] @ ss2) # R2)"
    and H: "hole_list m hl (hole_set (R1 @ (a, ss1 @ [- k] @ ss2) # R2)) xs"
    and k: "2 \<le> k" "m b = - k" and n: "1 \<le> n" and b: "b = a + span ss1"
    and split: "n + 2 + HOLE_T_SIZE \<le> k" and up: "direction > 0"
    and take: "alloc_take m hl direction b n = (m', p, n')"
  shows "p = b" "n' = n" "regions_ok m' hl (R1 @ (a, ss1 @ [n, - (k - n - 2)] @ ss2) # R2)"
    "\<And>c. c \<in> rest_kept R1 a ss1 (k + 2) ss2 R2 \<Longrightarrow> m' c = m c"
    "same_outside (managed hl (R1 @ (a, ss1 @ [- k] @ ss2) # R2)) m m'"
proof -
  let ?rest = "rest_holes R1 a ss1 (k + 2) ss2 R2"
  let ?m1 = "ns_list_remove m hl HOLE_LINK (b + 1)" and ?e = "b + n + 3" and ?h = "k - n - 2"
  obtain as bs where s: "xs = as @ (b + 1) # bs" "set as \<union> set bs = ?rest"
    "\<forall>y \<in> set as. y + 3 \<le> b" "\<forall>y \<in> set bs. b + (k + 2) + 1 \<le> y"
    "hole_list ?m1 hl ?rest (as @ bs)"
    "same_outside ({b + 1, b + 2} \<union> head_cells hl \<union> link_cells HOLE_LINK (as @ bs)) m ?m1"
    using alloc_take_remove [OF ok H k(1) b] by blast
  define m2 where "m2 = (if as \<noteq> [] then ns_list_add_after ?m1 hl HOLE_LINK (last as) ?e
    else ns_list_add_to_start ?m1 hl HOLE_LINK ?e)"
  have rep: "ns_list_rep m hl HOLE_LINK (as @ (b + 1) # bs)" using H s(1) by (simp add: hole_list_def)
  have prev: "ns_list_get_previous m hl HOLE_LINK (b + 1) = (if as = [] then NULL else last as)"
    by (rule ns_list_get_previous_rep [OF rep])
  have "as \<noteq> [] \<Longrightarrow> last as \<noteq> NULL" using ns_list_rep_not_null [OF rep] last_in_set by fastforce
  then have t: "m' = m2(b + n + 2 := - ?h, b + k + 1 := - ?h, b := n, b + n + 1 := n) \<and> p = b \<and> n' = n"
    using take split up k(2) prev
    by (auto simp: alloc_take_def Let_def HOLE_T_SIZE_def hole_from_block_start_def m2_def algebra_simps)
  then show "p = b" "n' = n" by auto
  have hd: "hl + 2 \<le> b \<or> b + (k + 2) \<le> hl" "0 < b"
    using stretch_head_apart [OF ok] b k by simp_all
  have nh: "new_hole hl as ?e bs"
    using s(3,4) hd n split unfolding new_hole_def HOLE_T_SIZE_def apart_def by force
  note ins = insert_after_hole [OF s(5) nh m2_def]
  have nl: "c \<notin> head_cells hl \<union> link_cells HOLE_LINK (as @ ?e # bs)"
    if "b \<le> c" "c < b + (k + 2)" "c \<noteq> ?e" "c \<noteq> ?e + 1" for c
    using stretch_cells_not_linked [of "as @ bs" b "k + 2" c] s(3,4) that hd(1)
    by (auto simp: head_cells_def HOLE_LINK_def)
  have list: "hole_list m' hl (insert ?e ?rest) (as @ ?e # bs)"
    unfolding t [THEN conjunct1]
    by (intro hole_list_upd nl ins(1)) (use k n split in \<open>simp_all add: HOLE_T_SIZE_def\<close>)
  let ?S = "{b..<b + (k + 2)} \<union> head_cells hl \<union> link_cells HOLE_LINK (as @ bs)"
  have "same_outside ?S m ?m1" by (rule same_outside_mono [OF s(6)]) (use k in auto)
  moreover have "same_outside ?S ?m1 m2"
    by (rule same_outside_mono [OF ins(2)]) (use k n split in \<open>auto simp: HOLE_T_SIZE_def\<close>)
  ultimately have "same_outside ?S m m2" by (rule same_outside_trans)
  then have out: "same_outside ?S m m'" using t k(1) n split by (simp add: HOLE_T_SIZE_def)
  show "same_outside (managed hl (R1 @ (a, ss1 @ [- k] @ ss2) # R2)) m m'"
    by (rule same_outside_mono [OF out], rule order_trans [OF _ stretch_managed [OF _ refl, of "as @ bs"]])
      (use s(2) b k(1) in auto)
  from out show same: "m' c = m c" if "c \<in> rest_kept R1 a ss1 (k + 2) ss2 R2" for c
    using rest_untouched [OF ok, of "as @ bs" c] that s(2) b k(1) by (auto simp: same_outside_def)
  have coal: "coalesced (ss1 @ [n, - ?h] @ ss2)"
    using coalesced_carve [OF regions_coalesced [OF ok], of n direction] n split up
    by (simp add: carve_def HOLE_T_SIZE_def)
  have blk: "blocks_at m' b [n, - ?h]" using t n split by (simp add: HOLE_T_SIZE_def)
  have "holes_at b [n, - ?h] = {?e}" using n split by (auto simp: HOLE_T_SIZE_def)
  then have "hole_list m' hl (?rest \<union> holes_at b [n, - ?h]) (as @ ?e # bs)" using list by simp
  then show "regions_ok m' hl (R1 @ (a, ss1 @ [n, - ?h] @ ss2) # R2)"
    using k n split
    by (intro regions_ok_update [OF ok _ _ _ b blk same _ coal]) (simp_all add: HOLE_T_SIZE_def)
qed

lemma alloc_take_down:
  assumes ok: "regions_ok m hl (R1 @ (a, ss1 @ [- k] @ ss2) # R2)"
    and H: "hole_list m hl (hole_set (R1 @ (a, ss1 @ [- k] @ ss2) # R2)) xs"
    and k: "2 \<le> k" "m b = - k" and n: "1 \<le> n" and b: "b = a + span ss1"
    and split: "n + 2 + HOLE_T_SIZE \<le> k" and down: "\<not> direction > 0"
    and take: "alloc_take m hl direction b n = (m', p, n')"
  shows "p = b + (k - n)" "n' = n" "regions_ok m' hl (R1 @ (a, ss1 @ [- (k - n - 2), n] @ ss2) # R2)"
    "\<And>c. c \<in> rest_kept R1 a ss1 (k + 2) ss2 R2 \<Longrightarrow> m' c = m c"
    "same_outside (managed hl (R1 @ (a, ss1 @ [- k] @ ss2) # R2)) m m'"
proof -
  let ?rest = "rest_holes R1 a ss1 (k + 2) ss2 R2" and ?h = "k - n - 2"
  have t: "m' = m(b := - ?h, b + (k - n) - 1 := - ?h, b + (k - n) := n, b + k + 1 := n) \<and>
      p = b + (k - n) \<and> n' = n"
    using take split down k(2)
    by (auto simp: alloc_take_def Let_def HOLE_T_SIZE_def hole_from_block_start_def algebra_simps)
  then show "p = b + (k - n)" "n' = n" by auto
  obtain as bs where s: "xs = as @ (b + 1) # bs" "set as \<union> set bs = ?rest"
    "\<forall>y \<in> set as. y + 3 \<le> b" "\<forall>y \<in> set bs. b + (k + 2) + 1 \<le> y"
    using alloc_take_remove [OF ok H k(1) b] by blast
  have xs: "set xs = insert (b + 1) ?rest" using s(1,2) by auto
  have hd: "hl + 2 \<le> b \<or> b + (k + 2) \<le> hl" using stretch_head_apart(2) [OF ok] b k by simp
  have nl: "c \<notin> head_cells hl \<union> link_cells HOLE_LINK xs"
    if "b \<le> c" "c < b + (k + 2)" "c \<noteq> b + 1" "c \<noteq> b + 2" for c
    using stretch_cells_not_linked [of "as @ bs" b "k + 2" c] s that hd
    by (auto simp: head_cells_def HOLE_LINK_def)
  have "hole_list m hl (insert (b + 1) ?rest) xs" using H xs by (simp add: hole_list_def)
  then have list: "hole_list m' hl (insert (b + 1) ?rest) xs"
    unfolding t [THEN conjunct1]
    by (intro hole_list_upd nl) (use k n split in \<open>simp_all add: HOLE_T_SIZE_def\<close>)
  have out: "same_outside ({b..<b + (k + 2)} \<union> head_cells hl \<union> link_cells HOLE_LINK (as @ bs)) m m'"
    using t k(1) n split by (simp add: HOLE_T_SIZE_def)
  show "same_outside (managed hl (R1 @ (a, ss1 @ [- k] @ ss2) # R2)) m m'"
    by (rule same_outside_mono [OF out], rule order_trans [OF _ stretch_managed [OF _ refl, of "as @ bs"]])
      (use s(2) b k(1) in auto)
  from out show same: "m' c = m c" if "c \<in> rest_kept R1 a ss1 (k + 2) ss2 R2" for c
    using rest_untouched [OF ok, of "as @ bs" c] that s(2) b k(1) by (auto simp: same_outside_def)
  have coal: "coalesced (ss1 @ [- ?h, n] @ ss2)"
    using coalesced_carve [OF regions_coalesced [OF ok], of n direction] n split down
    by (simp add: carve_def HOLE_T_SIZE_def)
  have blk: "blocks_at m' b [- ?h, n]" using t n split by (simp add: HOLE_T_SIZE_def)
  have "holes_at b [- ?h, n] = {b + 1}" using n split by (auto simp: HOLE_T_SIZE_def)
  then have "hole_list m' hl (?rest \<union> holes_at b [- ?h, n]) (xs)" using list by simp
  then show "regions_ok m' hl (R1 @ (a, ss1 @ [- ?h, n] @ ss2) # R2)"
    using k n split
    by (intro regions_ok_update [OF ok _ _ _ b blk same _ coal]) (simp_all add: HOLE_T_SIZE_def)
qed

lemma alloc_take_ok:
  assumes ok: "regions_ok m hl (R1 @ (a, ss1 @ [- k] @ ss2) # R2)"
    and k: "2 \<le> k" and n: "1 \<le> n" "n \<le> k" and b: "b = a + span ss1"
    and take: "alloc_take m hl direction b n = (m', p, n')"
  shows "p = carve_start direction b k n" "n' = carve_size k n"
    "regions_ok m' hl (R1 @ (a, ss1 @ carve direction k n @ ss2) # R2)"
    "\<And>c. c \<in> rest_kept R1 a ss1 (k + 2) ss2 R2 \<Longrightarrow> m' c = m c"
    "same_outside (managed hl (R1 @ (a, ss1 @ [- k] @ ss2) # R2)) m m'"
proof -
  obtain xs where H: "hole_list m hl (hole_set (R1 @ (a, ss1 @ [- k] @ ss2) # R2)) xs"
    using ok by (auto simp: regions_ok_def)
  have mb: "m b = - k" using ok b by (simp add: regions_ok_def region_ok_def)
  note whole = alloc_take_whole [OF ok H k mb n b _ take]
  note up = alloc_take_up [OF ok H k mb n(1) b _ _ take]
  note down = alloc_take_down [OF ok H k mb n(1) b _ _ take]
  show "p = carve_start direction b k n" "n' = carve_size k n"
    "regions_ok m' hl (R1 @ (a, ss1 @ carve direction k n @ ss2) # R2)"
    "\<And>c. c \<in> rest_kept R1 a ss1 (k + 2) ss2 R2 \<Longrightarrow> m' c = m c"
    "same_outside (managed hl (R1 @ (a, ss1 @ [- k] @ ss2) # R2)) m m'"
    using whole up down by (auto simp: carve_start_def carve_size_def carve_def)
qed


section \<open>The allocation functions\<close>

text \<open>The hole an allocation takes: the lowest, or for direction -1 the highest, that is big enough.\<close>

definition fits :: "ns_mem_book \<Rightarrow> region list \<Rightarrow> int \<Rightarrow> addr \<Rightarrow> bool" where
  "fits book R n x \<longleftrightarrow> x \<in> hole_set R \<and> n \<le> - mem book (x - 1)"

definition taken_hole :: "ns_mem_book \<Rightarrow> region list \<Rightarrow> int \<Rightarrow> int \<Rightarrow> addr \<Rightarrow> bool" where
  "taken_hole book R direction n x \<longleftrightarrow> fits book R n x \<and>
     (\<forall>y. fits book R n y \<longrightarrow> (if direction > 0 then x \<le> y else y \<le> x))"

lemma find_sorted_first:
  assumes "sorted_wrt (<) xs" "find P xs = Some (x :: int)"
  shows "x \<in> set xs \<and> P x \<and> (\<forall>y \<in> set xs. P y \<longrightarrow> x \<le> y)"
  using assms by (induction xs) (auto split: if_splits)

lemma find_sorted_last:
  assumes "sorted_wrt (>) xs" "find P xs = Some (x :: int)"
  shows "x \<in> set xs \<and> P x \<and> (\<forall>y \<in> set xs. P y \<longrightarrow> y \<le> x)"
  using assms by (induction xs) (auto split: if_splits)

lemma search_taken_hole:
  assumes ok: "regions_ok (mem book) hl R" and xs: "hole_list (mem book) hl (hole_set R) xs"
    and f: "find (\<lambda>x. n \<le> - mem book (x - 1)) (search_order direction xs) = Some x"
  shows "taken_hole book R direction n x"
proof -
  have s: "sorted_wrt (<) xs" "set xs = hole_set R" using xs by (auto simp: hole_list_def)
  then have "sorted_wrt (>) (rev xs)" by (simp add: sorted_wrt_rev)
  with s f find_sorted_first [of xs _ x] find_sorted_last [of "rev xs" _ x] show ?thesis
    by (auto simp: taken_hole_def fits_def search_order_def split: if_splits)
qed

lemma search_no_hole:
  assumes "hole_list (mem book) hl (hole_set R) xs"
    and "find (\<lambda>x. n \<le> - mem book (x - 1)) (search_order direction xs) = None"
  shows "\<not> fits book R n x"
  using assms by (auto simp: hole_list_def fits_def search_order_def find_None_iff split: if_splits)

definition requested_words :: "u32 \<Rightarrow> int" where
  "requested_words req = uint ((req + WORD_SIZE - 1) div WORD_SIZE)"

definition valid_request :: "ns_mem_book \<Rightarrow> u32 \<Rightarrow> bool" where
  "valid_request book req \<longleftrightarrow> 1 \<le> req \<and> req \<le> heap_size book - 2 * WORD_SIZE"

text \<open>The guard of temporary allocations, checked before anything else.\<close>

definition over_limit :: "ns_mem_book \<Rightarrow> int \<Rightarrow> bool" where
  "over_limit book direction \<longleftrightarrow> direction = 1 \<and>
     heap_sector_allocated_bytes (mem_stat_info book) > temporary_alloc_heap_limit book"

definition count_failure :: "ns_mem_book \<Rightarrow> ns_mem_book" where
  "count_failure book = book\<lparr>mem_stat_info := dev_stat_update (mem_stat_info book) DEV_HEAP_ALLOC_FAIL 0\<rparr>"

definition count_alloc :: "ns_mem_book \<Rightarrow> int \<Rightarrow> ns_mem_book" where
  "count_alloc book n = book\<lparr>mem_stat_info := dev_stat_update (mem_stat_info book) DEV_HEAP_ALLOC_OK
     (word_of_int (n + 2) * WORD_SIZE)\<rparr>"

definition report_size :: "ns_mem_book \<Rightarrow> u32 \<Rightarrow> ns_mem_book" where
  "report_size book req = (if valid_request book req then book
     else heap_failure book NS_DYN_MEM_ALLOCATE_SIZE_NOT_VALID)"

lemma heap_failure_simps [simp]:
  "mem (heap_failure b r) = mem b" "holes_list (heap_failure b r) = holes_list b"
  "heap_main (heap_failure b r) = heap_main b" "heap_main_end (heap_failure b r) = heap_main_end b"
  "mem_stat_info (heap_failure b r) = mem_stat_info b" "heap_size (heap_failure b r) = heap_size b"
  by (simp_all add: heap_failure_def)

lemma book_regions_cong:
  "heap_main b' = heap_main b \<Longrightarrow> heap_main_end b' = heap_main_end b \<Longrightarrow> book_regions b' R = book_regions b R"
  by (simp add: book_regions_def)

lemma heap_inv_main: "heap_inv book R \<Longrightarrow> heap_main book ! 0 \<noteq> NULL"
  by (cases R) (auto simp: heap_inv_def book_regions_def regions_ok_def region_ok_def)

lemma convert_allocation_size_inv:
  assumes "heap_inv book R"
  shows "convert_allocation_size book req = (requested_words req, report_size book req)"
  using heap_inv_main [OF assms]
  by (auto simp: convert_allocation_size_def requested_words_def report_size_def valid_request_def
      not_less linorder_not_le)

lemma requested_words_nonneg: "0 \<le> requested_words req"
  by (simp add: requested_words_def)

lemma internal_alloc_none:
  assumes inv: "heap_inv book R" and lim: "\<not> over_limit book direction"
    and no: "requested_words req = 0 \<or> (\<forall>x. \<not> fits book R (requested_words req) x)"
  shows "internal_alloc_book book req direction = Some (NULL, count_failure (report_size book req))"
proof (cases "requested_words req = 0")
  case True
  then show ?thesis
    using lim convert_allocation_size_inv [OF inv, of req]
    by (auto simp: internal_alloc_book_def over_limit_def alloc_done_def count_failure_def)
next
  case False
  have ok: "regions_ok (mem book) (holes_list book) R" using inv by (simp add: heap_inv_def)
  then obtain xs where xs: "hole_list (mem book) (holes_list book) (hole_set R) xs"
    by (auto simp: regions_ok_def)
  have "find (\<lambda>x. requested_words req \<le> - mem book (x - 1)) (search_order direction xs) = None"
    using search_taken_hole [OF ok xs, of "requested_words req" direction] no False
    by (cases "find (\<lambda>x. requested_words req \<le> - mem book (x - 1)) (search_order direction xs)")
       (auto simp: taken_hole_def)
  then show ?thesis
    using lim False convert_allocation_size_inv [OF inv, of req]
      alloc_search_result [OF ok xs, of direction "requested_words req"]
    by (auto simp: internal_alloc_book_def over_limit_def alloc_done_def count_failure_def
        report_size_def)
qed


lemma taken_hole_unique:
  "taken_hole book R direction n x \<Longrightarrow> taken_hole book R direction n y \<Longrightarrow> x = y"
  by (force simp: taken_hole_def split: if_splits)

lemma report_size_simps [simp]:
  "mem (report_size b r) = mem b" "holes_list (report_size b r) = holes_list b"
  "heap_main (report_size b r) = heap_main b" "heap_main_end (report_size b r) = heap_main_end b"
  "mem_stat_info (report_size b r) = mem_stat_info b" "heap_size (report_size b r) = heap_size b"
  by (simp_all add: report_size_def)

lemma live_at_carve:
  "1 \<le> n \<Longrightarrow> n \<le> k \<Longrightarrow> live_at b (carve direction k n) = {(carve_start direction b k n + 1, carve_size k n)}"
  by (auto simp: carve_def carve_start_def carve_size_def HOLE_T_SIZE_def)

lemma live_sizes_carve:
  "1 \<le> n \<Longrightarrow> n \<le> k \<Longrightarrow> filter (\<lambda>s. 0 < s) (carve direction k n) = [carve_size k n]"
  by (auto simp: carve_def carve_size_def HOLE_T_SIZE_def)

definition allocates :: "ns_mem_book \<Rightarrow> region list \<Rightarrow> addr \<Rightarrow> int \<Rightarrow> ns_mem_book \<Rightarrow> region list \<Rightarrow> bool" where
  "allocates book R p sz book' R' \<longleftrightarrow>
     heap_inv book' R' \<and> extents R' = extents R \<and>
     live_blocks R' = insert (p, sz) (live_blocks R) \<and>
     (\<forall>(q, k) \<in> live_blocks R. p + sz + 2 \<le> q \<or> q + k + 2 \<le> p) \<and>
     (\<forall>(q, k) \<in> live_blocks R. \<forall>c \<in> {q - 1..q + k}. mem book' c = mem book c) \<and>
     same_outside (managed (holes_list book) R) (mem book) (mem book') \<and> holes_list book' = holes_list book \<and>
     (stats_ok book R \<longrightarrow> stats_ok book' R')"

lemma internal_alloc_takes_hole:
  assumes inv: "heap_inv book R" and lim: "\<not> over_limit book direction"
    and n: "n = requested_words req" "n \<noteq> 0" and x: "taken_hole book R direction n x"
  shows "\<exists>m' R'. internal_alloc_book book req direction =
      Some (carve_start direction (x - 1) (- mem book (x - 1)) n + 1,
        count_alloc ((report_size book req)\<lparr>mem := m'\<rparr>) (carve_size (- mem book (x - 1)) n)) \<and>
     allocates book R (carve_start direction (x - 1) (- mem book (x - 1)) n + 1)
       (carve_size (- mem book (x - 1)) n)
       (count_alloc ((report_size book req)\<lparr>mem := m'\<rparr>) (carve_size (- mem book (x - 1)) n)) R'"
proof -
  let ?hl = "holes_list book"
  have ok: "regions_ok (mem book) ?hl R" and br: "book_regions book R"
    using inv by (auto simp: heap_inv_def)
  then obtain xs where xs: "hole_list (mem book) ?hl (hole_set R) xs" by (auto simp: regions_ok_def)
  have fx: "fits book R n x" using x by (simp add: taken_hole_def)
  have "find (\<lambda>x. n \<le> - mem book (x - 1)) (search_order direction xs) \<noteq> None"
    using search_no_hole [OF xs] fx by blast
  then obtain y where y: "find (\<lambda>x. n \<le> - mem book (x - 1)) (search_order direction xs) = Some y" by auto
  have "y = x" using search_taken_hole [OF ok xs y] x by (rule taken_hole_unique)
  with y have found: "alloc_search (mem book) ?hl direction n (alloc_search_first (mem book) ?hl direction) () =
    Some (Inl (Found (x - 1)))"
    using alloc_search_result [OF ok xs, of direction n] by simp
  obtain R1 a ss1 k ss2 R2 where R: "R = R1 @ (a, ss1 @ [- k] @ ss2) # R2" "x = a + span ss1 + 1" "2 \<le> k"
    "mem book (x - 1) = - k"
    using hole_block [OF ok, of x] fx by (metis fits_def)
  have nk: "1 \<le> n" "n \<le> k" using fx R(4) n requested_words_nonneg [of req] by (auto simp: fits_def)
  have b: "x - 1 = a + span ss1" using R(2) by simp
  obtain m' p n' where take: "alloc_take (mem book) ?hl direction (x - 1) n = (m', p, n')" by (metis prod_cases3)
  note take_ok = alloc_take_ok [OF ok [unfolded R(1)] R(3) nk b take]
  let ?R' = "R1 @ (a, ss1 @ carve direction k n @ ss2) # R2"
  let ?p = "carve_start direction (x - 1) k n + 1" and ?sz = "carve_size k n"
  let ?book' = "count_alloc ((report_size book req)\<lparr>mem := m'\<rparr>) ?sz"
  have sp: "span (carve direction k n) = k + 2" "span [- k] = k + 2"
    using span_carve [OF nk] R(3) by simp_all
  have "0 < x - 1" using stretch_head_apart(1) [OF ok [unfolded R(1)]] b by simp
  then have "p \<noteq> NULL" using take_ok(1) nk by (auto simp: carve_start_def)
  then have res: "internal_alloc_book book req direction = Some (?p, ?book')"
    using lim convert_allocation_size_inv [OF inv, of req] found take take_ok(1,2) n
    by (auto simp: internal_alloc_book_def over_limit_def alloc_done_def count_alloc_def)
  have inv': "heap_inv ?book' ?R'"
    using take_ok(3) book_regions_update [of book R1 a ss1 "[- k]" ss2 R2 "carve direction k n" m'] br R(1) sp
    by (simp add: heap_inv_def count_alloc_def book_regions_def)
  have live: "live_blocks R = rest_live R1 a ss1 (k + 2) ss2 R2"
    "live_blocks ?R' = insert (?p, ?sz) (live_blocks R)"
    using live_blocks_stretch [of R1 a ss1 "[- k]" ss2 R2] R(1,3) sp nk b
      live_blocks_stretch [of R1 a ss1 "carve direction k n" ss2 R2] live_at_carve [OF nk, of "x - 1" direction]
    by auto
  have same: "mem ?book' c = mem book c" if "(q, s) \<in> live_blocks R" "c \<in> {q - 1..q + s}" for q s c
    using take_ok(4) [of c] rest_live_kept [of q s R1 a ss1 "k + 2" ss2 R2] that live(1)
    by (auto simp: count_alloc_def)
  have sz: "?sz + 2 \<le> k + 2" "1 \<le> ?sz" "x \<le> ?p" "?p + ?sz + 1 \<le> x + k + 1"
    using nk by (auto simp: carve_size_def carve_start_def HOLE_T_SIZE_def)
  have disj: "?p + ?sz + 2 \<le> q \<or> q + s + 2 \<le> ?p" if q: "(q, s) \<in> live_blocks R" for q s
  proof -
    have "{q - 1..q + s} \<subseteq> rest_kept R1 a ss1 (k + 2) ss2 R2"
      using q live(1) by (intro rest_live_kept) simp
    moreover have "0 < s" using q by (auto elim!: live_blocks_bounds)
    moreover have "{q - 1..q + s} \<inter> {x - 1..<x + k + 1} = {}"
      using calculation(1) rest_kept_outside [OF ok [unfolded R(1)], unfolded sp(2)] b by force
    then have "max (q - 1) (x - 1) \<notin> {q - 1..q + s} \<inter> {x - 1..<x + k + 1}" by simp
    ultimately show ?thesis using sz R(3) by auto
  qed
  have "stats_ok book R \<longrightarrow> stats_ok ?book' ?R'"
    using R(1) live_sizes_carve [OF nk, of direction] R(3)
    by (auto simp: stats_ok_def count_alloc_def live_bytes_def Let_def WORD_SIZE_def algebra_simps)
  moreover have "extents ?R' = extents R" using R(1) sp by (simp add: extents_def region_end_def)
  moreover have "same_outside (managed ?hl R) (mem book) (mem ?book')" "holes_list ?book' = ?hl"
    using take_ok(5) R(1) by (simp_all add: count_alloc_def)
  ultimately have "allocates book R ?p ?sz ?book' ?R'"
    unfolding allocates_def using inv' live(2) disj same by blast
  with res R(4) show ?thesis by auto
qed

end
