(* ===== verification/DynMemFree.thy ===== *)
theory DynMemFree
  imports DynMemLayout
begin

text \<open>
  Release keeps the heap invariant: the block is found in its region, merges with its free
  neighbours, and the hole list gains the descriptor of the merged block and loses those of the
  neighbours.
\<close>

section \<open>Finding the region of a block\<close>

definition region_holds :: "addr \<Rightarrow> int \<Rightarrow> region \<Rightarrow> bool" where
  "region_holds b sz r \<longleftrightarrow> fst r \<le> b \<and> b < region_end r - 1 \<and> b + sz < region_end r - 1"

lemma region_list_cases:
  assumes "R \<noteq> []" "length R \<le> 3"
  obtains r where "R = [r]" | r s where "R = [r, s]" | r s t where "R = [r, s, t]"
proof (cases R)
  case (Cons r S)
  show thesis
  proof (cases S)
    case Nil
    with Cons that(1) show thesis by simp
  next
    case 2: (Cons s T)
    with Cons assms(2) that(2,3) show thesis by (cases T) auto
  qed
qed (use assms in simp)

lemma book_regions_cases:
  assumes "book_regions book R"
  obtains r where "R = [r]" "heap_main book = [fst r, NULL, NULL]"
      "heap_main_end book = [region_end r - 1, NULL, NULL]"
  | r s where "R = [r, s]" "heap_main book = [fst r, fst s, NULL]"
      "heap_main_end book = [region_end r - 1, region_end s - 1, NULL]"
  | r s t where "R = [r, s, t]" "heap_main book = [fst r, fst s, fst t]"
      "heap_main_end book = [region_end r - 1, region_end s - 1, region_end t - 1]"
  using assms that unfolding book_regions_def REGION_COUNT_def
  by (elim conjE region_list_cases; simp add: numeral_eq_Suc)

lemma upt_3: "[0..<REGION_COUNT] = [0, 1, 2]"
  by (simp add: REGION_COUNT_def upt_rec)

lemma region_find_result:
  assumes inv: "heap_inv book R"
  shows "if \<exists>r \<in> set R. region_holds b sz r
    then \<exists>i < length R. ns_dyn_mem_region_find book b sz = int i \<and> region_holds b sz (R ! i)
    else ns_dyn_mem_region_find book b sz = -1"
proof -
  have br: "book_regions book R" using inv by (simp add: heap_inv_def)
  have pos: "\<forall>r \<in> set R. fst r \<noteq> 0" using inv by (auto simp: heap_inv_def regions_ok_def region_ok_def)
  show ?thesis
    using br
    by (rule book_regions_cases)
       (use pos in \<open>force simp: ns_dyn_mem_region_find_def upt_3 region_holds_def\<close>)+
qed

lemma region_find_unique:
  assumes inv: "heap_inv book R" and r: "r \<in> set R" "region_holds b sz r"
  shows "\<exists>i < length R. ns_dyn_mem_region_find book b sz = int i \<and> R ! i = r \<and>
    heap_main book ! i = fst r \<and> heap_main_end book ! i = region_end r - 1"
proof -
  have ok: "regions_ok (mem book) (holes_list book) R" using inv by (simp add: heap_inv_def)
  have "\<exists>i < length R. ns_dyn_mem_region_find book b sz = int i \<and> region_holds b sz (R ! i)"
    using region_find_result [OF inv, of b sz] r by meson
  then obtain i where i: "i < length R" "ns_dyn_mem_region_find book b sz = int i"
    "region_holds b sz (R ! i)" by blast
  have "R ! i = r"
    using regions_apart [OF ok, of "R ! i" r] i r by (auto simp: region_holds_def)
  moreover have "heap_main book ! i = fst (R ! i)" "heap_main_end book ! i = region_end (R ! i) - 1"
    using inv i(1) by (auto simp: heap_inv_def book_regions_def nth_append)
  ultimately show ?thesis using i by auto
qed

section \<open>Merging\<close>

lemma merge_previous_none:
  "start = region_start \<or> 0 \<le> mem book (start - 1) \<Longrightarrow>
     merge_previous book region_start start n = (book, start, n, NULL)"
  by (auto simp: merge_previous_def)

lemma merge_previous_hole:
  "start \<noteq> region_start \<Longrightarrow> mem book (start - 1) = - k \<Longrightarrow> mem book (start - (k + 2)) = - k \<Longrightarrow> 0 < k \<Longrightarrow>
     merge_previous book region_start start n =
       (book, start - (k + 2), n + (k + 2), if HOLE_T_SIZE \<le> k then start - (k + 2) + 1 else NULL)"
  by (simp add: merge_previous_def Let_def HOLE_T_SIZE_def hole_from_block_start_def algebra_simps)

lemma merge_next_none:
  "e = region_end' \<or> 0 \<le> mem book (e + 1) \<Longrightarrow> merge_next book region_end' e n = (book, e, n, NULL)"
  by (auto simp: merge_next_def)

lemma merge_next_hole:
  "e \<noteq> region_end' \<Longrightarrow> mem book (e + 1) = - k \<Longrightarrow> mem book (e + (k + 2)) = - k \<Longrightarrow> 0 < k \<Longrightarrow>
     merge_next book region_end' e n =
       (book, e + (k + 2), n + (k + 2), if HOLE_T_SIZE \<le> k then e + 2 else NULL)"
  by (simp add: merge_next_def Let_def HOLE_T_SIZE_def hole_from_block_start_def algebra_simps)

text \<open>The free neighbours of a block: at most one on each side, since no two free blocks are adjacent.\<close>

definition free_before :: "int list \<Rightarrow> int list" where
  "free_before ss = (if ss \<noteq> [] \<and> last ss < 0 then [last ss] else [])"

definition kept_before :: "int list \<Rightarrow> int list" where
  "kept_before ss = (if ss \<noteq> [] \<and> last ss < 0 then butlast ss else ss)"

definition free_after :: "int list \<Rightarrow> int list" where
  "free_after ss = (if ss \<noteq> [] \<and> hd ss < 0 then [hd ss] else [])"

definition kept_after :: "int list \<Rightarrow> int list" where
  "kept_after ss = (if ss \<noteq> [] \<and> hd ss < 0 then tl ss else ss)"

lemma neighbours_split:
  "kept_before ss @ free_before ss = ss" "free_after ss @ kept_after ss = ss"
  by (auto simp: kept_before_def free_before_def kept_after_def free_after_def)

lemma coalesced_merge:
  assumes "coalesced (ss1 @ [s] @ ss2)"
  shows "coalesced (kept_before ss1 @ [- n] @ kept_after ss2)"
proof -
  have c: "coalesced ss1" "coalesced ss2" using assms by (auto simp: coalesced_append coalesced_Cons)
  have 1: "coalesced (kept_before ss1)" "kept_before ss1 = [] \<or> \<not> last (kept_before ss1) < 0"
    using c(1) by (cases ss1 rule: rev_cases; auto simp: kept_before_def coalesced_append)+
  have 2: "coalesced (kept_after ss2)" "kept_after ss2 = [] \<or> \<not> hd (kept_after ss2) < 0"
    using c(2) by (cases ss2; auto simp: kept_after_def coalesced_Cons)+
  show ?thesis using 1 2 by (auto simp: coalesced_append coalesced_Cons)
qed


text \<open>The descriptor of a free neighbour that has one, or null.\<close>

definition descriptor :: "addr \<Rightarrow> int list \<Rightarrow> addr" where
  "descriptor b ss = (if ss \<noteq> [] \<and> hd ss \<le> - HOLE_T_SIZE then b + 1 else NULL)"

lemma merge_previous_result:
  assumes "blocks_at (mem book) a ss1"
  shows "merge_previous book a (a + span ss1) n =
    (book, a + span (kept_before ss1), n + span (free_before ss1),
     descriptor (a + span (kept_before ss1)) (free_before ss1))"
proof (cases ss1 rule: rev_cases)
  case Nil
  then show ?thesis by (simp add: merge_previous_def kept_before_def free_before_def descriptor_def)
next
  case (snoc cs s)
  have sp: "0 \<le> span cs" by (rule span_nonneg)
  have m: "mem book (a + span ss1 - 1) = s" "mem book (a + span cs) = s" "s \<noteq> 0"
    using assms snoc by (auto simp: algebra_simps)
  show ?thesis
  proof (cases "s < 0")
    case True
    have "mem book (a + span ss1 - (- s + 2)) = s" using m(2) snoc True by (simp add: algebra_simps)
    then show ?thesis
      using merge_previous_hole [of "a + span ss1" a book "- s" n] m True snoc sp
      by (simp add: kept_before_def free_before_def descriptor_def algebra_simps)
  next
    case False
    then show ?thesis
      using merge_previous_none [of "a + span ss1" a book n] m snoc
      by (simp add: kept_before_def free_before_def descriptor_def)
  qed
qed

lemma merge_next_result:
  assumes "blocks_at (mem book) c ss2" "c + span ss2 = re + 1"
  shows "merge_next book re (c - 1) n =
    (book, c + span (free_after ss2) - 1, n + span (free_after ss2), descriptor c (free_after ss2))"
proof (cases ss2)
  case Nil
  then show ?thesis using assms by (simp add: merge_next_def kept_after_def free_after_def descriptor_def)
next
  case (Cons s cs)
  have sp: "0 \<le> span cs" by (rule span_nonneg)
  have m: "mem book c = s" "mem book (c + 1 + \<bar>s\<bar>) = s" "s \<noteq> 0"
    using assms Cons by auto
  have ne: "c - 1 \<noteq> re" using assms(2) Cons sp by auto
  show ?thesis
  proof (cases "s < 0")
    case True
    have "mem book (c - 1 + (- s + 2)) = s" using m(2) True by (simp add: algebra_simps)
    then show ?thesis
      using merge_next_hole [of "c - 1" re book "- s" n] m True Cons ne
      by (simp add: free_after_def descriptor_def algebra_simps)
  next
    case False
    then show ?thesis
      using merge_next_none [of "c - 1" re book n] m Cons
      by (simp add: free_after_def descriptor_def)
  qed
qed

section \<open>The hole list after a release\<close>

lemma hole_list_stretch_split:
  assumes ok: "regions_ok m hl (R1 @ (a, ss1 @ old @ ss2) # R2)"
    and H: "hole_list m' hl (rest_holes R1 a ss1 (span old) ss2 R2 \<union> set hs) xs"
    and hs: "sorted_wrt (<) hs" "\<And>x. x \<in> set hs \<Longrightarrow> a + span ss1 < x \<and> x + 3 \<le> a + span ss1 + span old"
  obtains as bs where "xs = as @ hs @ bs"
    "set as \<union> set bs = rest_holes R1 a ss1 (span old) ss2 R2"
    "\<And>y. y \<in> set as \<Longrightarrow> y + 3 \<le> a + span ss1"
    "\<And>y. y \<in> set bs \<Longrightarrow> a + span ss1 + span old + 1 \<le> y"
proof -
  let ?rest = "rest_holes R1 a ss1 (span old) ss2 R2" and ?b = "a + span ss1" and ?w = "span old"
  define as where "as = filter (\<lambda>y. y \<le> ?b) xs"
  define bs where "bs = filter (\<lambda>y. ?b + ?w < y) xs"
  have s: "sorted_wrt (<) xs" "set xs = ?rest \<union> set hs" using H by (auto simp: hole_list_def)
  have w: "0 \<le> ?w" by (rule span_nonneg)
  have as: "y \<in> ?rest \<and> y + 3 \<le> ?b" if "y \<in> set as" for y
    using that s(2) rest_holes_outside [OF ok, of y] hs(2) [of y] w by (auto simp: as_def)
  have bs: "y \<in> ?rest \<and> ?b + ?w + 1 \<le> y" if "y \<in> set bs" for y
    using that s(2) rest_holes_outside [OF ok, of y] hs(2) [of y] w by (auto simp: bs_def)
  have rest: "set as \<union> set bs = ?rest"
  proof
    show "set as \<union> set bs \<subseteq> ?rest" using as bs by blast
    show "?rest \<subseteq> set as \<union> set bs"
      using s(2) rest_holes_outside [OF ok] by (force simp: as_def bs_def)
  qed
  have "sorted_wrt (<) as" "sorted_wrt (<) bs" using s(1) by (auto simp: as_def bs_def sorted_wrt_filter)
  moreover have "x < y" if "x \<in> set as" "y \<in> set hs" for x y using as [OF that(1)] hs(2) [OF that(2)] by simp
  moreover have "x < y" if "x \<in> set hs" "y \<in> set bs" for x y using bs [OF that(2)] hs(2) [OF that(1)] by simp
  moreover have "x < y" if "x \<in> set as" "y \<in> set bs" for x y
    using as [OF that(1)] bs [OF that(2)] w by simp
  ultimately have "sorted_wrt (<) (as @ hs @ bs)" using hs(1) by (auto simp: sorted_wrt_append)
  moreover have "set (as @ hs @ bs) = set xs" using rest s(2) by auto
  ultimately have "xs = as @ hs @ bs" using s(1) by (metis strict_sorted_equal)
  with that rest as bs show thesis by blast
qed

lemma walk_find_above:
  assumes "\<And>y. y \<in> set as \<Longrightarrow> y \<le> e" "\<And>y. y \<in> set bs \<Longrightarrow> e < y"
  shows "walk (find_above_body e) () (as @ bs) = (case bs of [] \<Rightarrow> Inr () | y # _ \<Rightarrow> Inl y)"
  using assms
proof (induction as)
  case Nil
  then show ?case by (cases bs) (auto simp: find_above_body_def)
next
  case (Cons x as)
  have "find_above_body e () x = Inr ()" using Cons.prems(1) [of x] by (simp add: find_above_body_def)
  moreover have "walk (find_above_body e) () (as @ bs) = (case bs of [] \<Rightarrow> Inr () | y # _ \<Rightarrow> Inl y)"
    using Cons by simp
  ultimately show ?case by simp
qed

lemma find_above_result:
  assumes rep: "ns_list_rep m hl HOLE_LINK (as @ bs)"
    and b: "\<And>y. y \<in> set as \<Longrightarrow> y \<le> e" "\<And>y. y \<in> set bs \<Longrightarrow> e < y"
  shows "find_above_loop m e (ns_list_get_first m hl) () =
    Some (case bs of [] \<Rightarrow> Inr () | y # _ \<Rightarrow> Inl y)"
proof -
  have "find_above_loop m e p acc =
    (if p = NULL then Some (Inr acc) else case find_above_body e acc p of
       Inl r \<Rightarrow> Some (Inl r)
     | Inr acc' \<Rightarrow> find_above_loop m e (ns_list_get_next m HOLE_LINK p) acc')" for p acc
    by (subst find_above_loop.simps) (rule refl)
  from forwards.foreach [OF this rep, of "()"] show ?thesis
    by (simp only: walk_find_above [OF b])
qed


text \<open>
  The hole list after the update: the descriptor of the merged block is on it, when the block is big
  enough for one, and the descriptors of its former neighbours are not.
\<close>

definition present :: "addr \<Rightarrow> addr list" where
  "present e = (if e \<noteq> NULL then [e] else [])"

definition merged_hole :: "addr \<Rightarrow> int \<Rightarrow> addr set" where
  "merged_hole b n = (if HOLE_T_SIZE \<le> n then {b + 1} else {})"

lemma update_hole_list_ok:
  assumes H: "hole_list m hl (rest \<union> set (present e1 @ present e2)) (as @ (present e1 @ present e2) @ bs)"
    and rest: "rest = set as \<union> set bs"
    and as: "\<And>y. y \<in> set as \<Longrightarrow> y + 3 \<le> b" and bs: "\<And>y. y \<in> set bs \<Longrightarrow> b + w + 1 \<le> y"
    and e1: "e1 = NULL \<or> e1 = b + 1" and e2: "e2 = NULL \<or> b + 3 \<le> e2 \<and> e2 + 3 \<le> b + w"
    and n: "e1 = NULL \<and> e2 = NULL \<or> HOLE_T_SIZE \<le> n" and w: "3 \<le> w"
    and hd: "0 < b" "hl + 2 \<le> b \<or> b + w \<le> hl"
  shows "\<exists>m' xs'. update_hole_list m hl b n e1 e2 = Some m' \<and>
    hole_list m' hl (rest \<union> merged_hole b n) xs' \<and> set xs' \<subseteq> set as \<union> set bs \<union> {b + 1} \<and>
    same_outside ({b + 1, b + 2} \<union> head_cells hl \<union> link_cells HOLE_LINK (as @ present e2 @ bs)) m m'"
proof -
  let ?S = "{b + 1, b + 2} \<union> head_cells hl \<union> link_cells HOLE_LINK (as @ present e2 @ bs)"
  let ?e = "b + 1"
  have nh: "new_hole hl as ?e bs"
    using as bs hd w by (fastforce simp: new_hole_def apart_def)
  have ins: "\<exists>m' xs'. (if bs \<noteq> [] then Some (ns_list_add_before m1 HOLE_LINK (hd bs) ?e)
        else Some (ns_list_add_to_end m1 hl HOLE_LINK ?e)) = Some m' \<and>
      hole_list m' hl (insert ?e rest) xs' \<and> set xs' \<subseteq> set as \<union> set bs \<union> {?e} \<and> same_outside ?S m m'"
    if m1: "hole_list m1 hl rest (as @ bs)" "same_outside ?S m m1" for m1
  proof -
    define m' where "m' = (if bs \<noteq> [] then ns_list_add_before m1 HOLE_LINK (hd bs) ?e
      else ns_list_add_to_end m1 hl HOLE_LINK ?e)"
    note i = insert_before_hole [OF m1(1) nh m'_def]
    have "same_outside ?S m1 m'" by (rule same_outside_mono [OF i(2)]) (use w in auto)
    with m1(2) have "same_outside ?S m m'" by (rule same_outside_trans)
    with i(1) show ?thesis by (intro exI [of _ m'] exI [of _ "as @ ?e # bs"]) (auto simp: m'_def)
  qed
  have bs0: "bs \<noteq> [] \<Longrightarrow> hd bs \<noteq> NULL" using bs [of "hd bs"] hd w by (cases bs) auto
  have rm: "hole_list (ns_list_remove m hl HOLE_LINK e2) hl (rest \<union> set (present e1)) (as @ present e1 @ bs)"
    "same_outside ?S m (ns_list_remove m hl HOLE_LINK e2)"
    "ns_list_get_next m HOLE_LINK e2 = (if bs = [] then NULL else hd bs)"
    if e2n: "e2 \<noteq> NULL"
  proof -
    have e2': "b + 3 \<le> e2" "e2 + 3 \<le> b + w" using e2 e2n by auto
    have rep: "ns_list_rep m hl HOLE_LINK ((as @ present e1) @ e2 # bs)"
      and srt: "sorted_wrt (<) ((as @ present e1) @ e2 # bs)"
      using H e2n by (auto simp: hole_list_def present_def)
    have "sorted_wrt (<) (as @ present e1 @ bs)" using srt by (auto simp: sorted_wrt_append)
    then show "hole_list (ns_list_remove m hl HOLE_LINK e2) hl (rest \<union> set (present e1)) (as @ present e1 @ bs)"
      using ns_list_remove_rep [OF rep] rest by (auto simp: hole_list_def)
    have "ns_list_remove m hl HOLE_LINK e2 c = m c" if "c \<notin> ?S" for c
      using that e2' e1 w hd(1) by (intro ns_list_remove_frame [OF rep])
        (auto simp: HOLE_LINK_def present_def split: if_splits)
    then show "same_outside ?S m (ns_list_remove m hl HOLE_LINK e2)" by (auto simp: same_outside_def)
    show "ns_list_get_next m HOLE_LINK e2 = (if bs = [] then NULL else hd bs)"
      using ns_list_get_next_rep [OF rep] by (cases bs) auto
  qed
  show ?thesis
  proof (cases "e1 = NULL")
    case e1n: False
    then have e: "e1 = ?e" "merged_hole b n = {?e}" using e1 n by (auto simp: merged_hole_def)
    show ?thesis
    proof (cases "e2 = NULL")
      case True
      have "update_hole_list m hl b n e1 e2 = Some m" using e1n True by (simp add: update_hole_list_def)
      moreover have "hole_list m hl (rest \<union> merged_hole b n) (as @ ?e # bs)"
        using H True e hd(1) by (simp add: present_def split: if_splits)
      ultimately show ?thesis by (intro exI [of _ m] exI [of _ "as @ ?e # bs"]) auto
    next
      case False
      have "update_hole_list m hl b n e1 e2 = Some (ns_list_remove m hl HOLE_LINK e2)"
        using e1n False by (simp add: update_hole_list_def Let_def)
      moreover have "hole_list (ns_list_remove m hl HOLE_LINK e2) hl (rest \<union> merged_hole b n) (as @ ?e # bs)"
        using rm(1) [OF False] e e1n by (simp add: present_def)
      ultimately show ?thesis using rm(2) [OF False]
        by (intro exI [of _ "ns_list_remove m hl HOLE_LINK e2"] exI [of _ "as @ ?e # bs"]) auto
    qed
  next
    case e1n: True
    show ?thesis
    proof (cases "e2 = NULL")
      case True
      have H0: "hole_list m hl rest (as @ bs)" using H True e1n by (simp add: present_def)
      have "find_above_loop m ?e (ns_list_get_first m hl) () = Some (case bs of [] \<Rightarrow> Inr () | y # _ \<Rightarrow> Inl y)"
      proof (rule find_above_result)
        show "ns_list_rep m hl HOLE_LINK (as @ bs)" using H0 by (simp add: hole_list_def)
        show "y \<le> ?e" if "y \<in> set as" for y using as [OF that] by simp
        show "?e < y" if "y \<in> set bs" for y using bs [OF that] w by simp
      qed
      then have "update_hole_list m hl b n e1 e2 = (if HOLE_T_SIZE \<le> n then
          (if bs \<noteq> [] then Some (ns_list_add_before m HOLE_LINK (hd bs) ?e)
           else Some (ns_list_add_to_end m hl HOLE_LINK ?e)) else Some m)"
        using True e1n bs0
        by (cases bs) (auto simp: update_hole_list_def hole_from_block_start_def)
      with ins [OF H0] H0 show ?thesis by (cases "HOLE_T_SIZE \<le> n") (auto simp: merged_hole_def)
    next
      case False
      have H1: "hole_list (ns_list_remove m hl HOLE_LINK e2) hl rest (as @ bs)"
        using rm(1) [OF False] e1n by (simp add: present_def)
      have n2: "HOLE_T_SIZE \<le> n" using n False by auto
      then have "update_hole_list m hl b n e1 e2 =
          (if bs \<noteq> [] then Some (ns_list_add_before (ns_list_remove m hl HOLE_LINK e2) HOLE_LINK (hd bs) ?e)
           else Some (ns_list_add_to_end (ns_list_remove m hl HOLE_LINK e2) hl HOLE_LINK ?e))"
        using False e1n bs0 rm(3) [OF False]
        by (auto simp: update_hole_list_def hole_from_block_start_def)
      with ins [OF H1 rm(2) [OF False]] n2 show ?thesis by (auto simp: merged_hole_def)
    qed
  qed
qed


section \<open>Merging a block with its neighbours\<close>

lemma holes_descriptor:
  "0 < b \<Longrightarrow> length ss \<le> 1 \<Longrightarrow> holes_at b ss = set (present (descriptor b ss))"
  by (cases ss) (auto simp: present_def descriptor_def)

lemma free_neighbours_small: "length (free_before ss) \<le> 1" "length (free_after ss) \<le> 1"
  by (auto simp: free_before_def free_after_def)

lemma block_cells_kept:
  "b = a + span ss1 \<Longrightarrow> 0 < s \<Longrightarrow> {b, b + s + 1} \<subseteq> kept_cells (R1 @ (a, ss1 @ [s] @ ss2) # R2)"
  by auto

lemma free_before_span: "free_before ss \<noteq> [] \<Longrightarrow> 3 \<le> span (free_before ss)"
  by (auto simp: free_before_def split: if_splits)

lemma blocks_at_free:
  "blocks_at m b ss \<Longrightarrow> (\<And>c. c \<in> kept_at b ss \<Longrightarrow> m' c = m c) \<Longrightarrow> blocks_at m' b ss"
  using blocks_at_cong by blast

lemma free_merge_ok:
  assumes inv: "heap_inv book (R1 @ (a, ss1 @ [s] @ ss2) # R2)" and s: "0 < s" and b: "b = a + span ss1"
    and l1: "l1 = kept_before ss1" and l2: "l2 = kept_after ss2"
    and w: "w = span (free_before ss1) + (s + 2) + span (free_after ss2)"
  shows "\<exists>m'. ns_mem_free_and_merge_with_adjacent_blocks book b s = Some (book\<lparr>mem := m'\<rparr>) \<and>
    regions_ok m' (holes_list book) (R1 @ (a, l1 @ [- (w - 2)] @ l2) # R2) \<and>
    (\<forall>c \<in> rest_kept R1 a l1 w l2 R2. m' c = mem book c) \<and> m' b < 0 \<and>
    same_outside (managed (holes_list book) (R1 @ (a, ss1 @ [s] @ ss2) # R2)) (mem book) m'"
proof -
  let ?P = "free_before ss1" and ?N = "free_after ss2" and ?hl = "holes_list book"
  let ?R = "R1 @ (a, ss1 @ [s] @ ss2) # R2" and ?old = "free_before ss1 @ [s] @ free_after ss2"
  let ?b0 = "a + span l1" and ?n = "w - 2"
  define m1 where "m1 = (mem book)(b := - s, b + s + 1 := - s)"
  have ss: "ss1 = l1 @ ?P" "ss2 = ?N @ l2" using l1 l2 neighbours_split by metis+
  have R: "?R = R1 @ (a, l1 @ ?old @ l2) # R2" using ss by (metis append.assoc)
  have ok: "regions_ok (mem book) ?hl ?R" using inv by (simp add: heap_inv_def)
  note ok' = ok [unfolded R]
  have spw: "span ?old = w" using w s by simp
  have nn: "0 \<le> span ?P" "0 \<le> span ?N" "0 \<le> span l1" "0 \<le> span l2" by (rule span_nonneg)+
  have bP: "b = ?b0 + span ?P" using b ss(1) by (metis span_append add.assoc)
  have sp1: "span ss1 = span l1 + span ?P" and sp2: "span ss2 = span ?N + span l2"
    using ss by (metis span_append)+
  have regs: "region_holds b s (a, ss1 @ [s] @ ss2)"
    using b s nn sp1 sp2 by (simp add: region_holds_def region_end_def)
  obtain i where i: "ns_dyn_mem_region_find book b s = int i" "heap_main book ! i = a"
      "heap_main_end book ! i = region_end (a, ss1 @ [s] @ ss2) - 1"
    using region_find_unique [OF inv _ regs] by auto
  have re: "region_end (a, ss1 @ [s] @ ss2) = b + s + 2 + span ss2" using b s by (simp add: region_end_def)
  have blocks: "blocks_at (mem book) a ss1" "blocks_at (mem book) (b + s + 2) ss2"
    using ok b s by (auto simp: regions_ok_def region_ok_def algebra_simps)
  have blocks1: "blocks_at m1 a ss1" "blocks_at m1 (b + s + 2) ss2"
  proof -
    have "m1 c = mem book c" if "c \<in> kept_at a ss1" for c
      using kept_at_bounds [OF that] b s by (simp add: m1_def)
    with blocks(1) show "blocks_at m1 a ss1" by (rule blocks_at_free)
    have "m1 c = mem book c" if "c \<in> kept_at (b + s + 2) ss2" for c
      using kept_at_bounds [OF that] s by (simp add: m1_def)
    with blocks(2) show "blocks_at m1 (b + s + 2) ss2" by (rule blocks_at_free)
  qed
  let ?e1 = "descriptor ?b0 ?P" and ?e2 = "descriptor (b + s + 2) ?N"
  have mp: "merge_previous (book\<lparr>mem := m1\<rparr>) a b s = (book\<lparr>mem := m1\<rparr>, ?b0, s + span ?P, ?e1)"
    using merge_previous_result [of "book\<lparr>mem := m1\<rparr>" a ss1 s] blocks1(1) b l1 by simp
  have mn: "merge_next (book\<lparr>mem := m1\<rparr>) (region_end (a, ss1 @ [s] @ ss2) - 1) (b + s + 1) (s + span ?P) =
      (book\<lparr>mem := m1\<rparr>, b + s + 1 + span ?N, s + span ?P + span ?N, ?e2)"
    using merge_next_result [of "book\<lparr>mem := m1\<rparr>" "b + s + 2" ss2 "b + s + 2 + span ss2 - 1" "s + span ?P"]
      blocks1(2) re by (simp add: algebra_simps)
  have be: "b + s + 1 + span ?N = ?b0 + w - 1" "s + span ?P + span ?N = ?n" using w bP by auto
  have res: "ns_mem_free_and_merge_with_adjacent_blocks book b s =
    map_option (\<lambda>m. book\<lparr>mem := m(?b0 := - ?n, ?b0 + w - 1 := - ?n)\<rparr>)
      (update_hole_list m1 ?hl ?b0 ?n ?e1 ?e2)"
    unfolding ns_mem_free_and_merge_with_adjacent_blocks_def i(1)
    unfolding Let_def m1_def [symmetric] nat_int i(2,3) mp mn prod.case be
    by (simp split: option.split)
  obtain xs where xs: "hole_list (mem book) ?hl (hole_set ?R) xs" using ok by (auto simp: regions_ok_def)
  have pos: "0 < ?b0" "?hl + 2 \<le> ?b0 \<or> ?b0 + w \<le> ?hl" using stretch_head_apart [OF ok'] spw by auto
  let ?rest = "rest_holes R1 a l1 w l2 R2" and ?hs = "present ?e1 @ present ?e2"
  have h1: "holes_at ?b0 ?P = set (present ?e1)" using pos(1) free_neighbours_small by (intro holes_descriptor)
  have h2: "holes_at (b + s + 2) ?N = set (present ?e2)"
    using pos(1) free_neighbours_small nn bP s by (intro holes_descriptor) auto
  have "holes_at ?b0 ?old = set ?hs"
    using h1 h2 s bP by (simp add: HOLE_T_SIZE_def algebra_simps)
  then have HR: "hole_set ?R = ?rest \<union> set ?hs" unfolding R hole_set_stretch spw by simp
  have frame: "m1 c = mem book c" if "c \<in> head_cells ?hl \<union> link_cells HOLE_LINK xs" for c
  proof -
    have "c \<notin> kept_cells ?R"
    proof
      assume k: "c \<in> kept_cells ?R"
      from head_cells_not_kept [OF ok k] that have "c \<in> link_cells HOLE_LINK xs" by blast
      then obtain x where "x \<in> set xs" "c = x \<or> c = x + 1" by (auto simp: link_cells_def HOLE_LINK_def)
      with xs hole_cells_not_kept [OF ok _ k] show False by (auto simp: hole_list_def)
    qed
    then show ?thesis using block_cells_kept [OF b s, of R1 ss2 R2] by (auto simp: m1_def)
  qed
  have H1: "hole_list m1 ?hl (?rest \<union> set ?hs) xs" using hole_list_frame [OF xs frame] HR by simp
  have e1: "?e1 = NULL \<or> ?e1 = ?b0 + 1" by (simp add: descriptor_def)
  have e2: "?e2 = NULL \<or> ?b0 + 3 \<le> ?e2 \<and> ?e2 + 3 \<le> ?b0 + w"
    using bP nn s w span_nonneg [of "tl ?N"] by (cases ?N) (auto simp: descriptor_def HOLE_T_SIZE_def)
  have e1': "?e1 \<noteq> NULL \<Longrightarrow> ?b0 + 4 \<le> b"
    using bP nn span_nonneg [of "tl ?P"]
    by (cases ?P) (auto simp: descriptor_def HOLE_T_SIZE_def split: if_splits)
  have e2': "?e2 \<noteq> NULL \<Longrightarrow> ?e2 = b + s + 3" by (auto simp: descriptor_def split: if_splits)
  have w3: "3 \<le> w" "?b0 \<le> b" using w nn s bP by auto
  have n2: "?e1 = NULL \<and> ?e2 = NULL \<or> HOLE_T_SIZE \<le> ?n"
    using e1' e2 w3 bP w nn s
    by (cases "?e1 = NULL"; cases "?e2 = NULL") (simp_all add: HOLE_T_SIZE_def)
  have srt: "sorted_wrt (<) ?hs" using e1 e1' e2' s by (auto simp: present_def)
  have within: "?b0 < x \<and> x + 3 \<le> ?b0 + w" if "x \<in> set ?hs" for x
    using that e1 e1' e2 w s bP nn by (auto simp: present_def split: if_splits)
  obtain as bs where abs: "xs = as @ ?hs @ bs" "set as \<union> set bs = ?rest"
    "\<And>y. y \<in> set as \<Longrightarrow> y + 3 \<le> ?b0" "\<And>y. y \<in> set bs \<Longrightarrow> ?b0 + w + 1 \<le> y"
    using hole_list_stretch_split [OF ok', unfolded spw, OF H1 srt within] by blast
  obtain m2 xs' where m2: "update_hole_list m1 ?hl ?b0 ?n ?e1 ?e2 = Some m2"
    "hole_list m2 ?hl (?rest \<union> merged_hole ?b0 ?n) xs'" "set xs' \<subseteq> set as \<union> set bs \<union> {?b0 + 1}"
    "same_outside ({?b0 + 1, ?b0 + 2} \<union> head_cells ?hl \<union> link_cells HOLE_LINK (as @ present ?e2 @ bs)) m1 m2"
    using update_hole_list_ok [OF H1 [unfolded abs(1)] abs(2) [symmetric] abs(3,4) e1 e2 n2 w3(1) pos] by blast
  let ?m' = "m2(?b0 := - ?n, ?b0 + w - 1 := - ?n)"
  have out: "c \<notin> {?b0..<?b0 + w} \<union> head_cells ?hl \<union> link_cells HOLE_LINK (as @ bs)"
    if "c \<in> rest_kept R1 a l1 w l2 R2" for c
    using rest_untouched [OF ok', unfolded spw, of "as @ bs" c] abs(2) that by simp
  have unlinked: "m2 c = m1 c"
    if "c \<notin> {?b0 + 1, ?b0 + 2} \<union> head_cells ?hl \<union> link_cells HOLE_LINK (as @ present ?e2 @ bs)" for c
    using m2(4) that by (simp add: same_outside_def)
  have same: "?m' c = mem book c" if "c \<in> rest_kept R1 a l1 w l2 R2" for c
  proof -
    have "c \<notin> {?b0..<?b0 + w}" using out [OF that] by blast
    moreover have "m2 c = m1 c"
      using out [OF that] e2 w3(1) by (intro unlinked) (auto simp: present_def HOLE_LINK_def)
    moreover have "?b0 \<le> b" "b + s + 1 < ?b0 + w" using w3 bP w nn by auto
    ultimately show ?thesis using w3 s by (auto simp: m1_def)
  qed
  have nl: "c \<notin> head_cells ?hl \<union> link_cells HOLE_LINK xs'" if "c = ?b0 \<or> c = ?b0 + w - 1" for c
  proof -
    have hc: "c \<notin> head_cells ?hl" using that pos(2) w3 by (auto simp: head_cells_def)
    have "x + 1 < ?b0 \<or> ?b0 + w - 1 < x \<or> x = ?b0 + 1 \<and> HOLE_T_SIZE \<le> ?n" if x: "x \<in> set xs'" for x
    proof -
      have "x \<in> ?rest \<union> merged_hole ?b0 ?n" using m2(2) x by (auto simp: hole_list_def)
      then have "x \<in> set as \<union> set bs \<or> x = ?b0 + 1 \<and> HOLE_T_SIZE \<le> ?n"
        using abs(2) by (auto simp: merged_hole_def split: if_splits)
      then show ?thesis using abs(3,4) by fastforce
    qed
    then have "c \<notin> link_cells HOLE_LINK xs'" using that w3
      by (fastforce simp: link_cells_def HOLE_LINK_def HOLE_T_SIZE_def)
    with hc show ?thesis by blast
  qed
  have "merged_hole ?b0 ?n = holes_at ?b0 [- ?n]" using w3 by (auto simp: merged_hole_def)
  then have list: "hole_list ?m' ?hl (?rest \<union> holes_at ?b0 [- ?n]) xs'"
    using m2(2) by (intro hole_list_upd nl) simp_all
  have blk: "blocks_at ?m' ?b0 [- ?n]" using w3 by simp
  have coal: "coalesced (l1 @ [- ?n] @ l2)"
    unfolding l1 l2 by (rule coalesced_merge) (rule regions_coalesced [OF ok])
  have "regions_ok ?m' ?hl (R1 @ (a, l1 @ [- ?n] @ l2) # R2)"
    using w3 by (intro regions_ok_update [OF ok' spw _ _ refl blk same list coal]) simp_all
  moreover have "ns_mem_free_and_merge_with_adjacent_blocks book b s = Some (book\<lparr>mem := ?m'\<rparr>)"
    using res m2(1) by simp
  moreover have "?m' b < 0"
  proof (cases "?P = []")
    case True
    then show ?thesis using bP w3 by simp
  next
    case False
    then have b3: "?b0 + 3 \<le> b" using bP free_before_span [of ss1] by simp
    have "m2 b = m1 b"
    proof (rule unlinked)
      have "b \<notin> link_cells HOLE_LINK (as @ bs)"
        using abs(3,4) b3 be(1) nn(2) s by (fastforce simp: link_cells_def HOLE_LINK_def)
      moreover have "b \<notin> link_cells HOLE_LINK (present ?e2)"
        using e2' s by (auto simp: present_def HOLE_LINK_def)
      moreover have "b \<notin> head_cells ?hl" using pos(2) b3 be(1) nn(2) s by (auto simp: head_cells_def)
      ultimately show "b \<notin> {?b0 + 1, ?b0 + 2} \<union> head_cells ?hl \<union> link_cells HOLE_LINK (as @ present ?e2 @ bs)"
        using b3 by auto
    qed
    then show ?thesis using s w3 by (auto simp: m1_def)
  qed
  moreover have "same_outside (managed ?hl ?R) (mem book) ?m'"
  proof -
    let ?S = "{?b0..<?b0 + w} \<union> head_cells ?hl \<union> link_cells HOLE_LINK (as @ bs)"
    have st: "b \<in> ?S" "b + s + 1 \<in> ?S" "?b0 \<in> ?S" "?b0 + w - 1 \<in> ?S" using w3 bP w nn s by auto
    have m12: "same_outside ?S m1 m2"
      by (rule same_outside_mono [OF m2(4)]) (use e2 w3(1) in \<open>auto simp: present_def HOLE_LINK_def\<close>)
    have "same_outside ?S (mem book) m1" using st(1,2) by (simp add: m1_def)
    then have "same_outside ?S (mem book) m2" using m12 by (rule same_outside_trans)
    then have "same_outside ?S (mem book) ?m'" using st(3,4) by simp
    moreover have "set (as @ bs) \<subseteq> rest_holes R1 a l1 (span ?old) l2 R2" unfolding spw using abs(2) by simp
    then have "?S \<subseteq> managed ?hl ?R" using stretch_managed [OF _ R, of "as @ bs" ?hl] unfolding spw by blast
    ultimately show ?thesis by (rule same_outside_mono)
  qed
  ultimately show ?thesis using same by blast
qed


section \<open>The free function\<close>

definition releases :: "ns_mem_book \<Rightarrow> region list \<Rightarrow> addr \<Rightarrow> int \<Rightarrow> ns_mem_book \<Rightarrow> region list \<Rightarrow> bool" where
  "releases book R p sz book' R' \<longleftrightarrow>
     heap_inv book' R' \<and> extents R' = extents R \<and>
     live_blocks R' = live_blocks R - {(p, sz)} \<and>
     (\<forall>(q, k) \<in> live_blocks R - {(p, sz)}. \<forall>c \<in> {q - 1..q + k}. mem book' c = mem book c) \<and>
     same_outside (managed (holes_list book) R) (mem book) (mem book') \<and> holes_list book' = holes_list book \<and>
     (stats_ok book R \<longrightarrow> stats_ok book' R')"

lemma live_block_split:
  assumes "(p, sz) \<in> live_blocks R"
  obtains R1 a ss1 ss2 R2 where "R = R1 @ (a, ss1 @ [sz] @ ss2) # R2" "p = a + span ss1 + 1" "0 < sz"
proof -
  obtain a ss where r: "(a, ss) \<in> set R" "(p, sz) \<in> live_at a ss" using assms by (auto simp: live_blocks_def)
  obtain ss1 ss2 where s: "ss = ss1 @ sz # ss2" "p = a + span ss1 + 1" "0 < sz"
    using r(2) by (rule live_at_split)
  obtain R1 R2 where "R = R1 @ (a, ss) # R2" using r(1) by (meson split_list)
  with s that show thesis by simp
qed

definition count_free :: "ns_mem_book \<Rightarrow> int \<Rightarrow> ns_mem_book" where
  "count_free book n = book\<lparr>mem_stat_info := dev_stat_update (mem_stat_info book) DEV_HEAP_FREE
     (word_of_int (n + 2) * WORD_SIZE)\<rparr>"

lemma free_sizes:
  "live_at b (free_before ss) = {}" "live_at b (free_after ss) = {}"
  "filter (\<lambda>s. 0 < s) (free_before ss) = []" "filter (\<lambda>s. 0 < s) (free_after ss) = []"
  by (auto simp: free_before_def free_after_def)

lemma ns_mem_free_ok:
  assumes inv: "heap_inv book R" and p: "(p, sz) \<in> live_blocks R"
  shows "\<exists>m' R'. ns_mem_free book p = Some (count_free (book\<lparr>mem := m'\<rparr>) sz) \<and>
    releases book R p sz (count_free (book\<lparr>mem := m'\<rparr>) sz) R' \<and> m' (p - 1) < 0"
proof -
  obtain R1 a ss1 ss2 R2 where R: "R = R1 @ (a, ss1 @ [sz] @ ss2) # R2" "p = a + span ss1 + 1" "0 < sz"
    using p by (rule live_block_split)
  let ?l1 = "kept_before ss1" and ?l2 = "kept_after ss2" and ?old = "free_before ss1 @ [sz] @ free_after ss2"
  let ?w = "span (free_before ss1) + (sz + 2) + span (free_after ss2)" and ?b = "p - 1"
  have b: "?b = a + span ss1" using R(2) by simp
  obtain m' where m': "ns_mem_free_and_merge_with_adjacent_blocks book ?b sz = Some (book\<lparr>mem := m'\<rparr>)"
    "regions_ok m' (holes_list book) (R1 @ (a, ?l1 @ [- (?w - 2)] @ ?l2) # R2)"
    "\<forall>c \<in> rest_kept R1 a ?l1 ?w ?l2 R2. m' c = mem book c" "m' ?b < 0"
    "same_outside (managed (holes_list book) R) (mem book) m'"
    using free_merge_ok [OF inv [unfolded R(1)] R(3) b refl refl refl] unfolding R(1) by blast
  let ?R' = "R1 @ (a, ?l1 @ [- (?w - 2)] @ ?l2) # R2" and ?book' = "count_free (book\<lparr>mem := m'\<rparr>) sz"
  have R': "R = R1 @ (a, ?l1 @ ?old @ ?l2) # R2" using R(1) neighbours_split by (metis append.assoc)
  have ok: "regions_ok (mem book) (holes_list book) R" using inv by (simp add: heap_inv_def)
  have nn: "0 \<le> span (free_before ss1)" "0 \<le> span (free_after ss2)" "0 \<le> span ss2" by (rule span_nonneg)+
  have sp: "span ?old = ?w" "span [- (?w - 2)] = ?w" using R(3) nn by simp_all
  have blk: "mem book ?b = sz" "mem book (?b + (1 + \<bar>sz\<bar>)) = sz"
    using ok R(1,3) b by (auto simp: regions_ok_def region_ok_def algebra_simps)
  have holds: "region_holds ?b sz (a, ss1 @ [sz] @ ss2)"
    using b R(3) nn span_nonneg [of ss1] by (simp add: region_holds_def region_end_def)
  have "pointer_address_validate book ?b sz"
    using region_find_unique [OF inv _ holds] R(1) by (auto simp: pointer_address_validate_def)
  then have res: "ns_mem_free book p = Some ?book'"
    using blk m'(1) R(3) hole_positive span_nonneg [of ss1] ok R(1,2)
    by (auto simp: ns_mem_free_def Let_def ns_mem_block_validate_def count_free_def
        regions_ok_def region_ok_def)
  have inv': "heap_inv ?book' ?R'"
    using m'(2) book_regions_update [of book R1 a ?l1 ?old ?l2 R2 "[- (?w - 2)]" m'] inv R' sp
    by (simp add: heap_inv_def count_free_def book_regions_def)
  have live': "live_blocks ?R' = rest_live R1 a ?l1 ?w ?l2 R2"
    unfolding live_blocks_stretch sp(2) using nn R(3) by simp
  have bs: "a + span ss1 = a + span ?l1 + span (free_before ss1)"
    by (metis add.assoc neighbours_split(1) span_append)
  have "live_at (a + span ?l1) ?old = {(p, sz)}"
    using free_sizes R(3) b bs by (simp del: diff_eq_eq add: eq_diff_eq)
  then have live: "live_blocks R = insert (p, sz) (rest_live R1 a ?l1 ?w ?l2 R2)"
    unfolding R' live_blocks_stretch sp(1) by (simp only: Un_insert_right Un_empty_right)
  have kept: "{q - 1..q + k} \<subseteq> rest_kept R1 a ?l1 ?w ?l2 R2" if "(q, k) \<in> rest_live R1 a ?l1 ?w ?l2 R2" for q k
    using that by (rule rest_live_kept)
  have "(p, sz) \<notin> rest_live R1 a ?l1 ?w ?l2 R2"
  proof
    assume "(p, sz) \<in> rest_live R1 a ?l1 ?w ?l2 R2"
    then have "p \<in> rest_kept R1 a ?l1 ?w ?l2 R2" using kept R(3) by force
    then have "p < a + span ?l1 \<or> a + span ?l1 + ?w \<le> p"
      using rest_kept_outside [OF ok [unfolded R'], unfolded sp] by blast
    with bs show False using R(2,3) nn by auto
  qed
  then have live2: "live_blocks ?R' = live_blocks R - {(p, sz)}" using live live' by auto
  have same: "mem ?book' c = mem book c" if "(q, k) \<in> live_blocks R - {(p, sz)}" "c \<in> {q - 1..q + k}" for q k c
  proof -
    have "(q, k) \<in> rest_live R1 a ?l1 ?w ?l2 R2" using that(1) live by blast
    then have "c \<in> rest_kept R1 a ?l1 ?w ?l2 R2" using kept that(2) by blast
    with m'(3) show ?thesis by (simp add: count_free_def)
  qed
  have ls: "live_sizes R = live_sizes R1 @ filter (\<lambda>s. 0 < s) ?l1 @ [sz] @ filter (\<lambda>s. 0 < s) ?l2 @ live_sizes R2"
    unfolding R' using free_sizes R(3) by simp
  have ls': "live_sizes ?R' = live_sizes R1 @ filter (\<lambda>s. 0 < s) ?l1 @ filter (\<lambda>s. 0 < s) ?l2 @ live_sizes R2"
    using R(3) nn by simp
  have "stats_ok book R \<longrightarrow> stats_ok ?book' ?R'"
    unfolding stats_ok_def live_bytes_def ls ls'
    by (auto simp: count_free_def Let_def WORD_SIZE_def algebra_simps)
  moreover have "extents ?R' = extents R" unfolding R' using sp by (simp add: extents_def region_end_def)
  moreover have "same_outside (managed (holes_list book) R) (mem book) (mem ?book')" "holes_list ?book' = holes_list book"
    using m'(5) by (simp_all add: count_free_def)
  ultimately have "releases book R p sz ?book' ?R'"
    unfolding releases_def using inv' live2 same by blast
  with res m'(4) show ?thesis by blast
qed

end
