(* ===== verification/DynMemInit.thy ===== *)
theory DynMemInit
  imports DynMemAlloc DynMemFree
begin

text \<open>
  Initialisation establishes the heap invariant inside the given buffer, and adding a region keeps it.
\<close>

section \<open>Initialisation\<close>

lemma uint_minus_le: "uint c \<le> uint n \<Longrightarrow> uint (n - c) = uint n - uint c" for n c :: u32
  by (simp add: uint_sub_if')

lemma uint_pad: "uint (WORD_SIZE - n mod WORD_SIZE) = 4 - uint n mod 4" for n :: u32
proof -
  have "uint (n mod WORD_SIZE) = uint n mod 4" by (simp add: WORD_SIZE_def uint_mod_distrib)
  moreover have "uint n mod 4 < 4" by simp
  ultimately show ?thesis by (subst uint_minus_le) (simp_all add: WORD_SIZE_def)
qed

lemma uint_mod_zero: "n mod WORD_SIZE = 0 \<longleftrightarrow> uint n mod 4 = 0" for n :: u32
  by (simp add: WORD_SIZE_def uint_mod_distrib word_uint_eq_iff)

lemma pad_mod: "(x + (4 - x mod 4)) mod 4 = 0" for x :: int
  by presburger

lemma align_region_bounds:
  assumes al: "align_region ptr n = (ptr', n')"
    and r: "uint ptr + uint n \<le> 2 ^ 32" "6 \<le> uint n"
  shows "uint ptr \<le> uint ptr' \<and> uint ptr' \<le> uint ptr + 3 \<and> uint ptr' mod 4 = 0 \<and>
    uint n - 6 \<le> uint n' \<and> uint ptr' + uint n' \<le> uint ptr + uint n"
proof -
  let ?pad = "\<lambda>x :: u32. if uint x mod 4 = 0 then 0 else 4 - uint x mod 4"
  obtain n1 where n1: "ptr' = (if uint ptr mod 4 = 0 then ptr else ptr + (WORD_SIZE - ptr mod WORD_SIZE))"
    "n1 = (if uint ptr mod 4 = 0 then n else n - (WORD_SIZE - ptr mod WORD_SIZE))"
    "n' = (if uint n1 mod 4 = 0 then n1 else n1 - (WORD_SIZE - n1 mod WORD_SIZE))"
    using al by (auto simp: align_region_def Let_def uint_mod_zero split: if_splits)
  have m: "0 \<le> uint x mod 4" "uint x mod 4 < 4" for x :: u32 by simp_all
  have u1: "uint n1 = uint n - ?pad ptr" "?pad ptr \<le> 3" "0 \<le> ?pad ptr"
    using n1(2) r m [of ptr] by (auto simp: uint_minus_le uint_pad)
  have u2: "uint n' = uint n1 - ?pad n1" "?pad n1 \<le> 3" "0 \<le> ?pad n1"
    using n1(3) u1 r m [of n1] by (auto simp: uint_minus_le uint_pad)
  have up: "uint ptr' = uint ptr + ?pad ptr"
    using n1(1) r u1 m [of ptr] by (auto simp: uint_plus_if' uint_pad)
  have "uint ptr' mod 4 = 0" unfolding up by (simp add: pad_mod)
  moreover define d1 d2 where "d1 = ?pad ptr" and "d2 = ?pad n1"
  ultimately show ?thesis
    using u1 [folded d1_def] u2 [folded d2_def] up [folded d1_def] r(2) by linarith
qed

text \<open>A heap that has just been set up: one region, one hole.\<close>

definition fresh_heap :: "addr \<Rightarrow> int \<Rightarrow> region list" where
  "fresh_heap start n = [(start, [- n])]"

lemma hole_list_single:
  assumes "apart hl e" "0 < e"
  shows "hole_list (ns_list_add_to_start (ns_list_init m hl) hl HOLE_LINK e) hl {e} [e]"
    "\<And>c. c \<notin> head_cells hl \<union> {e, e + 1} \<Longrightarrow>
       ns_list_add_to_start (ns_list_init m hl) hl HOLE_LINK e c = m c"
proof -
  have rep: "ns_list_rep (ns_list_init m hl) hl HOLE_LINK []" by (rule ns_list_init_rep)
  have fr: "fresh_entry hl HOLE_LINK [] e" using assms by (simp add: fresh_entry_def HOLE_LINK_def)
  show "hole_list (ns_list_add_to_start (ns_list_init m hl) hl HOLE_LINK e) hl {e} [e]"
    using ns_list_add_to_start_rep [OF rep fr] by (simp add: hole_list_def)
  show "ns_list_add_to_start (ns_list_init m hl) hl HOLE_LINK e c = m c"
    if "c \<notin> head_cells hl \<union> {e, e + 1}" for c
    using ns_list_add_to_start_frame [OF rep fr, of c] ns_list_init_frame [of c hl m] that
    by (simp add: HOLE_LINK_def)
qed

lemma fresh_heap_ok:
  assumes n: "2 \<le> n" and start: "0 < start" "hl + 2 \<le> start"
    and m': "m' = ns_list_add_to_start (ns_list_init (m(start := - n, start + (n + 1) := - n)) hl)
      hl HOLE_LINK (hole_from_block_start start)"
  shows "regions_ok m' hl (fresh_heap start n)"
    "\<And>c. c \<notin> {hl, hl + 1} \<union> {start..<start + n + 2} \<Longrightarrow> m' c = m c"
proof -
  have e: "hole_from_block_start start = start + 1" by (simp add: hole_from_block_start_def)
  have ap: "apart hl (start + 1)" "0 < start + 1" using start by (auto simp: apart_def)
  let ?headers = "m(start := - n, start + (n + 1) := - n)"
  note L = hole_list_single [OF ap, where m = ?headers]
  have keep: "m' c = ?headers c" if "c \<notin> {hl, hl + 1, start + 1, start + 2}" for c
    using that unfolding m' e by (intro L(2)) (auto simp: head_cells_def)
  have "m' start = - n" "m' (start + 1 + n) = - n"
    using keep [of start] keep [of "start + 1 + n"] n start(2) by auto
  moreover have "hole_list m' hl {start + 1} [start + 1]" using L(1) unfolding m' e .
  ultimately show "regions_ok m' hl (fresh_heap start n)"
    using n start by (auto simp: regions_ok_def fresh_heap_def region_ok_def region_end_def HOLE_T_SIZE_def)
  show "m' c = m c" if "c \<notin> {hl, hl + 1} \<union> {start..<start + n + 2}" for c
    using that keep [of c] n by auto
qed

lemma ns_mem_init_ok:
  assumes sz: "70 \<le> uint h_size" "uint heap + uint h_size \<le> 2 ^ 32"
  shows "\<exists>start n. heap_inv (ns_mem_init m heap h_size cb) (fresh_heap start n) \<and> 2 \<le> n \<and>
    uint heap + 48 \<le> 4 * start \<and> 4 * (start + n + 2) \<le> uint heap + uint h_size \<and>
    stats_ok (ns_mem_init m heap h_size cb) (fresh_heap start n) \<and>
    (\<forall>c. 4 * c + 3 < uint heap \<or> uint heap + uint h_size \<le> 4 * c \<longrightarrow> mem (ns_mem_init m heap h_size cb) c = m c)"
proof -
  obtain p s where al: "align_region heap h_size = (p, s)" by (metis surj_pair)
  have bd: "uint heap \<le> uint p" "uint p mod 4 = 0" "uint h_size - 6 \<le> uint s"
    "uint p + uint s \<le> uint heap + uint h_size"
    using align_region_bounds [OF al] sz by auto
  define base where "base = uint p div 4"
  define n where "n = uint ((s - BOOK_SIZE) div WORD_SIZE) - 2"
  let ?start = "base + 12" and ?hl = "base + HOLES_LIST_OFFSET"
  have hs: "uint (s - BOOK_SIZE) = uint s - 48"
    using bd(3) sz by (subst uint_minus_le) (simp_all add: BOOK_SIZE_def)
  have n: "n = (uint s - 48) div 4 - 2" by (simp add: n_def uint_div_distrib hs WORD_SIZE_def)
  have n2: "2 \<le> n" using bd(3) sz unfolding n by linarith
  have pb: "uint p = 4 * base" using bd(2) by (auto simp: base_def)
  have b0: "0 \<le> base" by (simp add: base_def pos_imp_zdiv_nonneg_iff)
  define m' where "m' = ns_list_add_to_start (ns_list_init (m(?start := - n, ?start + (n + 1) := - n)) ?hl)
      ?hl HOLE_LINK (hole_from_block_start ?start)"
  have init: "ns_mem_init m heap h_size cb =
    \<lparr>heap_main = [?start, NULL, NULL], heap_main_end = [?start + (n + 1), NULL, NULL],
      mem_stat_info = zero_stats\<lparr>heap_sector_size := s - BOOK_SIZE\<rparr>,
      heap_failure_callback = cb, holes_list = ?hl, heap_size = s - BOOK_SIZE,
      temporary_alloc_heap_limit = default_limit (s - BOOK_SIZE), mem = m', failures = []\<rparr>"
    unfolding m'_def base_def n_def by (simp add: ns_mem_init_def al Let_def BOOK_SIZE_def)
  have st: "0 < ?start" "?hl + 2 \<le> ?start" using b0 by (auto simp: HOLES_LIST_OFFSET_def)
  note fresh = fresh_heap_ok [OF n2 st m'_def]
  have inv: "heap_inv (ns_mem_init m heap h_size cb) (fresh_heap ?start n)"
    unfolding heap_inv_def init
    using n2 fresh(1) by (simp add: book_regions_def fresh_heap_def region_end_def REGION_COUNT_def numeral_eq_Suc)
  have st: "stats_ok (ns_mem_init m heap h_size cb) (fresh_heap ?start n)"
    using n2 by (simp add: init stats_ok_def zero_stats_def fresh_heap_def live_sizes_def live_bytes_def)
  have "4 * ((uint s - 48) div 4) \<le> uint s - 48" by (simp add: minus_mod_eq_mult_div [symmetric])
  then have ends: "4 * (?start + n + 2) \<le> uint p + uint s" using n pb by simp
  have out: "mem (ns_mem_init m heap h_size cb) c = m c"
    if "4 * c + 3 < uint heap \<or> uint heap + uint h_size \<le> 4 * c" for c
  proof -
    have "c < base \<or> ?start + n + 2 \<le> c" using that bd(1,4) pb ends by auto
    then have "m' c = m c" using n2 by (intro fresh(2)) (auto simp: HOLES_LIST_OFFSET_def)
    then show ?thesis by (simp add: init)
  qed
  show ?thesis
    using inv n2 st ends bd pb out
    by (intro exI [of _ ?start] exI [of _ n]) auto
qed

section \<open>Adding a region\<close>

lemma walk_region_add:
  assumes "e \<notin> set xs"
  shows "walk (region_add_body e) prev xs =
    Inr (case filter (\<lambda>x. x < e) xs of [] \<Rightarrow> prev | ys \<Rightarrow> last ys)"
  using assms
proof (induction xs arbitrary: prev)
  case (Cons x xs)
  then show ?case by (cases "x < e") (simp_all add: region_add_body_def split: list.split)
qed simp

lemma walk_region_add_found:
  assumes "e \<in> set xs"
  shows "walk (region_add_body e) prev xs = Inl (-2)"
  using assms by (induction xs arbitrary: prev) (auto simp: region_add_body_def)

lemma region_add_loop_walk:
  assumes rep: "ns_list_rep m hl HOLE_LINK xs"
  shows "region_add_loop m e (ns_list_get_first m hl) prev = Some (walk (region_add_body e) prev xs)"
proof (rule forwards.foreach [OF _ rep])
  show "region_add_loop m e p acc =
    (if p = NULL then Some (Inr acc) else case region_add_body e acc p of
       Inl r \<Rightarrow> Some (Inl r)
     | Inr acc' \<Rightarrow> region_add_loop m e (ns_list_get_next m HOLE_LINK p) acc')" for p acc
    by (subst region_add_loop.simps) (rule refl)
qed

lemma sorted_below_above:
  assumes "sorted_wrt (<) xs" "(e :: int) \<notin> set xs"
  shows "xs = filter (\<lambda>x. x < e) xs @ filter (\<lambda>x. e < x) xs"
  using assms
proof (induction xs)
  case (Cons x xs)
  show ?case
  proof (cases "x < e")
    case False
    with Cons.prems have "x' > e" if "x' \<in> set xs" for x' using that by force
    then have "filter (\<lambda>x. x < e) xs = []" "filter (\<lambda>x. e < x) xs = xs"
      by (auto simp: filter_empty_conv filter_id_conv not_less less_imp_le)
    with False Cons.prems show ?thesis by auto
  qed (use Cons in auto)
qed simp

lemma region_save_free:
  assumes "book_regions book R" "length R < REGION_COUNT" "\<forall>r \<in> set R. fst r \<noteq> 0"
  shows "ns_dyn_mem_region_save book start n =
    (0, book\<lparr>heap_main := (heap_main book)[length R := start],
             heap_main_end := (heap_main_end book)[length R := start + n]\<rparr>)"
  using assms
  by (cases rule: book_regions_cases [OF assms(1)])
     (auto simp: ns_dyn_mem_region_save_def REGION_COUNT_def upt_rec numeral_eq_Suc)

lemma book_regions_added:
  assumes "book_regions book R" "length R < REGION_COUNT"
  shows "book_regions (book\<lparr>heap_main := (heap_main book)[length R := fst r],
      heap_main_end := (heap_main_end book)[length R := region_end r - 1]\<rparr>) (R @ [r])"
  using assms
  by (cases rule: book_regions_cases [OF assms(1)])
     (auto simp: book_regions_def REGION_COUNT_def numeral_eq_Suc)


lemma regions_ok_add:
  assumes ok: "regions_ok m hl R" and r: "region_ok m' hl r" "\<forall>r' \<in> set R. disjoint_regions r' r"
    and same: "\<And>c. c \<in> kept_cells R \<Longrightarrow> m' c = m c"
    and list: "hole_list m' hl (hole_set (R @ [r])) xs"
  shows "regions_ok m' hl (R @ [r])"
proof -
  have "region_ok m' hl r'" if "r' \<in> set R" for r'
  proof (rule region_ok_cong)
    show "region_ok m hl r'" using ok that by (simp add: regions_ok_def)
    show "m' c = m c" if "c \<in> kept_at (fst r') (snd r')" for c
      using kept_cells_memb [OF \<open>r' \<in> set R\<close> that] by (rule same)
  qed
  then show ?thesis using ok r list by (auto simp: regions_ok_def sorted_wrt_append)
qed

lemma region_add_ok:
  assumes inv: "heap_inv book R" and len: "length R < REGION_COUNT"
    and al: "align_region ptr n = (ptr', n')"
    and start: "start = uint ptr' div 4" "0 < start" and k: "k = uint (n' div WORD_SIZE) - 2" "2 \<le> k"
    and fresh: "\<forall>r \<in> set R. disjoint_regions r (start, [- k])"
      "holes_list book + 2 \<le> start \<or> start + k + 2 \<le> holes_list book"
  shows "\<exists>book'. region_add_book book ptr n = Some (0, book') \<and> heap_inv book' (R @ [(start, [- k])]) \<and>
    (\<forall>(q, s) \<in> live_blocks R. \<forall>c \<in> {q - 1..q + s}. mem book' c = mem book c) \<and>
    (stats_ok book R \<longrightarrow> stats_ok book' (R @ [(start, [- k])])) \<and>
    heap_size book' = heap_size book + n' \<and> temporary_alloc_heap_limit book' = default_limit (heap_size book + n') \<and>
    heap_sector_size (mem_stat_info book') = heap_size book + n'"
proof -
  let ?r = "(start, [- k])" and ?hl = "holes_list book" and ?e = "start + 1"
  have ok: "regions_ok (mem book) ?hl R" and br: "book_regions book R" using inv by (auto simp: heap_inv_def)
  obtain xs where xs: "hole_list (mem book) ?hl (hole_set R) xs" using ok by (auto simp: regions_ok_def)
  define m1 where "m1 = (mem book)(start := - k, start + (k + 1) := - k)"
  have re: "region_end ?r = start + k + 2" using k by (simp add: region_end_def)
  have apart: "region_end r \<le> start \<or> start + k + 2 \<le> fst r" if "r \<in> set R" for r
    using fresh(1) that re by (auto simp: disjoint_regions_def)
  have hole_out: "x + 3 \<le> start \<or> start + k + 3 \<le> x" if "x \<in> hole_set R" for x
    using that apart by (fastforce elim!: hole_set_bounds)
  have kept_out: "c < start \<or> start + k + 2 \<le> c" if "c \<in> kept_cells R" for c
    using that apart by (fastforce elim!: kept_cells_bounds)
  have set_xs: "set xs = hole_set R" using xs by (simp add: hole_list_def)
  have link_out: "c < start \<or> start + k + 2 \<le> c" if "c \<in> link_cells HOLE_LINK xs" for c
    using that hole_out set_xs by (fastforce simp: link_cells_def HOLE_LINK_def)
  have m1: "hole_list m1 ?hl (hole_set R) xs"
  proof (rule hole_list_frame [OF xs])
    show "m1 c = mem book c" if "c \<in> head_cells ?hl \<union> link_cells HOLE_LINK xs" for c
      using that link_out [of c] fresh(2) k(2) by (auto simp: m1_def head_cells_def)
  qed
  have e: "?e \<notin> set xs" using hole_out [of ?e] set_xs k(2) by auto
  let ?as = "filter (\<lambda>x. x < ?e) xs" and ?bs = "filter (\<lambda>x. ?e < x) xs"
  have srt: "sorted_wrt (<) xs" using xs by (simp add: hole_list_def)
  have split: "xs = ?as @ ?bs" using srt e by (rule sorted_below_above)
  have rep: "ns_list_rep m1 ?hl HOLE_LINK xs" using m1 by (simp add: hole_list_def)
  have loop: "region_add_loop m1 ?e (ns_list_get_first m1 ?hl) NULL =
    Some (Inr (if ?as = [] then NULL else last ?as))"
    using region_add_loop_walk [OF rep] walk_region_add [OF e] by (simp split: list.split)
  have nh: "new_hole ?hl ?as ?e ?bs"
    using hole_out set_xs start(2) k(2) fresh(2) unfolding new_hole_def apart_def by fastforce
  define m2 where "m2 = (if ?as \<noteq> [] then ns_list_add_after m1 ?hl HOLE_LINK (last ?as) ?e
    else ns_list_add_to_start m1 ?hl HOLE_LINK ?e)"
  have m1s: "hole_list m1 ?hl (hole_set R) (?as @ ?bs)" using m1 split by simp
  note ins = insert_after_hole [OF m1s nh m2_def]
  have nn: "?as \<noteq> [] \<Longrightarrow> last ?as \<noteq> NULL"
  proof -
    assume "?as \<noteq> []"
    then have "last ?as \<in> set ?as" by (rule last_in_set)
    then show "last ?as \<noteq> NULL" using hole_positive(1) [OF ok, of "last ?as"] set_xs by auto
  qed
  let ?sz = "heap_size book + n'"
  let ?book' = "book\<lparr>heap_main := (heap_main book)[length R := start],
      heap_main_end := (heap_main_end book)[length R := region_end ?r - 1], mem := m2, heap_size := ?sz,
      mem_stat_info := (mem_stat_info book)\<lparr>heap_sector_size := ?sz\<rparr>,
      temporary_alloc_heap_limit := default_limit ?sz\<rparr>"
  have br1: "book_regions (book\<lparr>mem := m1\<rparr>) R" using br by (simp add: book_regions_def)
  have nz: "\<forall>r \<in> set R. fst r \<noteq> 0" using ok by (auto simp: regions_ok_def region_ok_def)
  have sv: "ns_dyn_mem_region_save (book\<lparr>mem := m1\<rparr>) start (uint (n' div WORD_SIZE) - 1) =
    (0, book\<lparr>mem := m1, heap_main := (heap_main book)[length R := start],
       heap_main_end := (heap_main_end book)[length R := region_end ?r - 1]\<rparr>)"
  proof -
    have A: "uint (n' div WORD_SIZE) - 1 = k + 1" and B: "region_end ?r - 1 = start + (k + 1)"
      using k(1) re by auto
    show ?thesis using region_save_free [OF br1 len nz, of start "k + 1"] unfolding A B by simp
  qed
  have res: "region_add_book book ptr n = Some (0, ?book')"
    unfolding region_add_book_def al Let_def prod.case start(1) [symmetric] k(1) [symmetric]
      m1_def [symmetric] hole_from_block_start_def m2_def
    using loop nn sv by simp
  have m2_out: "m2 c = m1 c" if "c \<notin> {?e, ?e + 1} \<union> head_cells ?hl \<union> link_cells HOLE_LINK xs" for c
    using ins(2) that unfolding split [symmetric] by (simp add: same_outside_def)
  have same: "m2 c = mem book c" if c: "c \<in> kept_cells R" for c
  proof -
    have "c \<notin> head_cells ?hl" using ok c by (rule head_cells_not_kept)
    moreover have "c \<notin> link_cells HOLE_LINK xs"
    proof
      assume "c \<in> link_cells HOLE_LINK xs"
      then obtain x where "x \<in> set xs" "c = x \<or> c = x + 1" by (auto simp: link_cells_def HOLE_LINK_def)
      with set_xs hole_cells_not_kept [OF ok _ c] show False by auto
    qed
    ultimately have "m2 c = m1 c" using kept_out [OF c] k(2) by (intro m2_out) auto
    then show ?thesis using kept_out [OF c] k(2) by (auto simp: m1_def)
  qed
  have bnd: "m2 c = - k" if "c = start \<or> c = start + 1 + k" for c
  proof -
    have "c \<notin> {?e, ?e + 1} \<union> head_cells ?hl \<union> link_cells HOLE_LINK xs"
      using that link_out [of c] fresh(2) k(2) by (auto simp: head_cells_def)
    then have "m2 c = m1 c" by (rule m2_out)
    then show ?thesis using that by (auto simp: m1_def)
  qed
  have "region_ok m2 ?hl ?r" using bnd k start fresh(2) re by (simp add: region_ok_def)
  moreover have "hole_list m2 ?hl (hole_set (R @ [?r])) (?as @ ?e # ?bs)"
    using ins(1) k(2) by (simp add: HOLE_T_SIZE_def)
  ultimately have "regions_ok m2 ?hl (R @ [?r])" using regions_ok_add [OF ok _ fresh(1) same] by blast
  then have inv': "heap_inv ?book' (R @ [?r])"
    using book_regions_added [OF br len, of ?r] by (simp add: heap_inv_def book_regions_def)
  have live: "mem ?book' c = mem book c" if "(q, s) \<in> live_blocks R" "c \<in> {q - 1..q + s}" for q s c
    using that live_at_kept by (simp, intro same) (fastforce simp: live_blocks_def kept_cells_def)
  have "stats_ok book R \<longrightarrow> stats_ok ?book' (R @ [?r])"
    using k(2) by (simp add: stats_ok_def live_bytes_def)
  with res inv' live show ?thesis by (intro exI [of _ ?book']) auto
qed

end
