(* ===== verification/DynMemSpec.thy ===== *)
theory DynMemSpec
  imports DynMemInit
begin

text \<open>
  What the heap promises. The layout is determined by the extents of the regions and the allocated
  blocks, so releasing and merging leave no trace; and the contract \<open>block_heap\<close> between a heap and its
  clients, which the allocator provides: a client that releases only what it owns never meets an
  error, in any order of calls.
\<close>

section \<open>A layout is determined by its allocated blocks\<close>

lemma live_at_cases:
  "(p, n) \<in> live_at a (s # ss) \<longleftrightarrow>
     p = a + 1 \<and> n = s \<and> 0 < s \<or> a + \<bar>s\<bar> + 3 \<le> p \<and> (p, n) \<in> live_at (a + (\<bar>s\<bar> + 2)) ss"
  using live_at_bounds [of p n "a + (\<bar>s\<bar> + 2)" ss] by auto

lemma live_at_tail:
  "live_at (a + (\<bar>s\<bar> + 2)) ss = {(p, n) \<in> live_at a (s # ss). a + \<bar>s\<bar> + 3 \<le> p}"
  using live_at_bounds [of _ _ "a + (\<bar>s\<bar> + 2)" ss] by (force simp: live_at_cases simp del: live_at.simps)

lemma live_at_after_free:
  assumes "coalesced (s # ss)" "s < 0" "ss \<noteq> []" "\<forall>t \<in> set ss. t \<noteq> 0"
  shows "(a + \<bar>s\<bar> + 3, hd ss) \<in> live_at a (s # ss)"
  using assms by (cases ss) auto

lemma first_block_same:
  assumes c: "coalesced (s # ss)" "coalesced (s' # ts)" and nz: "\<forall>t \<in> set (s # ss). t \<noteq> 0" "\<forall>t \<in> set (s' # ts). t \<noteq> 0"
    and sp: "span (s # ss) = span (s' # ts)" and live: "live_at a (s # ss) = live_at a (s' # ts)"
  shows "s = s'"
proof -
  have pos: "s = s'" if "0 < s" "live_at a (s # ss) = live_at a (s' # ts)" for s s' ss ts
  proof -
    have "(a + 1, s) \<in> live_at a (s' # ts)" by (subst that(2) [symmetric]) (use that(1) in simp)
    then show ?thesis unfolding live_at_cases by auto
  qed
  have le: "\<bar>s'\<bar> \<le> \<bar>s\<bar>"
    if c: "coalesced (s # ss)" "coalesced (s' # ts)" and n: "s < 0" "s' < 0"
      and nz: "\<forall>t \<in> set (s # ss). t \<noteq> 0" "\<forall>t \<in> set (s' # ts). t \<noteq> 0"
      and sp: "span (s # ss) = span (s' # ts)" and live: "live_at a (s # ss) = live_at a (s' # ts)"
    for s s' ss ts
  proof (cases ss)
    case Nil
    have "ts = []"
    proof (rule ccontr)
      assume "ts \<noteq> []"
      with live_at_after_free [OF c(2) n(2) this, of a] nz(2) live
      have "(a + \<bar>s'\<bar> + 3, hd ts) \<in> live_at a (s # ss)" by simp
      then show False using Nil n(1) by simp
    qed
    then show ?thesis using Nil sp by simp
  next
    case (Cons t us)
    have "(a + \<bar>s\<bar> + 3, hd ss) \<in> live_at a (s' # ts)"
      unfolding live [symmetric] using nz(1) Cons by (intro live_at_after_free [OF c(1) n(1)]) simp_all
    then show ?thesis using n(2) unfolding live_at_cases by auto
  qed
  consider "0 < s" | "0 < s'" | "s < 0" "s' < 0" using nz by force
  then show ?thesis
  proof cases
    case 3
    have "\<bar>s'\<bar> \<le> \<bar>s\<bar>" by (rule le [OF c 3 nz sp live])
    moreover have "\<bar>s\<bar> \<le> \<bar>s'\<bar>" by (rule le [OF c(2,1) 3(2,1) nz(2,1) sp [symmetric] live [symmetric]])
    ultimately show ?thesis using 3 by simp
  qed (use pos live in \<open>metis+\<close>)
qed

lemma layout_unique:
  assumes "coalesced ss" "coalesced ss'" "\<forall>t \<in> set ss. t \<noteq> 0" "\<forall>t \<in> set ss'. t \<noteq> 0"
    "span ss = span ss'" "live_at a ss = live_at a ss'"
  shows "ss = ss'"
  using assms
proof (induction ss arbitrary: a ss')
  case Nil
  then show ?case using span_pos [of ss'] by auto
next
  case (Cons s ss)
  have "ss' \<noteq> []" using Cons.prems(5) span_pos [of "s # ss"] by auto
  then obtain s' ts where ss': "ss' = s' # ts" by (cases ss') auto
  have "s = s'" using first_block_same [OF Cons.prems [unfolded ss']] .
  moreover have "live_at (a + (\<bar>s\<bar> + 2)) ss = live_at (a + (\<bar>s\<bar> + 2)) ts"
    unfolding live_at_tail [of a s ss] live_at_tail [of a s ts] using Cons.prems(6) ss' calculation
    by (simp only:)
  ultimately show ?case
    using Cons.IH [of ts "a + (\<bar>s\<bar> + 2)"] Cons.prems ss' by (simp add: coalesced_Cons)
qed

lemma blocks_at_nonzero: "blocks_at m a ss \<Longrightarrow> \<forall>t \<in> set ss. t \<noteq> 0"
  by (induction ss arbitrary: a) auto

lemma live_at_in_region:
  assumes ok: "regions_ok m hl R" and r: "r \<in> set R"
  shows "live_at (fst r) (snd r) = {(p, n) \<in> live_blocks R. fst r \<le> p \<and> p < region_end r}"
proof -
  have in_r: "fst r \<le> p \<and> p < region_end r" if "(p, n) \<in> live_at (fst r) (snd r)" for p n
    using live_at_bounds [OF that] by (simp add: region_end_def)
  have "(p, n) \<in> live_at (fst r) (snd r)" if p: "(p, n) \<in> live_blocks R" "fst r \<le> p" "p < region_end r" for p n
  proof -
    obtain r' where r': "r' \<in> set R" "(p, n) \<in> live_at (fst r') (snd r')"
      using p(1) by (auto simp: live_blocks_def)
    have "r' = r" using regions_apart [OF ok r r'(1)] live_at_bounds [OF r'(2)] p(2,3)
      by (auto simp: region_end_def)
    with r'(2) show ?thesis by simp
  qed
  moreover have "live_at (fst r) (snd r) \<subseteq> live_blocks R" using r by (auto simp: live_blocks_def)
  ultimately show ?thesis using in_r by auto
qed

lemma heap_layout_unique:
  assumes ok: "regions_ok m hl R" "regions_ok m' hl' R'" and ext: "extents R = extents R'"
    and live: "live_blocks R = live_blocks R'"
  shows "R = R'"
proof (rule nth_equalityI)
  show len: "length R = length R'" using ext by (metis extents_def length_map)
  fix i assume i: "i < length R"
  let ?r = "R ! i" and ?r' = "R' ! i"
  have e: "fst ?r = fst ?r'" "region_end ?r = region_end ?r'"
    using arg_cong [OF ext, of "\<lambda>l. l ! i"] i len by (simp_all add: extents_def)
  have mem: "?r \<in> set R" "?r' \<in> set R'" using i len by auto
  have "snd ?r = snd ?r'"
  proof (rule layout_unique [where a = "fst ?r"])
    show "live_at (fst ?r) (snd ?r) = live_at (fst ?r) (snd ?r')"
      using live_at_in_region [OF ok(1) mem(1)] live_at_in_region [OF ok(2) mem(2)] e live by simp
    show "span (snd ?r) = span (snd ?r')" using e by (simp add: region_end_def)
  next
    have r: "region_ok m hl ?r" "region_ok m' hl' ?r'" using ok mem by (auto simp: regions_ok_def)
    show "coalesced (snd ?r)" "coalesced (snd ?r')" using r by (auto simp: region_ok_def)
    show "\<forall>t \<in> set (snd ?r). t \<noteq> 0" "\<forall>t \<in> set (snd ?r'). t \<noteq> 0"
      using r blocks_at_nonzero unfolding region_ok_def by blast+
  qed
  with e(1) show "?r = ?r'" by (metis prod.expand)
qed


section \<open>The contract of a heap and its clients\<close>

text \<open>
  What a client relies on, whatever the heap: the blocks it owns are disjoint, every call returns,
  allocation adds one block and release removes one, the data of all other blocks stays, and no
  fault is reported. \<open>tell\<close> is what the client reads in memory, \<open>faults\<close> what was reported.
\<close>

datatype 'r client_call = Allocate 'r | Release nat

fun heap_run :: "('h \<Rightarrow> 'r \<Rightarrow> (addr \<times> 'h) option) \<Rightarrow> ('h \<Rightarrow> addr \<Rightarrow> 'h option) \<Rightarrow>
    'h \<Rightarrow> addr list \<Rightarrow> 'r client_call list \<Rightarrow> ('h \<times> addr list) option" where
  "heap_run al fr h owned [] = Some (h, owned)"
| "heap_run al fr h owned (Allocate r # calls) =
     (case al h r of
        None \<Rightarrow> None
      | Some (p, h') \<Rightarrow> heap_run al fr h' (if p = NULL then owned else owned @ [p]) calls)"
| "heap_run al fr h owned (Release i # calls) =
     (if i < length owned then
        (case fr h (owned ! i) of
           None \<Rightarrow> None
         | Some h' \<Rightarrow> heap_run al fr h' (take i owned @ drop (Suc i) owned) calls)
      else heap_run al fr h owned calls)"

lemma distinct_drop_nth:
  assumes "distinct xs" "i < length xs"
  shows "distinct (take i xs @ drop (Suc i) xs) \<and> set (take i xs @ drop (Suc i) xs) = set xs - {xs ! i}"
proof -
  obtain as b bs where s: "as = take i xs" "b = xs ! i" "bs = drop (Suc i) xs" by blast
  have "xs = as @ b # bs" unfolding s using assms(2) by (rule id_take_nth_drop)
  with assms(1) have "distinct (as @ bs) \<and> set (as @ bs) = set xs - {b}" by auto
  then show ?thesis unfolding s .
qed

lemma image_fst_remove:
  assumes "\<And>k. (p, k) \<in> A \<Longrightarrow> k = n"
  shows "fst ` (A - {(p, n)}) = fst ` A - {p}"
proof
  show "fst ` (A - {(p, n)}) \<subseteq> fst ` A - {p}" using assms by auto
  show "fst ` A - {p} \<subseteq> fst ` (A - {(p, n)})" by force
qed

locale block_heap =
  fixes inv :: "'h \<Rightarrow> 'l \<Rightarrow> bool"
    and live :: "'l \<Rightarrow> (addr \<times> int) set"
    and tell :: "'h \<Rightarrow> memory"
    and faults :: "'h \<Rightarrow> 'f list"
    and al :: "'h \<Rightarrow> 'r \<Rightarrow> (addr \<times> 'h) option"
    and fr :: "'h \<Rightarrow> addr \<Rightarrow> 'h option"
  assumes live_block: "inv h l \<Longrightarrow> (p, n) \<in> live l \<Longrightarrow> 0 < p \<and> 0 < n"
    and live_apart: "inv h l \<Longrightarrow> (p, n) \<in> live l \<Longrightarrow> (q, k) \<in> live l \<Longrightarrow>
      (p, n) = (q, k) \<or> p + n + 2 \<le> q \<or> q + k + 2 \<le> p"
    and al_law: "inv h l \<Longrightarrow> \<exists>p h' l'. al h r = Some (p, h') \<and> inv h' l' \<and> faults h' = faults h \<and>
      (p = NULL \<and> live l' = live l \<or> (\<exists>n. live l' = insert (p, n) (live l) \<and> (\<forall>k. (p, k) \<notin> live l))) \<and>
      (\<forall>(q, k) \<in> live l. \<forall>c \<in> {q..<q + k}. tell h' c = tell h c)"
    and fr_law: "inv h l \<Longrightarrow> (p, n) \<in> live l \<Longrightarrow> \<exists>h' l'. fr h p = Some h' \<and> inv h' l' \<and> faults h' = faults h \<and>
      live l' = live l - {(p, n)} \<and>
      (\<forall>(q, k) \<in> live l - {(p, n)}. \<forall>c \<in> {q..<q + k}. tell h' c = tell h c)"
begin

lemma live_start_unique: "inv h l \<Longrightarrow> (p, n) \<in> live l \<Longrightarrow> (p, k) \<in> live l \<Longrightarrow> n = k"
  using live_apart [of h l p n p k] live_block [of h l p n] live_block [of h l p k] by auto

text \<open>
  A client that releases only blocks it owns: every call returns, what it owns is what is allocated,
  no two of its blocks overlap, and the heap reports no fault.
\<close>

lemma run_ok:
  assumes "inv h l" "distinct owned" "set owned = fst ` live l"
  shows "\<exists>h' owned' l'. heap_run al fr h owned calls = Some (h', owned') \<and> inv h' l' \<and>
    distinct owned' \<and> set owned' = fst ` live l' \<and> faults h' = faults h"
  using assms
proof (induction calls arbitrary: h l owned)
  case Nil
  then show ?case by auto
next
  case (Cons c calls)
  show ?case
  proof (cases c)
    case (Allocate r)
    obtain p h' l' where a: "al h r = Some (p, h')" "inv h' l'" "faults h' = faults h"
      "p = NULL \<and> live l' = live l \<or> (\<exists>n. live l' = insert (p, n) (live l) \<and> (\<forall>k. (p, k) \<notin> live l))"
      using al_law [OF Cons.prems(1), of r] by blast
    let ?owned = "if p = NULL then owned else owned @ [p]"
    have "distinct ?owned \<and> set ?owned = fst ` live l'"
    proof (cases "p = NULL")
      case True
      have "live l' = live l" using a(2,4) live_block [of h' l' p] True by (metis insertI1 less_irrefl)
      then show ?thesis using True Cons.prems by simp
    next
      case False
      with a(4) Cons.prems(2,3) show ?thesis by force
    qed
    then show ?thesis using Cons.IH [OF a(2), of ?owned] a(1,3) Allocate by simp
  next
    case (Release i)
    show ?thesis
    proof (cases "i < length owned")
      case True
      then have "owned ! i \<in> fst ` live l" using Cons.prems(3) by force
      then obtain n where n: "(owned ! i, n) \<in> live l" by auto
      then obtain h' l' where f: "fr h (owned ! i) = Some h'" "inv h' l'" "faults h' = faults h"
        "live l' = live l - {(owned ! i, n)}" using fr_law [OF Cons.prems(1) n] by blast
      let ?owned = "take i owned @ drop (Suc i) owned"
      have d: "distinct ?owned" "set ?owned = set owned - {owned ! i}"
        using distinct_drop_nth [OF Cons.prems(2) True] by auto
      have "fst ` live l' = fst ` live l - {owned ! i}"
        unfolding f(4) by (rule image_fst_remove) (rule live_start_unique [OF Cons.prems(1) _ n])
      then have "set ?owned = fst ` live l'" using d(2) Cons.prems(3) by simp
      from Cons.IH [OF f(2) d(1) this] show ?thesis using f(1,3) Release True by simp
    next
      case False
      then show ?thesis using Cons Release by simp
    qed
  qed
qed

text \<open>
  A client among others, which owns some of the blocks: what the others own stays allocated with its contents.
\<close>

lemma run_isolated:
  assumes "inv h l" "distinct owned" "set owned \<subseteq> fst ` live l"
  shows "\<exists>h' owned' l'. heap_run al fr h owned calls = Some (h', owned') \<and> inv h' l' \<and> faults h' = faults h \<and>
    distinct owned' \<and> set owned' \<subseteq> fst ` live l' \<and>
    {b \<in> live l'. fst b \<notin> set owned'} = {b \<in> live l. fst b \<notin> set owned} \<and>
    (\<forall>(q, k) \<in> live l. q \<notin> set owned \<longrightarrow> (\<forall>c \<in> {q..<q + k}. tell h' c = tell h c))"
  using assms
proof (induction calls arbitrary: h l owned)
  case Nil
  then show ?case by auto
next
  case (Cons c calls)
  have step: ?case
    if nx: "heap_run al fr h owned (c # calls) = heap_run al fr h1 owned1 calls" "inv h1 l1" "faults h1 = faults h"
      and own: "distinct owned1" "set owned1 \<subseteq> fst ` live l1"
      and others: "{b \<in> live l1. fst b \<notin> set owned1} = {b \<in> live l. fst b \<notin> set owned}"
      and data: "\<forall>(q, k) \<in> live l. q \<notin> set owned \<longrightarrow> (\<forall>c \<in> {q..<q + k}. tell h1 c = tell h c)" for h1 l1 owned1
  proof -
    obtain h' owned' l' where r: "heap_run al fr h1 owned1 calls = Some (h', owned')" "inv h' l'" "faults h' = faults h1"
      "distinct owned'" "set owned' \<subseteq> fst ` live l'"
      "{b \<in> live l'. fst b \<notin> set owned'} = {b \<in> live l1. fst b \<notin> set owned1}"
      "\<forall>(q, k) \<in> live l1. q \<notin> set owned1 \<longrightarrow> (\<forall>c \<in> {q..<q + k}. tell h' c = tell h1 c)"
      using Cons.IH [OF nx(2) own] by blast
    have "tell h' c = tell h c" if q: "(q, k) \<in> live l" "q \<notin> set owned" "c \<in> {q..<q + k}" for q k c
    proof -
      have "(q, k) \<in> {b \<in> live l1. fst b \<notin> set owned1}" unfolding others using q by simp
      then have "tell h' c = tell h1 c" using r(7) q(3) by auto
      also have "\<dots> = tell h c" using data q by auto
      finally show ?thesis .
    qed
    then have "\<forall>(q, k) \<in> live l. q \<notin> set owned \<longrightarrow> (\<forall>c \<in> {q..<q + k}. tell h' c = tell h c)" by blast
    with r nx(1,3) others show ?thesis by (intro exI [of _ h'] exI [of _ owned'] exI [of _ l']) simp
  qed
  show ?case
  proof (cases c)
    case (Allocate r)
    obtain p h1 l1 where a: "al h r = Some (p, h1)" "inv h1 l1" "faults h1 = faults h"
      "p = NULL \<and> live l1 = live l \<or> (\<exists>n. live l1 = insert (p, n) (live l) \<and> (\<forall>k. (p, k) \<notin> live l))"
      "\<forall>(q, k) \<in> live l. \<forall>c \<in> {q..<q + k}. tell h1 c = tell h c"
      using al_law [OF Cons.prems(1), of r] by blast
    have run: "heap_run al fr h owned (c # calls) = heap_run al fr h1 (if p = NULL then owned else owned @ [p]) calls"
      using a(1) Allocate by simp
    show ?thesis
    proof (cases "p = NULL")
      case True
      have l1: "live l1 = live l" using a(2,4) live_block [of h1 l1 p] True by (metis insertI1 less_irrefl)
      show ?thesis
        by (rule step [of h1 owned l1]) (use run a True Cons.prems in \<open>auto simp: l1\<close>)
    next
      case False
      with a(4) obtain n where n: "live l1 = insert (p, n) (live l)" "\<forall>k. (p, k) \<notin> live l" by blast
      then have p: "p \<notin> set owned" using Cons.prems(3) by auto
      have "{b \<in> live l1. fst b \<notin> set (owned @ [p])} = {b \<in> live l. fst b \<notin> set owned}" using n by auto
      then show ?thesis
        by (intro step [of h1 "owned @ [p]" l1]) (use run a False Cons.prems n(1) p in auto)
    qed
  next
    case (Release i)
    show ?thesis
    proof (cases "i < length owned")
      case True
      then have "owned ! i \<in> fst ` live l" using Cons.prems(3) by force
      then obtain n where n: "(owned ! i, n) \<in> live l" by auto
      then obtain h1 l1 where f: "fr h (owned ! i) = Some h1" "inv h1 l1" "faults h1 = faults h"
        "live l1 = live l - {(owned ! i, n)}"
        "\<forall>(q, k) \<in> live l - {(owned ! i, n)}. \<forall>c \<in> {q..<q + k}. tell h1 c = tell h c"
        using fr_law [OF Cons.prems(1) n] by blast
      let ?owned = "take i owned @ drop (Suc i) owned"
      have d: "distinct ?owned" "set ?owned = set owned - {owned ! i}"
        using distinct_drop_nth [OF Cons.prems(2) True] by auto
      have l1: "fst ` live l1 = fst ` live l - {owned ! i}"
        unfolding f(4) by (rule image_fst_remove) (rule live_start_unique [OF Cons.prems(1) _ n])
      have i: "owned ! i \<in> set owned" using True by simp
      have "(q, k) \<in> live l1 \<and> q \<notin> set ?owned \<longleftrightarrow> (q, k) \<in> live l \<and> q \<notin> set owned" for q k
      proof (cases "q = owned ! i")
        case True
        then show ?thesis using i live_start_unique [OF Cons.prems(1) n, of k] by (auto simp: f(4))
      next
        case False
        then show ?thesis unfolding d(2) f(4) by simp
      qed
      then have "{b \<in> live l1. fst b \<notin> set ?owned} = {b \<in> live l. fst b \<notin> set owned}"
        by (intro Collect_cong) (simp only: split_paired_all fst_conv)
      moreover have "tell h1 c = tell h c" if "(q, k) \<in> live l" "q \<notin> set owned" "c \<in> {q..<q + k}" for q k c
        using f(5) that i by fastforce
      moreover have "set ?owned \<subseteq> fst ` live l1" unfolding d(2) l1 using Cons.prems(3) by blast
      ultimately show ?thesis
        by (intro step [of h1 ?owned l1] d(1) f(2,3)) (use Release True f(1) in auto)
    next
      case False
      show ?thesis by (rule step [of h owned l]) (use Cons.prems False Release in auto)
    qed
  qed
qed

end

text \<open>The two allocation functions as one call: the request, and whether it is a temporary one.\<close>

definition book_alloc :: "ns_mem_book \<Rightarrow> u32 \<times> bool \<Rightarrow> (addr \<times> ns_mem_book) option" where
  "book_alloc book r =
     (case r of (n, temporary) \<Rightarrow> map_option (\<lambda>(p, b). (p, the b))
        (if temporary then ns_mem_temporary_alloc (Some book) n else ns_mem_alloc (Some book) n))"

text \<open>Reports of a broken heap, all but a request of an unusable size.\<close>

definition heap_faults :: "ns_mem_book \<Rightarrow> heap_fail_t list" where
  "heap_faults book = filter (\<lambda>f. f \<noteq> NS_DYN_MEM_ALLOCATE_SIZE_NOT_VALID) (failures book)"

definition heap_ok :: "ns_mem_book \<Rightarrow> region list \<Rightarrow> bool" where
  "heap_ok book R \<longleftrightarrow> heap_inv book R \<and> stats_ok book R"

text \<open>A heap that has come from another one: the same regions, and nothing written outside of them and the list head.\<close>

definition heap_from :: "ns_mem_book \<Rightarrow> region list \<Rightarrow> ns_mem_book \<Rightarrow> region list \<Rightarrow> bool" where
  "heap_from book0 R0 book R \<longleftrightarrow> heap_ok book R \<and> extents R = extents R0 \<and> holes_list book = holes_list book0 \<and>
     same_outside (managed (holes_list book0) R0) (mem book0) (mem book)"

lemma heap_from_refl: "heap_ok book R \<Longrightarrow> heap_from book R book R"
  by (simp add: heap_from_def)

lemma heap_from_trans: "heap_from b0 R0 b R \<Longrightarrow> heap_from b R b' R' \<Longrightarrow> heap_from b0 R0 b' R'"
  unfolding heap_from_def managed_def using same_outside_trans by auto

lemma heap_from_ok: "heap_from b0 R0 b R \<Longrightarrow> heap_ok b R"
  by (simp add: heap_from_def)

lemma internal_alloc_cases:
  assumes inv: "heap_inv book R"
  obtains (limit) "over_limit book direction"
      "internal_alloc_book book req direction = Some (NULL, count_failure book)"
  | (none) "\<not> over_limit book direction"
      "requested_words req = 0 \<or> (\<forall>x. \<not> fits book R (requested_words req) x)"
      "internal_alloc_book book req direction = Some (NULL, count_failure (report_size book req))"
  | (some) x where "\<not> over_limit book direction" "requested_words req \<noteq> 0"
      "taken_hole book R direction (requested_words req) x"
proof (cases "over_limit book direction")
  case True
  then show thesis
    by (intro limit) (simp_all add: internal_alloc_book_def over_limit_def count_failure_def)
next
  case False
  show thesis
  proof (cases "requested_words req = 0 \<or> (\<forall>x. \<not> fits book R (requested_words req) x)")
    case True
    with False show thesis by (intro none internal_alloc_none [OF inv])
  next
    case some_fits: False
    have ok: "regions_ok (mem book) (holes_list book) R" using inv by (simp add: heap_inv_def)
    then obtain xs where xs: "hole_list (mem book) (holes_list book) (hole_set R) xs"
      by (auto simp: regions_ok_def)
    show thesis
    proof (cases "find (\<lambda>x. requested_words req \<le> - mem book (x - 1)) (search_order direction xs)")
      case None
      with search_no_hole [OF xs None] some_fits show thesis by blast
    next
      case (Some x)
      with search_taken_hole [OF ok xs Some] False some_fits show thesis by (intro some) auto
    qed
  qed
qed


lemma heap_faults_simps [simp]:
  "heap_faults (count_failure b) = heap_faults b" "heap_faults (count_alloc b n) = heap_faults b"
  "heap_faults (count_free b n) = heap_faults b" "heap_faults (report_size b r) = heap_faults b"
  "heap_faults (b\<lparr>mem := m\<rparr>) = heap_faults b"
  by (auto simp: heap_faults_def count_failure_def count_alloc_def count_free_def report_size_def heap_failure_def)

lemma heap_inv_unchanged:
  "mem b' = mem b \<Longrightarrow> holes_list b' = holes_list b \<Longrightarrow> heap_main b' = heap_main b \<Longrightarrow>
     heap_main_end b' = heap_main_end b \<Longrightarrow> heap_inv b' R = heap_inv b R"
  by (simp add: heap_inv_def book_regions_def)

lemma stats_ok_unchanged:
  "heap_sector_alloc_cnt (mem_stat_info b') = heap_sector_alloc_cnt (mem_stat_info b) \<Longrightarrow>
   heap_sector_allocated_bytes (mem_stat_info b') = heap_sector_allocated_bytes (mem_stat_info b) \<Longrightarrow>
     stats_ok b' R = stats_ok b R"
  by (simp add: stats_ok_def)

lemma count_failure_simps [simp]:
  "mem (count_failure b) = mem b" "holes_list (count_failure b) = holes_list b"
  "heap_inv (count_failure b) R = heap_inv b R" "stats_ok (count_failure b) R = stats_ok b R"
  "heap_inv (report_size b r) R = heap_inv b R" "stats_ok (report_size b r) R = stats_ok b R"
  "heap_inv (heap_failure b f) R = heap_inv b R" "stats_ok (heap_failure b f) R = stats_ok b R"
  by (simp_all add: heap_inv_def book_regions_def stats_ok_def count_failure_def)

lemma alloc_law:
  assumes ok: "heap_ok book R"
  shows "\<exists>p book' R'. internal_alloc_book book req direction = Some (p, book') \<and> heap_from book R book' R' \<and>
    heap_faults book' = heap_faults book \<and>
    (p = NULL \<and> live_blocks R' = live_blocks R \<or>
     (\<exists>n. live_blocks R' = insert (p, n) (live_blocks R) \<and> (\<forall>k. (p, k) \<notin> live_blocks R))) \<and>
    (\<forall>(q, k) \<in> live_blocks R. \<forall>c \<in> {q..<q + k}. mem book' c = mem book c)"
proof -
  have inv: "heap_inv book R" and st: "stats_ok book R" using ok by (auto simp: heap_ok_def)
  show ?thesis
    using inv
  proof (cases rule: internal_alloc_cases [where direction = direction and req = req])
    case limit
    show ?thesis
      by (rule exI [of _ NULL], rule exI [of _ "count_failure book"], rule exI [of _ R])
         (use limit ok in \<open>auto simp: heap_from_def heap_ok_def\<close>)
  next
    case none
    show ?thesis
      by (rule exI [of _ NULL], rule exI [of _ "count_failure (report_size book req)"], rule exI [of _ R])
         (use none ok in \<open>auto simp: heap_from_def heap_ok_def\<close>)
  next
    case (some x)
    let ?n = "requested_words req" and ?k = "- mem book (x - 1)"
    let ?p = "carve_start direction (x - 1) ?k ?n + 1" and ?sz = "carve_size ?k ?n"
    obtain m' R' where a: "internal_alloc_book book req direction =
        Some (?p, count_alloc ((report_size book req)\<lparr>mem := m'\<rparr>) ?sz)"
      "allocates book R ?p ?sz (count_alloc ((report_size book req)\<lparr>mem := m'\<rparr>) ?sz) R'"
      using internal_alloc_takes_hole [OF inv some(1) refl some(2,3)] by blast
    let ?book' = "count_alloc ((report_size book req)\<lparr>mem := m'\<rparr>) ?sz"
    have "(?p, k) \<notin> live_blocks R" for k
    proof
      assume k: "(?p, k) \<in> live_blocks R"
      then have "0 < k" by (auto elim: live_blocks_bounds)
      moreover have "?p + ?sz + 2 \<le> ?p \<or> ?p + k + 2 \<le> ?p" using a(2) k by (auto simp: allocates_def)
      moreover have "(?p, ?sz) \<in> live_blocks R'" using a(2) by (simp add: allocates_def)
      then have "0 < ?sz" by (auto elim: live_blocks_bounds)
      ultimately show False by simp
    qed
    moreover have "\<forall>(q, k) \<in> live_blocks R. \<forall>c \<in> {q..<q + k}. mem ?book' c = mem book c"
      using a(2) unfolding allocates_def by fastforce
    moreover have "heap_from book R ?book' R'" "live_blocks R' = insert (?p, ?sz) (live_blocks R)"
      using a(2) st by (simp_all add: allocates_def heap_from_def heap_ok_def)
    ultimately show ?thesis
      using a(1) by (intro exI [of _ ?p] exI [of _ ?book'] exI [of _ R']) auto
  qed
qed

lemma book_alloc_internal:
  "book_alloc book (req, temporary) = internal_alloc_book book req (if temporary then 1 else -1)"
  by (simp add: book_alloc_def ns_mem_alloc_def ns_mem_temporary_alloc_def ns_mem_internal_alloc_def
      option.map_comp comp_def split_def option.map_ident)

lemma releases_data:
  "releases book R p n book' R' \<Longrightarrow> (q, k) \<in> live_blocks R - {(p, n)} \<Longrightarrow> c \<in> {q - 1..q + k} \<Longrightarrow>
     mem book' c = mem book c"
  unfolding releases_def by blast

lemma free_law:
  assumes ok: "heap_ok book R" and p: "(p, n) \<in> live_blocks R"
  shows "\<exists>book' R'. ns_mem_free book p = Some book' \<and> heap_from book R book' R' \<and> heap_faults book' = heap_faults book \<and>
    live_blocks R' = live_blocks R - {(p, n)} \<and>
    (\<forall>(q, k) \<in> live_blocks R - {(p, n)}. \<forall>c \<in> {q..<q + k}. mem book' c = mem book c)"
proof -
  have inv: "heap_inv book R" and st: "stats_ok book R" using ok by (auto simp: heap_ok_def)
  obtain m' R' where f: "ns_mem_free book p = Some (count_free (book\<lparr>mem := m'\<rparr>) n)"
    "releases book R p n (count_free (book\<lparr>mem := m'\<rparr>) n) R'"
    using ns_mem_free_ok [OF inv p] by blast
  have "\<forall>(q, k) \<in> live_blocks R - {(p, n)}. \<forall>c \<in> {q..<q + k}. mem (count_free (book\<lparr>mem := m'\<rparr>) n) c = mem book c"
    by (intro ballI, clarify, rule releases_data [OF f(2)]) auto
  with f st show ?thesis
    by (intro exI [of _ "count_free (book\<lparr>mem := m'\<rparr>) n"] exI [of _ R'])
      (auto simp: releases_def heap_from_def heap_ok_def)
qed

lemma book_alloc_law:
  assumes "heap_ok book R"
  shows "\<exists>p book' R'. book_alloc book r = Some (p, book') \<and> heap_from book R book' R' \<and> heap_faults book' = heap_faults book \<and>
    (p = NULL \<and> live_blocks R' = live_blocks R \<or>
     (\<exists>n. live_blocks R' = insert (p, n) (live_blocks R) \<and> (\<forall>k. (p, k) \<notin> live_blocks R))) \<and>
    (\<forall>(q, k) \<in> live_blocks R. \<forall>c \<in> {q..<q + k}. mem book' c = mem book c)"
  using alloc_law [OF assms, of "fst r" "if snd r then 1 else -1"] book_alloc_internal [of book "fst r" "snd r"] by simp

lemma live_block_laws:
  assumes "heap_ok book R" "(p, n) \<in> live_blocks R"
  shows "0 < p \<and> 0 < n"
    and "(q, k) \<in> live_blocks R \<Longrightarrow> (p, n) = (q, k) \<or> p + n + 2 \<le> q \<or> q + k + 2 \<le> p"
proof -
  have rok: "regions_ok (mem book) (holes_list book) R" using assms(1) by (simp add: heap_ok_def heap_inv_def)
  obtain r where r: "r \<in> set R" "0 < n" "fst r + 1 \<le> p" using assms(2) by (rule live_blocks_bounds)
  then show "0 < p \<and> 0 < n" using rok by (auto simp: regions_ok_def region_ok_def)
  show "(p, n) = (q, k) \<or> p + n + 2 \<le> q \<or> q + k + 2 \<le> p" if "(q, k) \<in> live_blocks R"
    using rok assms(2) that by (rule live_blocks_disjoint)
qed

interpretation dyn: block_heap heap_ok live_blocks mem heap_faults book_alloc ns_mem_free
proof
  show "0 < p \<and> 0 < n" if "heap_ok book R" "(p, n) \<in> live_blocks R" for book R p n
    using that by (rule live_block_laws)
next
  show "(p, n) = (q, k) \<or> p + n + 2 \<le> q \<or> q + k + 2 \<le> p"
    if "heap_ok book R" "(p, n) \<in> live_blocks R" "(q, k) \<in> live_blocks R" for book R p n q k
    using that by (rule live_block_laws)
next
  fix book R r
  assume "heap_ok book R"
  from book_alloc_law [OF this, of r]
  show "\<exists>p h' l'. book_alloc book r = Some (p, h') \<and> heap_ok h' l' \<and> heap_faults h' = heap_faults book \<and>
      (p = NULL \<and> live_blocks l' = live_blocks R \<or>
       (\<exists>n. live_blocks l' = insert (p, n) (live_blocks R) \<and> (\<forall>k. (p, k) \<notin> live_blocks R))) \<and>
      (\<forall>(q, k) \<in> live_blocks R. \<forall>c \<in> {q..<q + k}. mem h' c = mem book c)"
    unfolding heap_from_def by blast
next
  fix book R p n
  assume "heap_ok book R" "(p, n) \<in> live_blocks R"
  from free_law [OF this]
  show "\<exists>h' l'. ns_mem_free book p = Some h' \<and> heap_ok h' l' \<and> heap_faults h' = heap_faults book \<and>
      live_blocks l' = live_blocks R - {(p, n)} \<and>
      (\<forall>(q, k) \<in> live_blocks R - {(p, n)}. \<forall>c \<in> {q..<q + k}. mem h' c = mem book c)"
    unfolding heap_from_def by blast
qed

text \<open>The same contract for the heaps that come from a given one.\<close>

interpretation within: block_heap "heap_from book0 R0" live_blocks mem heap_faults book_alloc ns_mem_free
  for book0 R0
proof
  show "0 < p \<and> 0 < n" if "heap_from book0 R0 book R" "(p, n) \<in> live_blocks R" for book R p n
    using heap_from_ok [OF that(1)] that(2) by (rule live_block_laws)
next
  show "(p, n) = (q, k) \<or> p + n + 2 \<le> q \<or> q + k + 2 \<le> p"
    if "heap_from book0 R0 book R" "(p, n) \<in> live_blocks R" "(q, k) \<in> live_blocks R" for book R p n q k
    using heap_from_ok [OF that(1)] that(2,3) by (rule live_block_laws)
next
  fix book R r
  assume f: "heap_from book0 R0 book R"
  from book_alloc_law [OF heap_from_ok [OF f], of r]
  show "\<exists>p h' l'. book_alloc book r = Some (p, h') \<and> heap_from book0 R0 h' l' \<and> heap_faults h' = heap_faults book \<and>
      (p = NULL \<and> live_blocks l' = live_blocks R \<or>
       (\<exists>n. live_blocks l' = insert (p, n) (live_blocks R) \<and> (\<forall>k. (p, k) \<notin> live_blocks R))) \<and>
      (\<forall>(q, k) \<in> live_blocks R. \<forall>c \<in> {q..<q + k}. mem h' c = mem book c)"
    using heap_from_trans [OF f] by blast
next
  fix book R p n
  assume f: "heap_from book0 R0 book R" and p: "(p, n) \<in> live_blocks R"
  obtain h' R' where r: "ns_mem_free book p = Some h'" "heap_from book R h' R'" "heap_faults h' = heap_faults book"
    "live_blocks R' = live_blocks R - {(p, n)}"
    "\<forall>(q, k) \<in> live_blocks R - {(p, n)}. \<forall>c \<in> {q..<q + k}. mem h' c = mem book c"
    using free_law [OF heap_from_ok [OF f] p] by blast
  show "\<exists>h' l'. ns_mem_free book p = Some h' \<and> heap_from book0 R0 h' l' \<and> heap_faults h' = heap_faults book \<and>
      live_blocks l' = live_blocks R - {(p, n)} \<and>
      (\<forall>(q, k) \<in> live_blocks R - {(p, n)}. \<forall>c \<in> {q..<q + k}. mem h' c = mem book c)"
    by (intro exI [of _ h'] exI [of _ R'] conjI r(1,3-5) heap_from_trans [OF f r(2)])
qed

end
