(* ===== verification/Tracker.thy ===== *)
theory Tracker
  imports Prelude "HOL-Library.Monad_Syntax"
begin

text \<open>
  The allocation tracker, \<open>nsdynmemtracker/nsdynmem_tracker_lib.c\<close>: which caller holds how many blocks of what
  total size. Each caller has an entry in \<open>mem_blocks\<close>, with its first block; its further blocks are in
  \<open>ext_mem_blocks\<close>. Names lose the prefix \<open>ns_dyn_mem_tracker_lib_\<close>.

  An array is a list, \<open>None\<close> a null pointer to one. The functions return \<open>None\<close> when they would access an
  array outside of its bounds, or would not return. The callbacks that allocate or enlarge the arrays are
  arguments in the configuration; what they return may depend on how often they have been called.
\<close>

section \<open>Types\<close>

record mem_blocks_t =
  block :: addr
  caller_addr :: addr
  block_size :: u32
  total_size :: u32
  lifetime :: u32
  ref_count :: u32
  function_name :: addr
  line :: u16
  permanent :: bool
  permanent_printed :: bool

record mem_blocks_ext_t =
  ext_block :: addr
  ext_caller_addr :: addr
  ext_size :: u32

record allocators_t =
  allocator_addr :: addr
  alloc_count :: u32
  total_memory :: u32
  min_lifetime :: u32
  allocator_function :: addr
  allocator_line :: u16

record conf_t =
  mem_blocks :: "mem_blocks_t list option"
  ext_mem_blocks :: "mem_blocks_ext_t list option"
  top_allocators :: "allocators_t list"
  permanent_allocators :: "allocators_t list"
  to_permanent_allocators :: "allocators_t list"
  max_snap_shot_allocators :: "allocators_t list"
  alloc_mem_blocks :: "nat \<Rightarrow> mem_blocks_t list option \<Rightarrow> u16 \<Rightarrow> mem_blocks_t list option \<times> u16"
  ext_alloc_mem_blocks :: "nat \<Rightarrow> mem_blocks_ext_t list option \<Rightarrow> u32 \<Rightarrow> mem_blocks_ext_t list option \<times> u32"
  block_index_hash :: "(addr \<Rightarrow> u32 \<Rightarrow> u32) option"
  allocated_memory :: u32
  mem_blocks_count :: u16
  ext_mem_blocks_count :: u32
  last_mem_block_index :: u16
  top_allocators_count :: u16
  permanent_allocators_count :: u16
  to_permanent_allocators_count :: u16
  max_snap_shot_allocators_count :: u16
  to_permanent_steps_count :: u16
  calls_made :: nat

section \<open>Arrays and loops\<close>

definition array_at :: "'a list \<Rightarrow> nat \<Rightarrow> 'a option" where
  "array_at xs i = (if i < length xs then Some (xs ! i) else None)"

definition store_at :: "'a list \<Rightarrow> nat \<Rightarrow> 'a \<Rightarrow> 'a list option" where
  "store_at xs i x = (if i < length xs then Some (xs[i := x]) else None)"

text \<open>
  The search loops: the index, of the width of the loop variable, goes up as long as \<open>within\<close> holds; the first
  element with \<open>P\<close> ends it.
\<close>

partial_function (option) search ::
    "'a list option \<Rightarrow> ('a \<Rightarrow> bool) \<Rightarrow> ('w::len word \<Rightarrow> bool) \<Rightarrow> 'w word \<Rightarrow> 'w word option option" where
  "search xs P within index =
     (if within index then
        do {
          ys \<leftarrow> xs;
          x \<leftarrow> array_at ys (unat index);
          (if P x then Some (Some index) else search xs P within (index + 1))
        }
      else Some None)"

declare search.simps [code]

fun for_each :: "nat list \<Rightarrow> (nat \<Rightarrow> 's \<Rightarrow> 's option) \<Rightarrow> 's \<Rightarrow> 's option" where
  "for_each [] f s = Some s"
| "for_each (i # is) f s = do { s \<leftarrow> f i s; for_each is f s }"

definition block_at :: "conf_t \<Rightarrow> nat \<Rightarrow> mem_blocks_t option" where
  "block_at conf i = do { bs \<leftarrow> mem_blocks conf; array_at bs i }"

definition update_block :: "conf_t \<Rightarrow> nat \<Rightarrow> (mem_blocks_t \<Rightarrow> mem_blocks_t) \<Rightarrow> conf_t option" where
  "update_block conf i f =
     do {
       bs \<leftarrow> mem_blocks conf;
       b \<leftarrow> array_at bs i;
       Some (conf\<lparr>mem_blocks := Some (bs[i := f b])\<rparr>)
     }"

definition ext_block_at :: "conf_t \<Rightarrow> nat \<Rightarrow> mem_blocks_ext_t option" where
  "ext_block_at conf i = do { bs \<leftarrow> ext_mem_blocks conf; array_at bs i }"

definition store_ext_block :: "conf_t \<Rightarrow> nat \<Rightarrow> mem_blocks_ext_t \<Rightarrow> conf_t option" where
  "store_ext_block conf i x =
     do {
       bs \<leftarrow> ext_mem_blocks conf;
       bs \<leftarrow> store_at bs i x;
       Some (conf\<lparr>ext_mem_blocks := Some bs\<rparr>)
     }"

section \<open>Finding an entry\<close>

definition find_free_index :: "conf_t \<Rightarrow> u16 option option" where
  "find_free_index conf =
     search (mem_blocks conf) (\<lambda>b. caller_addr b = NULL) (\<lambda>i. i < mem_blocks_count conf) 0"

definition find_caller_index :: "conf_t \<Rightarrow> addr \<Rightarrow> u16 option option" where
  "find_caller_index conf caller =
     search (mem_blocks conf) (\<lambda>b. caller_addr b = caller) (\<lambda>i. i \<le> last_mem_block_index conf) 0"

definition find_block_index :: "conf_t \<Rightarrow> addr \<Rightarrow> u16 option option" where
  "find_block_index conf ptr =
     search (mem_blocks conf) (\<lambda>b. block b = ptr) (\<lambda>i. i \<le> last_mem_block_index conf) 0"

definition ext_find_free_index :: "conf_t \<Rightarrow> u32 \<Rightarrow> u32 option option" where
  "ext_find_free_index conf start_index =
     do {
       found \<leftarrow> search (ext_mem_blocks conf) (\<lambda>b. ext_caller_addr b = NULL)
         (\<lambda>i. i < ext_mem_blocks_count conf) start_index;
       case found of
         Some i \<Rightarrow> Some (Some i)
       | None \<Rightarrow>
           if start_index = 0 then Some None
           else search (ext_mem_blocks conf) (\<lambda>b. ext_caller_addr b = NULL) (\<lambda>i. i < start_index) 0
     }"

definition ext_find_block_index :: "conf_t \<Rightarrow> addr \<Rightarrow> u32 \<Rightarrow> u32 option option" where
  "ext_find_block_index conf ptr start_index =
     do {
       found \<leftarrow> search (ext_mem_blocks conf) (\<lambda>b. ext_block b = ptr)
         (\<lambda>i. i < ext_mem_blocks_count conf) start_index;
       case found of
         Some i \<Rightarrow> Some (Some i)
       | None \<Rightarrow>
           if start_index = 0 then Some None
           else search (ext_mem_blocks conf) (\<lambda>b. ext_block b = ptr) (\<lambda>i. i < start_index) 0
     }"

section \<open>Recording an allocation\<close>

definition grow_mem_blocks :: "conf_t \<Rightarrow> conf_t" where
  "grow_mem_blocks conf =
     (let (bs, count) = alloc_mem_blocks conf (calls_made conf) (mem_blocks conf) (mem_blocks_count conf)
      in conf\<lparr>mem_blocks := bs, mem_blocks_count := count, calls_made := Suc (calls_made conf)\<rparr>)"

definition grow_ext_mem_blocks :: "conf_t \<Rightarrow> conf_t" where
  "grow_ext_mem_blocks conf =
     (let (bs, count) = ext_alloc_mem_blocks conf (calls_made conf) (ext_mem_blocks conf) (ext_mem_blocks_count conf)
      in conf\<lparr>ext_mem_blocks := bs, ext_mem_blocks_count := count, calls_made := Suc (calls_made conf)\<rparr>)"

definition hash_index :: "conf_t \<Rightarrow> addr \<Rightarrow> u32" where
  "hash_index conf ptr =
     (case block_index_hash conf of None \<Rightarrow> 0 | Some hash \<Rightarrow> hash ptr (ext_mem_blocks_count conf))"

text \<open>A further block of a caller: the caller's entry is counted up, the block goes to the extended array.\<close>

definition store_further :: "conf_t \<Rightarrow> u16 \<Rightarrow> u32 \<Rightarrow> addr \<Rightarrow> addr \<Rightarrow> u32 \<Rightarrow> (int \<times> conf_t) option" where
  "store_further conf caller_index free_index caller ptr sz =
     do {
       conf \<leftarrow> update_block conf (unat caller_index) (\<lambda>b. b\<lparr>ref_count := ref_count b + 1,
         total_size := total_size b + sz, lifetime := 0, permanent := False, permanent_printed := False\<rparr>);
       conf \<leftarrow> store_ext_block conf (unat free_index) \<lparr>ext_block = ptr, ext_caller_addr = caller, ext_size = sz\<rparr>;
       Some (0, conf\<lparr>allocated_memory := allocated_memory conf + sz\<rparr>)
     }"

definition alloc_further :: "conf_t \<Rightarrow> u16 \<Rightarrow> addr \<Rightarrow> addr \<Rightarrow> u32 \<Rightarrow> (int \<times> conf_t) option" where
  "alloc_further conf caller_index caller ptr sz =
     (let conf = (if ext_mem_blocks conf = None then grow_ext_mem_blocks conf else conf)
      in if ext_mem_blocks conf = None then Some (-1, conf)
         else do {
           found \<leftarrow> ext_find_free_index conf (hash_index conf ptr);
           case found of
             Some free_index \<Rightarrow> store_further conf caller_index free_index caller ptr sz
           | None \<Rightarrow>
               let conf = grow_ext_mem_blocks conf
               in if ext_mem_blocks conf = None then Some (-1, conf)
                  else do {
                    found \<leftarrow> ext_find_free_index conf (hash_index conf ptr);
                    case found of
                      Some free_index \<Rightarrow> store_further conf caller_index free_index caller ptr sz
                    | None \<Rightarrow> Some (-1, conf)
                  }
         })"

text \<open>The first block of a caller.\<close>

definition store_first ::
    "conf_t \<Rightarrow> u16 \<Rightarrow> addr \<Rightarrow> addr \<Rightarrow> u32 \<Rightarrow> addr \<Rightarrow> u32 \<Rightarrow> (int \<times> conf_t) option" where
  "store_first conf free_index caller fn ln ptr sz =
     do {
       conf \<leftarrow> update_block conf (unat free_index) (\<lambda>b. b\<lparr>block := ptr, caller_addr := caller, block_size := sz,
         total_size := sz, lifetime := 0, ref_count := 1, function_name := fn, line := ucast ln,
         permanent := False, permanent_printed := False\<rparr>);
       Some (0, conf\<lparr>
         last_mem_block_index :=
           (if free_index > last_mem_block_index conf then free_index else last_mem_block_index conf),
         allocated_memory := allocated_memory conf + sz\<rparr>)
     }"

definition alloc_first :: "conf_t \<Rightarrow> addr \<Rightarrow> addr \<Rightarrow> u32 \<Rightarrow> addr \<Rightarrow> u32 \<Rightarrow> (int \<times> conf_t) option" where
  "alloc_first conf caller fn ln ptr sz =
     do {
       found \<leftarrow> find_free_index conf;
       case found of
         Some free_index \<Rightarrow> store_first conf free_index caller fn ln ptr sz
       | None \<Rightarrow>
           let conf = grow_mem_blocks conf
           in if mem_blocks conf = None then Some (-1, conf)
              else do {
                found \<leftarrow> find_free_index conf;
                case found of
                  Some free_index \<Rightarrow> store_first conf free_index caller fn ln ptr sz
                | None \<Rightarrow> Some (-1, conf)
              }
     }"

definition tracker_alloc :: "conf_t \<Rightarrow> addr \<Rightarrow> addr \<Rightarrow> u32 \<Rightarrow> addr \<Rightarrow> u32 \<Rightarrow> (int \<times> conf_t) option" where
  "tracker_alloc conf caller fn ln ptr sz =
     (if ptr = NULL then Some (0, conf)
      else
        let conf = (if mem_blocks conf = None then grow_mem_blocks conf else conf)
        in if mem_blocks conf = None then Some (-1, conf)
           else do {
             found \<leftarrow> find_caller_index conf caller;
             case found of
               Some caller_index \<Rightarrow> alloc_further conf caller_index caller ptr sz
             | None \<Rightarrow> alloc_first conf caller fn ln ptr sz
           })"

section \<open>Releasing a block\<close>

text \<open>The block of the entry at \<open>block_index\<close>.\<close>

definition free_first :: "conf_t \<Rightarrow> u16 \<Rightarrow> (int \<times> conf_t) option" where
  "free_first conf block_index =
     do {
       b \<leftarrow> block_at conf (unat block_index);
       let sz = block_size b;
       let b = (if ref_count b \<le> 1
                then b\<lparr>ref_count := 0, caller_addr := NULL, total_size := 0, function_name := NULL, line := 0\<rparr>
                else b\<lparr>ref_count := ref_count b - 1, total_size := total_size b - sz\<rparr>);
       let b = b\<lparr>block := NULL, block_size := 0, lifetime := 0, permanent := False, permanent_printed := False\<rparr>;
       let conf = conf\<lparr>allocated_memory := allocated_memory conf - sz\<rparr>;
       conf \<leftarrow> update_block conf (unat block_index) (\<lambda>_. b);
       Some (0, conf)
     }"

text \<open>
  A block of the extended array. Its caller's entry is counted down; the settings that are reset, and the
  entry that is cleared, are those at \<open>block_index\<close>, which is still 0 here.
\<close>

definition free_further :: "conf_t \<Rightarrow> u16 \<Rightarrow> addr \<Rightarrow> (int \<times> conf_t) option" where
  "free_further conf block_index ptr =
     do {
       found \<leftarrow> ext_find_block_index conf ptr (hash_index conf ptr);
       case found of
         None \<Rightarrow> Some (-1, conf)
       | Some ext_block_index \<Rightarrow>
           do {
             e \<leftarrow> ext_block_at conf (unat ext_block_index);
             found \<leftarrow> find_caller_index conf (ext_caller_addr e);
             case found of
               None \<Rightarrow> Some (-1, conf)
             | Some caller_index \<Rightarrow>
                 do {
                   conf \<leftarrow> update_block conf (unat caller_index) (\<lambda>b. b\<lparr>ref_count := ref_count b - 1,
                     total_size := total_size b - ext_size e\<rparr>);
                   let conf = conf\<lparr>allocated_memory := allocated_memory conf - ext_size e\<rparr>;
                   conf \<leftarrow> store_ext_block conf (unat ext_block_index)
                     \<lparr>ext_block = NULL, ext_caller_addr = NULL, ext_size = 0\<rparr>;
                   conf \<leftarrow> update_block conf (unat block_index) (\<lambda>b.
                     let b = b\<lparr>lifetime := 0, permanent := False, permanent_printed := False\<rparr>
                     in if ref_count b = 0
                        then b\<lparr>block := NULL, caller_addr := NULL, block_size := 0, total_size := 0,
                               function_name := NULL, line := 0\<rparr>
                        else b);
                   Some (0, conf)
                 }
           }
     }"

definition tracker_free :: "conf_t \<Rightarrow> addr \<Rightarrow> (int \<times> conf_t) option" where
  "tracker_free conf ptr =
     (if ptr = NULL \<or> mem_blocks conf = None then Some (0, conf)
      else do {
        found \<leftarrow> find_block_index conf ptr;
        case found of
          Some block_index \<Rightarrow> free_first conf block_index
        | None \<Rightarrow>
            if ext_mem_blocks conf = None then Some (-1, conf)
            else free_further conf 0 ptr
      })"

section \<open>Ageing\<close>

definition tracker_step :: "conf_t \<Rightarrow> conf_t option" where
  "tracker_step conf =
     (if mem_blocks_count conf \<noteq> 0 then
        for_each [0..<Suc (unat (last_mem_block_index conf))] (\<lambda>index conf.
          do {
            b \<leftarrow> block_at conf index;
            (if block b \<noteq> NULL then update_block conf index (\<lambda>b. b\<lparr>lifetime := lifetime b + 1\<rparr>)
             else Some conf)
          }) conf
      else Some conf)"

section \<open>Lists of allocators\<close>

definition no_allocator :: allocators_t where
  "no_allocator = \<lparr>allocator_addr = NULL, alloc_count = 0, total_memory = 0, min_lifetime = 0,
     allocator_function = NULL, allocator_line = 0\<rparr>"

definition allocator_of :: "mem_blocks_t \<Rightarrow> allocators_t" where
  "allocator_of b = \<lparr>allocator_addr = caller_addr b, alloc_count = ref_count b, total_memory = total_size b,
     min_lifetime = lifetime b, allocator_function = function_name b, allocator_line = line b\<rparr>"

definition clear_allocators :: "allocators_t list \<Rightarrow> u16 \<Rightarrow> allocators_t list option" where
  "clear_allocators xs count =
     (if unat count \<le> length xs then Some (replicate (unat count) no_allocator @ drop (unat count) xs) else None)"

definition move_allocators :: "allocators_t list \<Rightarrow> nat \<Rightarrow> nat \<Rightarrow> nat \<Rightarrow> allocators_t list option" where
  "move_allocators xs dest src n =
     (if dest + n \<le> length xs \<and> src + n \<le> length xs
      then Some (take dest xs @ take n (drop src xs) @ drop (dest + n) xs) else None)"

definition on_list :: "allocators_t list \<Rightarrow> u16 \<Rightarrow> addr \<Rightarrow> bool option" where
  "on_list xs count caller =
     map_option (\<lambda>i. i \<noteq> None) (search (Some xs) (\<lambda>a. allocator_addr a = caller) (\<lambda>i. i < count) (0 :: u16))"

text \<open>The new entry goes before the first one that is not larger; the number of entries moved has 8 bits.\<close>

function place :: "(mem_blocks_t \<Rightarrow> u32) \<Rightarrow> (allocators_t \<Rightarrow> u32) \<Rightarrow> u16 \<Rightarrow> mem_blocks_t \<Rightarrow> allocators_t list \<Rightarrow> nat \<Rightarrow>
    allocators_t list option" where
  "place key list_key count b xs list_index =
     (if list_index < unat count then
        do {
          a \<leftarrow> array_at xs list_index;
          (if key b \<ge> list_key a then
             do {
               let index_count = (of_nat (unat count - list_index - 1) :: u8);
               xs \<leftarrow> (if list_index \<noteq> unat count - 1
                      then move_allocators xs (list_index + 1) list_index (unat index_count)
                      else Some xs);
               store_at xs list_index (allocator_of b)
             }
           else place key list_key count b xs (Suc list_index))
        }
      else Some xs)"
  by pat_completeness auto

termination place
  by (relation "measure (\<lambda>(key, list_key, count, b, xs, i). unat count - i)") auto

declare place.simps [simp del]

text \<open>One entry in the update of the lists: the configuration and the two counters, of 8 bits.\<close>

definition lists_visit :: "nat \<Rightarrow> conf_t \<times> u8 \<times> u8 \<Rightarrow> (conf_t \<times> u8 \<times> u8) option" where
  "lists_visit index = (\<lambda>(conf, permanent_count, to_permanent_count).
     do {
       b \<leftarrow> block_at conf index;
       (if block b = NULL then Some (conf, permanent_count, to_permanent_count)
        else do {
          found \<leftarrow> on_list (top_allocators conf) (top_allocators_count conf) (caller_addr b);
          (if found then Some (conf, permanent_count, to_permanent_count)
           else if permanent b then
             if \<not> permanent_printed b \<and> ucast permanent_count < permanent_allocators_count conf then
               do {
                 xs \<leftarrow> store_at (permanent_allocators conf) (unat permanent_count) (allocator_of b);
                 conf \<leftarrow> update_block (conf\<lparr>permanent_allocators := xs\<rparr>) index (\<lambda>b. b\<lparr>permanent_printed := True\<rparr>);
                 Some (conf, permanent_count + 1, to_permanent_count)
               }
             else Some (conf, permanent_count, to_permanent_count)
           else if lifetime b > ucast (to_permanent_steps_count conf) \<and>
               ucast to_permanent_count < to_permanent_allocators_count conf then
             do {
               conf \<leftarrow> update_block conf index (\<lambda>b. b\<lparr>permanent := True\<rparr>);
               xs \<leftarrow> store_at (to_permanent_allocators conf) (unat to_permanent_count) (allocator_of b);
               Some (conf\<lparr>to_permanent_allocators := xs\<rparr>, permanent_count, to_permanent_count + 1)
             }
           else
             do {
               xs \<leftarrow> place ref_count alloc_count (top_allocators_count conf) b (top_allocators conf) 0;
               Some (conf\<lparr>top_allocators := xs\<rparr>, permanent_count, to_permanent_count)
             })
        })
     })"

partial_function (option) permanent_printed_value_set :: "conf_t \<Rightarrow> addr \<Rightarrow> bool \<Rightarrow> u16 \<Rightarrow> conf_t option" where
  "permanent_printed_value_set conf caller new_value search_index =
     (if search_index \<le> last_mem_block_index conf then
        do {
          conf' \<leftarrow>
            (if caller = NULL then update_block conf (unat search_index) (\<lambda>b. b\<lparr>permanent_printed := new_value\<rparr>)
             else do {
               b \<leftarrow> block_at conf (unat search_index);
               (if caller_addr b = caller
                then update_block conf (unat search_index) (\<lambda>b. b\<lparr>permanent_printed := new_value\<rparr>)
                else Some conf)
             });
          permanent_printed_value_set conf' caller new_value (search_index + 1)
        }
      else Some conf)"

declare permanent_printed_value_set.simps [code]

definition allocator_lists_update :: "conf_t \<Rightarrow> (int \<times> conf_t) option" where
  "allocator_lists_update conf =
     do {
       top \<leftarrow> clear_allocators (top_allocators conf) (top_allocators_count conf);
       perm \<leftarrow> clear_allocators (permanent_allocators conf) (permanent_allocators_count conf);
       to_perm \<leftarrow> clear_allocators (to_permanent_allocators conf) (to_permanent_allocators_count conf);
       let conf = conf\<lparr>top_allocators := top, permanent_allocators := perm, to_permanent_allocators := to_perm\<rparr>;
       (conf, permanent_count, to_permanent_count) \<leftarrow>
         for_each [0..<Suc (unat (last_mem_block_index conf))] lists_visit (conf, 0, 0);
       conf \<leftarrow> (if ucast permanent_count < permanent_allocators_count conf
                then permanent_printed_value_set conf NULL False 0 else Some conf);
       Some (0, conf)
     }"

definition snap_shot_visit :: "nat \<Rightarrow> conf_t \<Rightarrow> conf_t option" where
  "snap_shot_visit index conf =
     do {
       b \<leftarrow> block_at conf index;
       (if block b = NULL then Some conf
        else do {
          found \<leftarrow> on_list (max_snap_shot_allocators conf) (max_snap_shot_allocators_count conf) (caller_addr b);
          (if found then Some conf
           else do {
             xs \<leftarrow> place total_size total_memory (max_snap_shot_allocators_count conf) b
               (max_snap_shot_allocators conf) 0;
             Some (conf\<lparr>max_snap_shot_allocators := xs\<rparr>)
           })
        })
     }"

definition max_snap_shot_update :: "conf_t \<Rightarrow> conf_t option" where
  "max_snap_shot_update conf =
     do {
       xs \<leftarrow> clear_allocators (max_snap_shot_allocators conf) (max_snap_shot_allocators_count conf);
       for_each [0..<Suc (unat (last_mem_block_index conf))] snap_shot_visit (conf\<lparr>max_snap_shot_allocators := xs\<rparr>)
     }"

end
