(* ===== verification/TrackerInv.thy ===== *)
theory TrackerInv
  imports Tracker "HOL-Library.Multiset"
begin

text \<open>
  What the tracker's arrays stand for: the ledger of the blocks in use, each with its caller and size. The
  entries of the callers count the blocks and bytes of the ledger; recording and releasing a block add and
  remove one line of it.
\<close>

section \<open>Search loops\<close>

lemma search_result:
  fixes i :: "'w::len word"
  assumes within: "\<And>j. within j \<longleftrightarrow> unat j < n" and n: "n \<le> length xs" "n < 2 ^ LENGTH('w)"
  obtains (found) j where "search (Some xs) P within i = Some (Some j)" "unat i \<le> unat j" "unat j < n" "P (xs ! unat j)"
  | (missing) "search (Some xs) P within i = Some None" "\<And>j. unat i \<le> j \<Longrightarrow> j < n \<Longrightarrow> \<not> P (xs ! j)"
proof -
  have "(\<exists>j. search (Some xs) P within i = Some (Some j) \<and> unat i \<le> unat j \<and> unat j < n \<and> P (xs ! unat j)) \<or>
      search (Some xs) P within i = Some None \<and> (\<forall>j. unat i \<le> j \<longrightarrow> j < n \<longrightarrow> \<not> P (xs ! j))"
  proof (induction "n - unat i" arbitrary: i)
    case 0
    then have "\<not> within i" using within by simp
    with 0 show ?case by (subst search.simps, subst (2) search.simps) auto
  next
    case (Suc k)
    then have i: "within i" "unat i < n" using within by auto
    then have s: "unat (i + 1) = Suc (unat i)" using n(2) by (simp add: unat_word_ariths(1))
    show ?case
    proof (cases "P (xs ! unat i)")
      case True
      then have "search (Some xs) P within i = Some (Some i)"
        using i n(1) by (subst search.simps) (simp add: array_at_def)
      then show ?thesis using i True by auto
    next
      case False
      then have e: "search (Some xs) P within i = search (Some xs) P within (i + 1)"
        using i n(1) by (subst search.simps) (simp add: array_at_def)
      have "k = n - unat (i + 1)" using Suc.hyps(2) s by simp
      from Suc.hyps(1) [OF this] show ?thesis
        unfolding e s using False by (metis Suc_leD not_less_eq_eq le_antisym)
    qed
  qed
  then show thesis using found missing by blast
qed

lemma unat_count: "n < 2 ^ 32 \<Longrightarrow> unat (of_nat n :: u32) = n"
  by (simp add: unsigned_of_nat take_bit_nat_eq_self)

section \<open>The ledger\<close>

type_synonym ledger = "(addr \<times> addr \<times> u32) multiset"

definition held_by :: "ledger \<Rightarrow> addr \<Rightarrow> ledger" where
  "held_by M c = {#t \<in># M. fst (snd t) = c#}"

definition bytes :: "ledger \<Rightarrow> u32" where
  "bytes M = (\<Sum>t \<in># M. snd (snd t))"

definition block_line :: "mem_blocks_t \<Rightarrow> ledger" where
  "block_line b = (if block b = NULL then {#} else {#(block b, caller_addr b, block_size b)#})"

definition ext_line :: "mem_blocks_ext_t \<Rightarrow> ledger" where
  "ext_line e = (if ext_block e = NULL then {#} else {#(ext_block e, ext_caller_addr e, ext_size e)#})"

definition lines :: "mem_blocks_t list \<Rightarrow> mem_blocks_ext_t list \<Rightarrow> ledger" where
  "lines bs es = sum_list (map block_line bs) + sum_list (map ext_line es)"

text \<open>The counters of a caller's entry.\<close>

definition accounts :: "ledger \<Rightarrow> mem_blocks_t \<Rightarrow> bool" where
  "accounts M b \<longleftrightarrow> ref_count b = of_nat (size (held_by M (caller_addr b))) \<and>
     total_size b = bytes (held_by M (caller_addr b))"

definition unique_callers :: "mem_blocks_t list \<Rightarrow> bool" where
  "unique_callers bs \<longleftrightarrow> (\<forall>i < length bs. \<forall>j < length bs. caller_addr (bs ! i) = caller_addr (bs ! j) \<longrightarrow>
     caller_addr (bs ! i) \<noteq> NULL \<longrightarrow> i = j)"

text \<open>The entries after \<open>lst\<close>, the last one in use, are unused; every block of the extended array has an entry of its caller.\<close>

definition ledger :: "mem_blocks_t list \<Rightarrow> mem_blocks_ext_t list \<Rightarrow> nat \<Rightarrow> ledger \<Rightarrow> bool" where
  "ledger bs es lst M \<longleftrightarrow>
     (\<forall>i < length bs. lst < i \<longrightarrow> caller_addr (bs ! i) = NULL) \<and>
     (\<forall>b \<in> set bs. caller_addr b = NULL \<longrightarrow> block b = NULL) \<and>
     unique_callers bs \<and>
     (\<forall>e \<in> set es. (ext_block e = NULL \<longleftrightarrow> ext_caller_addr e = NULL) \<and>
        (ext_caller_addr e \<noteq> NULL \<longrightarrow> ext_caller_addr e \<in> caller_addr ` set bs)) \<and>
     lines bs es = M \<and> (\<forall>p. count (image_mset fst M) p \<le> 1) \<and>
     (\<forall>b \<in> set bs. caller_addr b \<noteq> NULL \<longrightarrow> accounts M b) \<and>
     length es + 1 < 2 ^ 32"

subsection \<open>Sums over an updated list\<close>

lemma sum_list_at:
  fixes f :: "'a \<Rightarrow> 'b::comm_monoid_add"
  assumes "i < length xs"
  obtains R where "\<And>x. sum_list (map f (xs[i := x])) = f x + R" "sum_list (map f xs) = f (xs ! i) + R"
proof -
  have "sum_list (map f (xs[i := x])) = f x + (sum_list (map f (take i xs)) + sum_list (map f (drop (Suc i) xs)))" for x
    using assms by (simp add: upd_conv_take_nth_drop add.assoc add.left_commute)
  from this [of "xs ! i"] this show thesis by (intro that) (simp_all add: list_update_id)
qed

lemma held_by_simps [simp]:
  "held_by {#} c = {#}"
  "held_by (add_mset t M) c = (if fst (snd t) = c then add_mset t (held_by M c) else held_by M c)"
  "held_by (M + N) c = held_by M c + held_by N c"
  by (simp_all add: held_by_def)

lemma bytes_simps [simp]: "bytes {#} = 0" "bytes (add_mset t M) = snd (snd t) + bytes M" "bytes (M + N) = bytes M + bytes N"
  by (simp_all add: bytes_def)

lemma held_by_empty: "held_by M c = {#} \<longleftrightarrow> (\<forall>t \<in># M. fst (snd t) \<noteq> c)"
  by (induction M) auto

lemma in_lines:
  "t \<in># lines bs es \<longleftrightarrow> (\<exists>b \<in> set bs. block b \<noteq> NULL \<and> t = (block b, caller_addr b, block_size b)) \<or>
     (\<exists>e \<in> set es. ext_block e \<noteq> NULL \<and> t = (ext_block e, ext_caller_addr e, ext_size e))"
proof -
  have "t \<in># sum_list (map f xs) \<longleftrightarrow> (\<exists>x \<in> set xs. t \<in># f x)" for f :: "'x \<Rightarrow> ledger" and xs
    by (induction xs) auto
  from this [of block_line bs] this [of ext_line es] show ?thesis
    unfolding lines_def by (auto simp: block_line_def ext_line_def split: if_splits)
qed

text \<open>A caller holds no more blocks than there are entries for them.\<close>

lemma held_bound:
  assumes "unique_callers bs" "c \<noteq> NULL"
  shows "size (held_by (lines bs es) c) \<le> length es + 1"
proof -
  have e: "size (held_by (sum_list (map ext_line es)) c) \<le> length es"
    by (induction es) (auto simp: ext_line_def)
  have n: "size (held_by (sum_list (map block_line bs)) c) \<le> length (filter (\<lambda>b. caller_addr b = c) bs)"
    by (induction bs) (auto simp: block_line_def)
  have "length (filter (\<lambda>b. caller_addr b = c) bs) \<le> 1"
    using assms unfolding length_filter_conv_card unique_callers_def One_nat_def
    by (subst card_le_Suc0_iff_eq) auto
  then show ?thesis using e n unfolding lines_def by simp
qed

lemma no_caller_holds_nothing:
  assumes "ledger bs es lst M" "c \<notin> caller_addr ` set bs" "c \<noteq> NULL"
  shows "held_by M c = {#}"
proof (rule ccontr)
  assume "held_by M c \<noteq> {#}"
  then obtain t where "t \<in># M" "fst (snd t) = c" by (auto simp: held_by_def dest!: multiset_nonemptyE)
  then show False using assms unfolding ledger_def by (auto simp: in_lines)
qed

subsection \<open>Replacing one entry\<close>

lemma in_set_update:
  "i < length xs \<Longrightarrow> x \<in> set (xs[i := y]) \<Longrightarrow> x = y \<or> (\<exists>j < length xs. j \<noteq> i \<and> x = xs ! j)"
  by (auto simp: in_set_conv_nth nth_list_update split: if_splits)

lemma lines_update_block:
  "i < length bs \<Longrightarrow> lines (bs[i := b]) es + block_line (bs ! i) = lines bs es + block_line b"
  by (rule sum_list_at [of i bs block_line]) (simp_all add: lines_def ac_simps)

lemma lines_update_ext:
  "k < length es \<Longrightarrow> lines bs (es[k := e]) + ext_line (es ! k) = lines bs es + ext_line e"
  by (rule sum_list_at [of k es ext_line]) (simp_all add: lines_def ac_simps)

definition ext_ok :: "mem_blocks_t list \<Rightarrow> mem_blocks_ext_t \<Rightarrow> bool" where
  "ext_ok bs e \<longleftrightarrow> (ext_block e = NULL \<longleftrightarrow> ext_caller_addr e = NULL) \<and>
     (ext_caller_addr e \<noteq> NULL \<longrightarrow> ext_caller_addr e \<in> caller_addr ` set bs)"

lemma ledger_alt:
  "ledger bs es lst M \<longleftrightarrow>
     (\<forall>i < length bs. lst < i \<longrightarrow> caller_addr (bs ! i) = NULL) \<and>
     (\<forall>b \<in> set bs. caller_addr b = NULL \<longrightarrow> block b = NULL) \<and> unique_callers bs \<and> (\<forall>e \<in> set es. ext_ok bs e) \<and>
     lines bs es = M \<and> (\<forall>p. count (image_mset fst M) p \<le> 1) \<and>
     (\<forall>b \<in> set bs. caller_addr b \<noteq> NULL \<longrightarrow> accounts M b) \<and> length es + 1 < 2 ^ 32"
  unfolding ledger_def ext_ok_def by simp

lemma ledger_replace:
  assumes L: "ledger bs es lst M" and i: "i < length bs" "lst \<le> lst'" "i \<le> lst' \<or> caller_addr b = NULL"
    and b: "caller_addr b = NULL \<longrightarrow> block b = NULL"
      "caller_addr b = NULL \<or> caller_addr b = caller_addr (bs ! i) \<or> caller_addr b \<notin> caller_addr ` set bs"
      "caller_addr b \<noteq> NULL \<longrightarrow> accounts M' b"
    and e: "\<forall>e \<in> set es'. ext_ok (bs[i := b]) e" "length es' + 1 < 2 ^ 32"
    and M': "lines (bs[i := b]) es' = M'" "\<forall>p. count (image_mset fst M') p \<le> 1"
      "\<And>c. c \<noteq> NULL \<Longrightarrow> c \<noteq> caller_addr b \<Longrightarrow> c \<noteq> caller_addr (bs ! i) \<Longrightarrow> held_by M' c = held_by M c"
  shows "ledger (bs[i := b]) es' lst' M'"
proof -
  have u: "unique_callers bs" using L by (simp add: ledger_def)
  have other: "caller_addr (bs ! j) \<noteq> caller_addr b \<and> caller_addr (bs ! j) \<noteq> caller_addr (bs ! i)"
    if "j < length bs" "j \<noteq> i" "caller_addr (bs ! j) \<noteq> NULL" for j
  proof -
    have "caller_addr (bs ! j) \<noteq> caller_addr (bs ! i)"
      using u that i(1) unfolding unique_callers_def by metis
    moreover have "caller_addr (bs ! j) \<in> caller_addr ` set bs" using that(1) by simp
    ultimately show ?thesis using b(2) that(3) by metis
  qed
  have "unique_callers (bs[i := b])"
    unfolding unique_callers_def
  proof (intro allI impI)
    fix j k assume jk: "j < length (bs[i := b])" "k < length (bs[i := b])"
      "caller_addr (bs[i := b] ! j) = caller_addr (bs[i := b] ! k)" "caller_addr (bs[i := b] ! j) \<noteq> NULL"
    show "j = k"
    proof (cases "j = i \<or> k = i")
      case True
      then show ?thesis using jk other [of j] other [of k] i(1) by (auto simp: nth_list_update split: if_splits)
    next
      case False
      then show ?thesis using jk u unfolding unique_callers_def by simp
    qed
  qed
  moreover have "caller_addr (bs[i := b] ! j) = NULL" if "j < length (bs[i := b])" "lst' < j" for j
    using that L i unfolding ledger_def by (auto simp: nth_list_update)
  moreover have "block x = NULL" if "x \<in> set (bs[i := b])" "caller_addr x = NULL" for x
    using in_set_update [OF i(1) that(1)] that(2) b(1) L unfolding ledger_def by auto
  moreover have "accounts M' x" if x: "x \<in> set (bs[i := b])" "caller_addr x \<noteq> NULL" for x
    using in_set_update [OF i(1) x(1)]
  proof (elim disjE exE conjE)
    assume "x = b" then show ?thesis using b(3) x(2) by simp
  next
    fix j assume j: "j < length bs" "j \<noteq> i" "x = bs ! j"
    then have "accounts M x" using L x(2) unfolding ledger_def by simp
    then show ?thesis using M'(3) [of "caller_addr x"] other [of j] j x(2) by (simp add: accounts_def)
  qed
  ultimately show ?thesis using e M'(1,2) unfolding ledger_alt by blast
qed

lemma ledger_basics:
  assumes "ledger bs es lst M"
  shows "lines bs es = M" "\<forall>p. count (image_mset fst M) p \<le> 1" "length es + 1 < 2 ^ 32"
    "\<And>e. e \<in> set es \<Longrightarrow> ext_ok bs e" "\<And>b. b \<in> set bs \<Longrightarrow> caller_addr b \<noteq> NULL \<Longrightarrow> accounts M b"
    "\<And>b. b \<in> set bs \<Longrightarrow> caller_addr b = NULL \<Longrightarrow> block b = NULL"
  using assms unfolding ledger_alt by auto

text \<open>Entries of the extended array stay good when their caller does not go away.\<close>

lemma ext_ok_keep:
  assumes e: "ext_ok bs e" and i: "i < length bs"
    and c: "caller_addr (bs ! i) \<in> {NULL, caller_addr b, ext_caller_addr e} \<longrightarrow> caller_addr (bs ! i) \<in> {NULL, caller_addr b}"
  shows "ext_ok (bs[i := b]) e"
proof -
  have "ext_caller_addr e \<in> caller_addr ` set (bs[i := b])" if n: "ext_caller_addr e \<noteq> NULL"
  proof -
    obtain j where j: "j < length bs" "caller_addr (bs ! j) = ext_caller_addr e"
      using e n unfolding ext_ok_def by (metis imageE in_set_conv_nth)
    show ?thesis
    proof (cases "j = i")
      case True
      then have "ext_caller_addr e = caller_addr b" using j c n by auto
      moreover have "b \<in> set (bs[i := b])" using i by (rule set_update_memI)
      ultimately show ?thesis by simp
    next
      case False
      then have "bs ! j = bs[i := b] ! j" by simp
      then show ?thesis using j by (metis image_eqI length_list_update nth_mem)
    qed
  qed
  then show ?thesis using e unfolding ext_ok_def by auto
qed

section \<open>The four updates\<close>

lemma ledger_first_block:
  assumes L: "ledger bs es lst M" and i: "i < length bs" "caller_addr (bs ! i) = NULL"
    and c: "c \<noteq> NULL" "c \<notin> caller_addr ` set bs" and p: "p \<noteq> NULL" "p \<notin> fst ` set_mset M"
    and b: "block b = p" "caller_addr b = c" "block_size b = n" "ref_count b = 1" "total_size b = n"
  shows "ledger (bs[i := b]) es (max lst i) (add_mset (p, c, n) M)"
proof (rule ledger_replace [OF L i(1)])
  note l = ledger_basics [OF L]
  have "block_line (bs ! i) = {#}" using l(6) i by (simp add: block_line_def)
  then show "lines (bs[i := b]) es = add_mset (p, c, n) M"
    using lines_update_block [OF i(1), of b es] l(1) b p(1) by (simp add: block_line_def)
  show "caller_addr b \<noteq> NULL \<longrightarrow> accounts (add_mset (p, c, n) M) b"
    using b no_caller_holds_nothing [OF L c(2,1)] by (simp add: accounts_def)
  show "\<forall>q. count (image_mset fst (add_mset (p, c, n) M)) q \<le> 1"
    using l(2) p(2) by (auto simp: count_eq_zero_iff simp flip: set_image_mset)
  show "\<forall>e \<in> set es. ext_ok (bs[i := b]) e" using l(4) ext_ok_keep i by (metis insertI1)
qed (use b c p i ledger_basics(3) [OF L] in simp_all)

lemma ledger_further_block:
  assumes L: "ledger bs es lst M" and i: "i < length bs" "i \<le> lst" "caller_addr (bs ! i) = c" "c \<noteq> NULL"
    and k: "k < length es" "ext_caller_addr (es ! k) = NULL" and p: "p \<noteq> NULL" "p \<notin> fst ` set_mset M"
    and b: "block b = block (bs ! i)" "caller_addr b = c" "block_size b = block_size (bs ! i)"
      "ref_count b = ref_count (bs ! i) + 1" "total_size b = total_size (bs ! i) + n"
    and e: "ext_block e = p" "ext_caller_addr e = c" "ext_size e = n"
  shows "ledger (bs[i := b]) (es[k := e]) lst (add_mset (p, c, n) M)"
proof (rule ledger_replace [OF L i(1)])
  note l = ledger_basics [OF L]
  have "block_line b = block_line (bs ! i)" using b i(3) by (simp add: block_line_def)
  then have "lines (bs[i := b]) es = M" using lines_update_block [OF i(1), of b es] l(1) by simp
  moreover have "ext_line (es ! k) = {#}" using l(4) [of "es ! k"] k by (simp add: ext_line_def ext_ok_def)
  ultimately show "lines (bs[i := b]) (es[k := e]) = add_mset (p, c, n) M"
    using lines_update_ext [OF k(1), of "bs[i := b]" e] e p(1) by (simp add: ext_line_def)
  have "accounts M (bs ! i)" using l(5) i by simp
  then show "caller_addr b \<noteq> NULL \<longrightarrow> accounts (add_mset (p, c, n) M) b"
    using b i by (simp add: accounts_def)
  show "\<forall>q. count (image_mset fst (add_mset (p, c, n) M)) q \<le> 1"
    using l(2) p(2) by (auto simp: count_eq_zero_iff simp flip: set_image_mset)
  have "ext_ok (bs[i := b]) x" if "x \<in> set es" for x using ext_ok_keep [OF l(4) [OF that] i(1)] i(3) b(2) by simp
  moreover have "ext_ok (bs[i := b]) e" 
    using e p(1) i b(2) imageI [OF set_update_memI [OF i(1), of b], of caller_addr] by (simp add: ext_ok_def)
  ultimately show "\<forall>x \<in> set (es[k := e]). ext_ok (bs[i := b]) x" using set_update_subset_insert by fastforce
  show "length (es[k := e]) + 1 < 2 ^ 32" using l(3) by simp
qed (use b i in simp_all)

text \<open>Releasing the block of an entry; the entry is given up with its last block.\<close>

lemma ledger_free_first:
  assumes L: "ledger bs es lst M" and i: "i < length bs" "i \<le> lst" "block (bs ! i) = p" "p \<noteq> NULL"
    and t: "t = (p, caller_addr (bs ! i), block_size (bs ! i))"
    and b: "block b = NULL"
      "if ref_count (bs ! i) \<le> 1 then caller_addr b = NULL
       else caller_addr b = caller_addr (bs ! i) \<and> ref_count b = ref_count (bs ! i) - 1 \<and>
         total_size b = total_size (bs ! i) - block_size (bs ! i)"
  shows "ledger (bs[i := b]) es lst (M - {#t#})" "t \<in># M"
proof -
  note l = ledger_basics [OF L]
  let ?c = "caller_addr (bs ! i)"
  have c: "?c \<noteq> NULL" using l(6) [of "bs ! i"] i by auto
  show t_in: "t \<in># M" 
    unfolding l(1) [symmetric] in_lines using i t by (intro disjI1 bexI [of _ "bs ! i"]) simp_all
  from multi_member_split [OF this] obtain N where N: "M = add_mset t N" ..
  have "accounts M (bs ! i)" by (rule l(5) [OF _ c]) (use i in simp)
  then have acc: "ref_count (bs ! i) = of_nat (size (held_by M ?c))" "total_size (bs ! i) = bytes (held_by M ?c)"
    by (simp_all only: accounts_def)
  have M: "held_by M ?c = add_mset t (held_by N ?c)" using N t by simp
  have u: "unique_callers bs" using L by (simp add: ledger_def)
  have bound: "size (held_by M ?c) < 2 ^ 32" using held_bound [OF u c, of es] l(1,3) by simp
  have "size (held_by N ?c) = 0" if "ref_count (bs ! i) \<le> 1"
  proof -
    have "unat (ref_count (bs ! i)) = size (held_by M ?c)" using acc(1) bound by (simp add: unat_count)
    moreover have "unat (ref_count (bs ! i)) \<le> 1" using that by (simp add: word_le_nat_alt)
    ultimately show ?thesis using M by simp
  qed
  then have last: "held_by N ?c = {#}" if "ref_count (bs ! i) \<le> 1" using that by simp
  have "block_line (bs ! i) = {#t#}" using i t by (simp add: block_line_def)
  then have "lines (bs[i := b]) es + {#t#} = M"
    using lines_update_block [OF i(1), of b es] l(1) b(1) by (simp add: block_line_def)
  then have new: "lines (bs[i := b]) es = N" using N by simp
  have "ledger (bs[i := b]) es lst N"
  proof (rule ledger_replace [OF L i(1) _ _ _ _ _ _ _ new])
    show "caller_addr b \<noteq> NULL \<longrightarrow> accounts N b"
      using b(2) acc M t by (auto simp: accounts_def split: if_splits)
    show "\<forall>q. count (image_mset fst N) q \<le> 1"
    proof
      fix q
      have "count (image_mset fst N) q \<le> count (image_mset fst M) q" by (simp add: N)
      then show "count (image_mset fst N) q \<le> 1" using l(2) le_trans by blast
    qed
    show "\<forall>e \<in> set es. ext_ok (bs[i := b]) e"
    proof
      fix e assume e: "e \<in> set es"
      show "ext_ok (bs[i := b]) e"
      proof (rule ext_ok_keep [OF l(4) [OF e] i(1)])
        have "ref_count (bs ! i) \<le> 1 \<Longrightarrow> ext_caller_addr e \<noteq> ?c"
        proof
          assume r: "ref_count (bs ! i) \<le> 1" and ec: "ext_caller_addr e = ?c"
          then have "ext_block e \<noteq> NULL" using l(4) [OF e] c by (simp add: ext_ok_def)
          then have "(ext_block e, ?c, ext_size e) \<in># N" using e ec new in_lines by force
          then have "held_by N ?c \<noteq> {#}" unfolding held_by_empty by force
          then show False using last [OF r] by simp
        qed
        then show "?c \<in> {NULL, caller_addr b, ext_caller_addr e} \<longrightarrow> ?c \<in> {NULL, caller_addr b}"
          using b(2) by (auto split: if_splits)
      qed
    qed
    show "held_by N q = held_by M q" if "q \<noteq> ?c" for q using that N t by simp
  qed (use b i l(3) in \<open>simp_all split: if_splits\<close>)
  then show "ledger (bs[i := b]) es lst (M - {#t#})" using N by simp
qed

text \<open>Releasing a block of the extended array: its caller is counted down, and may be left with no block.\<close>

lemma ledger_free_further:
  assumes L: "ledger bs es lst M" and k: "k < length es" "ext_block (es ! k) = p" "p \<noteq> NULL"
    and i: "i < length bs" "i \<le> lst" "caller_addr (bs ! i) = ext_caller_addr (es ! k)"
    and t: "t = (p, ext_caller_addr (es ! k), ext_size (es ! k))"
    and b: "block b = block (bs ! i)" "caller_addr b = caller_addr (bs ! i)" "block_size b = block_size (bs ! i)"
      "ref_count b = ref_count (bs ! i) - 1" "total_size b = total_size (bs ! i) - ext_size (es ! k)"
    and e: "ext_block e = NULL" "ext_caller_addr e = NULL"
  shows "ledger (bs[i := b]) (es[k := e]) lst (M - {#t#})" "t \<in># M"
proof -
  note l = ledger_basics [OF L]
  let ?c = "ext_caller_addr (es ! k)"
  have c: "?c \<noteq> NULL" using l(4) [of "es ! k"] k by (auto simp: ext_ok_def)
  show t_in: "t \<in># M"
    unfolding l(1) [symmetric] in_lines using k t by (intro disjI2 bexI [of _ "es ! k"]) simp_all
  from multi_member_split [OF this] obtain N where N: "M = add_mset t N" ..
  have "caller_addr (bs ! i) \<noteq> NULL" using i(3) c by simp
  then have "accounts M (bs ! i)" by (rule l(5) [OF nth_mem [OF i(1)]])
  then have acc: "ref_count (bs ! i) = of_nat (size (held_by M ?c))" "total_size (bs ! i) = bytes (held_by M ?c)"
    by (simp_all only: accounts_def i(3))
  have M: "held_by M ?c = add_mset t (held_by N ?c)" using N t by simp
  have "block_line b = block_line (bs ! i)" using b by (simp add: block_line_def)
  then have "lines (bs[i := b]) es = M" using lines_update_block [OF i(1), of b es] l(1) by simp
  moreover have "ext_line (es ! k) = {#t#}" using k t by (simp add: ext_line_def)
  ultimately have new: "lines (bs[i := b]) (es[k := e]) = N"
    using lines_update_ext [OF k(1), of "bs[i := b]" e] e N by (simp add: ext_line_def)
  have "ledger (bs[i := b]) (es[k := e]) lst N"
  proof (rule ledger_replace [OF L i(1) _ _ _ _ _ _ _ new])
    have "accounts N b" using b(2,4,5) i(3) acc M t by (simp add: accounts_def)
    then show "caller_addr b \<noteq> NULL \<longrightarrow> accounts N b" by simp
    show "\<forall>q. count (image_mset fst N) q \<le> 1"
    proof
      fix q
      have "count (image_mset fst N) q \<le> count (image_mset fst M) q" by (simp add: N)
      then show "count (image_mset fst N) q \<le> 1" using l(2) le_trans by blast
    qed
    have "ext_ok (bs[i := b]) x" if "x \<in> set es" for x using ext_ok_keep [OF l(4) [OF that] i(1)] b(2) by simp
    moreover have "ext_ok (bs[i := b]) e" using e by (simp add: ext_ok_def)
    ultimately show "\<forall>x \<in> set (es[k := e]). ext_ok (bs[i := b]) x" using set_update_subset_insert by fastforce
    show "held_by N q = held_by M q" if "q \<noteq> caller_addr b" for q using that N t b(2) i(3) by simp
    show "length (es[k := e]) + 1 < 2 ^ 32" using l(3) by simp
  qed (use b i c in simp_all)
  then show "ledger (bs[i := b]) (es[k := e]) lst (M - {#t#})" using N by simp
qed

text \<open>Resetting the marks of an entry, and giving it up when it counts no block.\<close>

lemma ledger_reset:
  assumes L: "ledger bs es lst M" and i: "i < length bs" "i \<le> lst"
    and b: "if ref_count (bs ! i) = 0 then caller_addr b = NULL \<and> block b = NULL
       else block b = block (bs ! i) \<and> caller_addr b = caller_addr (bs ! i) \<and> block_size b = block_size (bs ! i) \<and>
         ref_count b = ref_count (bs ! i) \<and> total_size b = total_size (bs ! i)"
  shows "ledger (bs[i := b]) es lst M"
proof -
  note l = ledger_basics [OF L]
  let ?c = "caller_addr (bs ! i)"
  have u: "unique_callers bs" using L by (simp add: ledger_def)
  have none: "held_by M ?c = {#}" if "ref_count (bs ! i) = 0" "?c \<noteq> NULL"
  proof -
    have "accounts M (bs ! i)" by (rule l(5) [OF nth_mem [OF i(1)] that(2)])
    then have "unat (of_nat (size (held_by M ?c)) :: u32) = 0" using that(1) by (simp add: accounts_def)
    moreover have "size (held_by M ?c) < 2 ^ 32" using held_bound [OF u that(2), of es] l(1,3) by simp
    ultimately show ?thesis by (simp add: unat_count)
  qed
  have no_t: "ref_count (bs ! i) = 0 \<Longrightarrow> t \<in># M \<Longrightarrow> ?c \<noteq> NULL \<Longrightarrow> fst (snd t) \<noteq> ?c" for t
    using none by (auto simp: held_by_empty)
  have empty: "block (bs ! i) = NULL" if r: "ref_count (bs ! i) = 0"
  proof (rule ccontr)
    assume n: "block (bs ! i) \<noteq> NULL"
    then have "?c \<noteq> NULL" using l(6) [OF nth_mem [OF i(1)]] by blast
    moreover have "(block (bs ! i), ?c, block_size (bs ! i)) \<in># M"
      unfolding l(1) [symmetric] in_lines using i(1) n by (intro disjI1 bexI [of _ "bs ! i"]) simp_all
    ultimately show False using no_t [OF r] by fastforce
  qed
  have "block_line b = block_line (bs ! i)"
    using b empty by (auto simp: block_line_def split: if_splits)
  then have new: "lines (bs[i := b]) es = M" using lines_update_block [OF i(1), of b es] l(1) by simp
  show ?thesis
  proof (rule ledger_replace [OF L i(1) _ _ _ _ _ _ _ new])
    show "caller_addr b = NULL \<longrightarrow> block b = NULL"
      using b l(6) [OF nth_mem [OF i(1)]] by (auto split: if_splits)
    show "caller_addr b \<noteq> NULL \<longrightarrow> accounts M b"
      using b l(5) [OF nth_mem [OF i(1)]] by (auto simp: accounts_def split: if_splits)
    show "\<forall>e \<in> set es. ext_ok (bs[i := b]) e"
    proof
      fix e assume e: "e \<in> set es"
      have "ref_count (bs ! i) = 0 \<longrightarrow> ?c \<noteq> NULL \<longrightarrow> ext_caller_addr e \<noteq> ?c"
      proof (intro impI notI)
        assume that: "ref_count (bs ! i) = 0" "?c \<noteq> NULL" and ec: "ext_caller_addr e = ?c"
        then have "ext_block e \<noteq> NULL" using l(4) [OF e] that(2) by (simp add: ext_ok_def)
        then have "(ext_block e, ?c, ext_size e) \<in># M" using e ec new in_lines by force
        then show False using no_t [OF that(1) _ that(2)] by fastforce
      qed
      then show "ext_ok (bs[i := b]) e"
        by (intro ext_ok_keep [OF l(4) [OF e] i(1)]) (use b in \<open>auto split: if_splits\<close>)
    qed
  qed (use b i l(2,3) in \<open>simp_all split: if_splits\<close>)
qed

end
