(* ===== verification/TrackerRef.thy ===== *)
theory TrackerRef
  imports TrackerInv
begin

text \<open>
  The tracker refines its ledger: recording a block adds a line, releasing it removes the line, whatever the
  order of the calls and the places in the arrays.
\<close>

section \<open>The tracker and the ledger\<close>

definition blocks_of :: "conf_t \<Rightarrow> mem_blocks_t list" where
  "blocks_of conf = (case mem_blocks conf of None \<Rightarrow> [] | Some bs \<Rightarrow> bs)"

definition exts_of :: "conf_t \<Rightarrow> mem_blocks_ext_t list" where
  "exts_of conf = (case ext_mem_blocks conf of None \<Rightarrow> [] | Some es \<Rightarrow> es)"

definition tracks :: "conf_t \<Rightarrow> ledger \<Rightarrow> bool" where
  "tracks conf M \<longleftrightarrow>
     (mem_blocks conf = None \<longrightarrow> last_mem_block_index conf = 0) \<and>
     (\<forall>bs. mem_blocks conf = Some bs \<longrightarrow>
        length bs = unat (mem_blocks_count conf) \<and> unat (last_mem_block_index conf) < length bs) \<and>
     (\<forall>es. ext_mem_blocks conf = Some es \<longrightarrow> length es = unat (ext_mem_blocks_count conf)) \<and>
     ledger (blocks_of conf) (exts_of conf) (unat (last_mem_block_index conf)) M \<and> allocated_memory conf = bytes M"

text \<open>
  What the callbacks promise: an array they return begins with the entries of the old one, the others are
  unused, and its length is the new count; the extended array leaves room for a last index. The hash of a
  block is an index into the extended array.
\<close>

definition extends_blocks :: "mem_blocks_t list option \<Rightarrow> mem_blocks_t list option \<times> u16 \<Rightarrow> bool" where
  "extends_blocks old = (\<lambda>(bs, count). case bs of None \<Rightarrow> True | Some bs \<Rightarrow>
     length bs = unat count \<and> bs \<noteq> [] \<and>
     (\<exists>new. bs = (case old of None \<Rightarrow> [] | Some bs \<Rightarrow> bs) @ new \<and> (\<forall>b \<in> set new. caller_addr b = NULL \<and> block b = NULL)))"

definition extends_exts :: "mem_blocks_ext_t list option \<Rightarrow> mem_blocks_ext_t list option \<times> u32 \<Rightarrow> bool" where
  "extends_exts old = (\<lambda>(es, count). case es of None \<Rightarrow> True | Some es \<Rightarrow>
     length es = unat count \<and> length es + 1 < 2 ^ 32 \<and>
     (\<exists>new. es = (case old of None \<Rightarrow> [] | Some es \<Rightarrow> es) @ new \<and>
        (\<forall>e \<in> set new. ext_caller_addr e = NULL \<and> ext_block e = NULL)))"

definition client_ok :: "conf_t \<Rightarrow> bool" where
  "client_ok conf \<longleftrightarrow> (\<forall>k bs n. extends_blocks bs (alloc_mem_blocks conf k bs n)) \<and>
     (\<forall>k es n. extends_exts es (ext_alloc_mem_blocks conf k es n)) \<and>
     (case block_index_hash conf of None \<Rightarrow> True | Some hash \<Rightarrow> \<forall>p n. hash p n \<le> n)"

lemma no_lines: "(\<And>x. x \<in> set xs \<Longrightarrow> f x = {#}) \<Longrightarrow> sum_list (map f xs) = ({#} :: ledger)"
  by (induction xs) auto

lemma ledger_grow_blocks:
  assumes L: "ledger bs es lst M" and new: "\<forall>b \<in> set new. caller_addr b = NULL \<and> block b = NULL"
    and l: "lst < length bs \<or> bs = []"
  shows "ledger (bs @ new) es lst M"
proof -
  note l = ledger_basics [OF L]
  have n: "caller_addr ((bs @ new) ! i) = NULL" if "\<not> i < length bs" "i < length (bs @ new)" for i
    using that new by (simp add: nth_append)
  have "\<forall>i < length bs. lst < i \<longrightarrow> caller_addr (bs ! i) = NULL" using L by (simp add: ledger_def)
  then have "caller_addr ((bs @ new) ! i) = NULL" if "i < length (bs @ new)" "lst < i" for i
    using that n [of i] by (cases "i < length bs") (simp_all add: nth_append)
  moreover have "unique_callers (bs @ new)"
    unfolding unique_callers_def
  proof (intro allI impI)
    fix i j assume a: "i < length (bs @ new)" "j < length (bs @ new)" "caller_addr ((bs @ new) ! i) = caller_addr ((bs @ new) ! j)"
      "caller_addr ((bs @ new) ! i) \<noteq> NULL"
    then have ij: "i < length bs" "j < length bs" using n [of i] n [of j] by metis+
    have "unique_callers bs" using L by (simp add: ledger_def)
    then show "i = j" using a(3,4) ij unfolding unique_callers_def by (simp add: nth_append)
  qed
  moreover have "lines (bs @ new) es = lines bs es"
    using no_lines [of new block_line] new by (simp add: lines_def block_line_def)
  moreover have "ext_ok (bs @ new) e" if "ext_ok bs e" for e using that by (auto simp: ext_ok_def)
  moreover have "block b = NULL" if "b \<in> set (bs @ new)" "caller_addr b = NULL" for b using that l(6) new by auto
  moreover have "accounts M b" if "b \<in> set (bs @ new)" "caller_addr b \<noteq> NULL" for b using that l(5) new by auto
  ultimately show ?thesis using l(1,2,3,4) unfolding ledger_alt by simp
qed

lemma ledger_grow_exts:
  assumes L: "ledger bs es lst M" and new: "\<forall>e \<in> set new. ext_caller_addr e = NULL \<and> ext_block e = NULL"
    and l: "length (es @ new) + 1 < 2 ^ 32"
  shows "ledger bs (es @ new) lst M"
proof -
  have "lines bs (es @ new) = lines bs es"
    using no_lines [of new ext_line] new by (simp add: lines_def ext_line_def)
  moreover have "ext_ok bs e" if "e \<in> set (es @ new)" for e
    using that ledger_basics(4) [OF L] new by (auto simp: ext_ok_def)
  ultimately show ?thesis using L l unfolding ledger_alt by simp
qed

lemma grow_mem_blocks_result:
  assumes t: "tracks conf M" and c: "client_ok conf"
  shows "client_ok (grow_mem_blocks conf)"
    "mem_blocks (grow_mem_blocks conf) = None \<or> tracks (grow_mem_blocks conf) M"
    "ext_mem_blocks (grow_mem_blocks conf) = ext_mem_blocks conf"
proof -
  obtain r count where g: "alloc_mem_blocks conf (calls_made conf) (mem_blocks conf) (mem_blocks_count conf) = (r, count)"
    by fastforce
  have e: "extends_blocks (mem_blocks conf) (r, count)" using c g unfolding client_ok_def by metis
  have G: "grow_mem_blocks conf = conf\<lparr>mem_blocks := r, mem_blocks_count := count, calls_made := Suc (calls_made conf)\<rparr>"
    by (simp add: grow_mem_blocks_def g)
  show "client_ok (grow_mem_blocks conf)" using c by (simp add: G client_ok_def)
  show "ext_mem_blocks (grow_mem_blocks conf) = ext_mem_blocks conf" by (simp add: G)
  show "mem_blocks (grow_mem_blocks conf) = None \<or> tracks (grow_mem_blocks conf) M"
  proof (cases r)
    case (Some bs)
    obtain new where new: "bs = blocks_of conf @ new" "\<forall>b \<in> set new. caller_addr b = NULL \<and> block b = NULL"
      "length bs = unat count" "bs \<noteq> []"
      using e [unfolded Some extends_blocks_def, simplified prod.case option.case, folded blocks_of_def] by blast
    let ?l = "unat (last_mem_block_index conf)"
    have l: "?l < length (blocks_of conf) \<or> blocks_of conf = [] \<and> ?l = 0"
      using t unfolding tracks_def by (auto simp: blocks_of_def split: option.splits)
    then have "?l < length bs" using new(1,4) by auto
    moreover have "ledger bs (exts_of conf) ?l M"
      unfolding new(1) by (rule ledger_grow_blocks) (use t l new(2) in \<open>auto simp: tracks_def\<close>)
    ultimately have "tracks (grow_mem_blocks conf) M"
      using t new(3) unfolding tracks_def by (simp add: G Some blocks_of_def exts_of_def split: option.split)
    then show ?thesis ..
  qed (simp add: G)
qed

lemma grown_callers:
  assumes "client_ok conf" "mem_blocks (grow_mem_blocks conf) = Some bs"
  shows "caller_addr ` set bs \<subseteq> insert NULL (caller_addr ` set (blocks_of conf))"
proof -
  have "extends_blocks (mem_blocks conf) (alloc_mem_blocks conf (calls_made conf) (mem_blocks conf) (mem_blocks_count conf))"
    using assms(1) by (simp add: client_ok_def)
  then show ?thesis
    using assms(2) by (auto simp: grow_mem_blocks_def extends_blocks_def blocks_of_def split: prod.splits)
qed

lemma grow_ext_mem_blocks_result:
  assumes t: "tracks conf M" and c: "client_ok conf"
  shows "client_ok (grow_ext_mem_blocks conf)"
    "ext_mem_blocks (grow_ext_mem_blocks conf) = None \<or> tracks (grow_ext_mem_blocks conf) M"
    "mem_blocks (grow_ext_mem_blocks conf) = mem_blocks conf"
    "last_mem_block_index (grow_ext_mem_blocks conf) = last_mem_block_index conf"
    "ext_mem_blocks conf = None \<longrightarrow> tracks (grow_ext_mem_blocks conf) M"
proof -
  obtain r count where g: "ext_alloc_mem_blocks conf (calls_made conf) (ext_mem_blocks conf) (ext_mem_blocks_count conf) = (r, count)"
    by fastforce
  have e: "extends_exts (ext_mem_blocks conf) (r, count)" using c g unfolding client_ok_def by metis
  have G: "grow_ext_mem_blocks conf = conf\<lparr>ext_mem_blocks := r, ext_mem_blocks_count := count, calls_made := Suc (calls_made conf)\<rparr>"
    by (simp add: grow_ext_mem_blocks_def g)
  show "client_ok (grow_ext_mem_blocks conf)" using c by (simp add: G client_ok_def)
  show "mem_blocks (grow_ext_mem_blocks conf) = mem_blocks conf"
    "last_mem_block_index (grow_ext_mem_blocks conf) = last_mem_block_index conf" by (simp_all add: G)
  have some: "tracks (grow_ext_mem_blocks conf) M" if r: "r = Some es" for es
  proof -
    obtain new where new: "es = exts_of conf @ new" "\<forall>e \<in> set new. ext_caller_addr e = NULL \<and> ext_block e = NULL"
      "length es = unat count" "length es + 1 < 2 ^ 32"
      using e [unfolded r extends_exts_def, simplified prod.case option.case, folded exts_of_def] by blast
    have "ledger (blocks_of conf) es (unat (last_mem_block_index conf)) M"
      unfolding new(1) by (rule ledger_grow_exts) (use t new(1,2,4) in \<open>auto simp: tracks_def\<close>)
    then show ?thesis using t new(3) unfolding tracks_def by (auto simp: G r blocks_of_def exts_of_def)
  qed
  then show "ext_mem_blocks (grow_ext_mem_blocks conf) = None \<or> tracks (grow_ext_mem_blocks conf) M"
    by (cases r) (simp_all add: G)
  show "ext_mem_blocks conf = None \<longrightarrow> tracks (grow_ext_mem_blocks conf) M"
    using some t by (cases r) (auto simp: G tracks_def blocks_of_def exts_of_def)
qed

section \<open>The search functions\<close>

lemma tracks_blocks:
  assumes "tracks conf M" "mem_blocks conf = Some bs"
  shows "length bs = unat (mem_blocks_count conf)" "unat (last_mem_block_index conf) < length bs"
    "length bs < 2 ^ 16" "blocks_of conf = bs" "ledger bs (exts_of conf) (unat (last_mem_block_index conf)) M"
  using assms unsigned_less [of "mem_blocks_count conf"] by (auto simp: tracks_def blocks_of_def)

lemma search_used:
  assumes t: "tracks conf M" "mem_blocks conf = Some bs"
  obtains (found) i :: u16 where "search (mem_blocks conf) P (\<lambda>i. i \<le> last_mem_block_index conf) 0 = Some (Some i)"
      "unat i < length bs" "unat i \<le> unat (last_mem_block_index conf)" "P (bs ! unat i)"
  | (missing) "search (mem_blocks conf) P (\<lambda>i. i \<le> last_mem_block_index conf) (0 :: u16) = Some None"
      "\<And>j. j \<le> unat (last_mem_block_index conf) \<Longrightarrow> \<not> P (bs ! j)"
proof -
  note b = tracks_blocks [OF t]
  let ?n = "Suc (unat (last_mem_block_index conf))"
  have w: "j \<le> last_mem_block_index conf \<longleftrightarrow> unat j < ?n" for j by (simp add: word_le_nat_alt less_Suc_eq_le)
  have n: "?n \<le> length bs" "?n < 2 ^ LENGTH(16)" using b by auto
  show thesis
    using found missing t(2) b(2)
    by (cases rule: search_result [of "\<lambda>i. i \<le> last_mem_block_index conf" ?n bs P "0 :: u16", OF w n]) auto
qed

lemma find_caller_result:
  assumes t: "tracks conf M" "mem_blocks conf = Some bs" and c: "c \<noteq> NULL"
  obtains (found) i where "find_caller_index conf c = Some (Some i)" "unat i < length bs"
      "unat i \<le> unat (last_mem_block_index conf)" "caller_addr (bs ! unat i) = c"
  | (missing) "find_caller_index conf c = Some None" "c \<notin> caller_addr ` set bs"
proof (cases rule: search_used [OF t, of "\<lambda>b. caller_addr b = c"])
  case (1 i)
  then show thesis using found by (simp add: find_caller_index_def)
next
  case 2
  have "c \<notin> caller_addr ` set bs"
  proof
    assume "c \<in> caller_addr ` set bs"
    then obtain j where "j < length bs" "caller_addr (bs ! j) = c" by (auto simp: in_set_conv_nth)
    then show False using 2(2) [of j] tracks_blocks(5) [OF t] c unfolding ledger_alt by (metis not_le)
  qed
  then show thesis using missing 2(1) by (simp add: find_caller_index_def)
qed

lemma find_free_result:
  assumes t: "tracks conf M" "mem_blocks conf = Some bs"
  obtains (found) i where "find_free_index conf = Some (Some i)" "unat i < length bs" "caller_addr (bs ! unat i) = NULL"
  | (missing) "find_free_index conf = Some None"
proof -
  note b = tracks_blocks [OF t]
  have w: "j < mem_blocks_count conf \<longleftrightarrow> unat j < length bs" for j by (simp add: b(1) word_less_nat_alt)
  have n: "length bs < 2 ^ LENGTH(16)" using b(3) by simp
  show thesis
    using found missing t(2)
    by (cases rule: search_result [of "\<lambda>i. i < mem_blocks_count conf" "length bs" bs "\<lambda>b. caller_addr b = NULL" "0 :: u16",
          OF w order.refl n]) (auto simp: find_free_index_def)
qed

text \<open>The search around the extended array, from any start within it.\<close>

lemma search_around:
  fixes start cnt :: u32
  assumes n: "length es = unat cnt" and s: "start \<le> cnt"
  obtains (found) k where "unat k < length es" "P (es ! unat k)"
      "do { found \<leftarrow> search (Some es) P (\<lambda>i. i < cnt) start;
         case found of Some i \<Rightarrow> Some (Some i)
         | None \<Rightarrow> if start = 0 then Some None else search (Some es) P (\<lambda>i. i < start) 0 } = Some (Some k)"
  | (missing) "\<And>k. k < length es \<Longrightarrow> \<not> P (es ! k)"
      "do { found \<leftarrow> search (Some es) P (\<lambda>i. i < cnt) start;
         case found of Some i \<Rightarrow> Some (Some i)
         | None \<Rightarrow> if start = 0 then Some None else search (Some es) P (\<lambda>i. i < start) 0 } = Some None"
proof -
  have w: "j < cnt \<longleftrightarrow> unat j < length es" "j < start \<longleftrightarrow> unat j < unat start" for j
    by (simp_all add: n word_less_nat_alt)
  have b: "length es < 2 ^ LENGTH(32)" "unat start \<le> length es" "unat start < 2 ^ LENGTH(32)"
    using unsigned_less [of cnt] unsigned_less [of start] s by (simp_all add: n word_le_nat_alt)
  show thesis
  proof (cases rule: search_result [of "\<lambda>i. i < cnt" "length es" es P start, OF w(1) order.refl b(1)])
    case (1 k)
    then show thesis using found by simp
  next
    case upper: 2
    show thesis
    proof (cases rule: search_result [of "\<lambda>i. i < start" "unat start" es P 0, OF w(2) b(2,3)])
      case (1 k)
      then have "start \<noteq> 0" by auto
      with 1 show thesis using found [of k] upper(1) b(2) by simp
    next
      case 2
      have "\<not> P (es ! k)" if "k < length es" for k
        using upper(2) [of k] 2(2) [of k] that by (cases "unat start \<le> k") auto
      then show thesis using missing upper(1) 2(1) by simp
    qed
  qed
qed

lemma tracks_exts:
  assumes "tracks conf M" "ext_mem_blocks conf = Some es"
  shows "length es = unat (ext_mem_blocks_count conf)" "exts_of conf = es"
  using assms by (auto simp: tracks_def exts_of_def)

lemma hash_in_range: "client_ok conf \<Longrightarrow> hash_index conf p \<le> ext_mem_blocks_count conf"
  by (auto simp: client_ok_def hash_index_def split: option.splits)

section \<open>Recording a block\<close>

lemma update_block_at:
  "mem_blocks conf = Some bs \<Longrightarrow> i < length bs \<Longrightarrow>
     update_block conf i f = Some (conf\<lparr>mem_blocks := Some (bs[i := f (bs ! i)])\<rparr>)"
  by (simp add: update_block_def array_at_def)

lemma store_ext_block_at:
  "ext_mem_blocks conf = Some es \<Longrightarrow> i < length es \<Longrightarrow>
     store_ext_block conf i e = Some (conf\<lparr>ext_mem_blocks := Some (es[i := e])\<rparr>)"
  by (simp add: store_ext_block_def store_at_def)

lemma store_first_result:
  assumes t: "tracks conf M" "mem_blocks conf = Some bs" and i: "unat i < length bs" "caller_addr (bs ! unat i) = NULL"
    and c: "c \<noteq> NULL" "c \<notin> caller_addr ` set bs" and p: "p \<noteq> NULL" "p \<notin> fst ` set_mset M"
  shows "\<exists>conf'. store_first conf i c fn ln p n = Some (0, conf') \<and> tracks conf' (add_mset (p, c, n) M) \<and>
    client_ok conf' = client_ok conf"
proof -
  note tb = tracks_blocks [OF t]
  let ?b = "(bs ! unat i)\<lparr>block := p, caller_addr := c, block_size := n,
         total_size := n, lifetime := 0, ref_count := 1, function_name := fn, line := ucast ln,
         permanent := False, permanent_printed := False\<rparr>"
  let ?l = "if i > last_mem_block_index conf then i else last_mem_block_index conf"
  let ?conf = "conf\<lparr>mem_blocks := Some (bs[unat i := ?b]), last_mem_block_index := ?l,
    allocated_memory := allocated_memory conf + n\<rparr>"
  have "ledger (bs[unat i := ?b]) (exts_of conf) (max (unat (last_mem_block_index conf)) (unat i)) (add_mset (p, c, n) M)"
    by (rule ledger_first_block [OF tb(5) i c p]) simp_all
  moreover have "unat ?l = max (unat (last_mem_block_index conf)) (unat i)" by (simp add: word_less_nat_alt)
  ultimately have L: "ledger (bs[unat i := ?b]) (exts_of conf) (unat ?l) (add_mset (p, c, n) M)" by simp
  have "unat ?l < length bs" using tb(2) i(1) by simp
  then have "tracks ?conf (add_mset (p, c, n) M)"
    using L t tb(1) unfolding tracks_def blocks_of_def exts_of_def by (simp add: add.commute)
  moreover have "store_first conf i c fn ln p n = Some (0, ?conf)" using t(2) i(1) by (simp add: store_first_def update_block_at)
  moreover have "client_ok ?conf = client_ok conf" by (simp add: client_ok_def)
  ultimately show ?thesis by blast
qed

lemma store_further_result:
  assumes t: "tracks conf M" "mem_blocks conf = Some bs" "ext_mem_blocks conf = Some es"
    and i: "unat i < length bs" "unat i \<le> unat (last_mem_block_index conf)" "caller_addr (bs ! unat i) = c" "c \<noteq> NULL"
    and k: "unat k < length es" "ext_caller_addr (es ! unat k) = NULL" and p: "p \<noteq> NULL" "p \<notin> fst ` set_mset M"
  shows "\<exists>conf'. store_further conf i k c p n = Some (0, conf') \<and> tracks conf' (add_mset (p, c, n) M) \<and>
    client_ok conf' = client_ok conf"
proof -
  note tb = tracks_blocks [OF t(1,2)] and te = tracks_exts [OF t(1,3)]
  let ?b = "(bs ! unat i)\<lparr>ref_count := ref_count (bs ! unat i) + 1, total_size := total_size (bs ! unat i) + n,
    lifetime := 0, permanent := False, permanent_printed := False\<rparr>"
  let ?e = "\<lparr>ext_block = p, ext_caller_addr = c, ext_size = n\<rparr>"
  let ?conf = "conf\<lparr>mem_blocks := Some (bs[unat i := ?b]), ext_mem_blocks := Some (es[unat k := ?e]),
    allocated_memory := allocated_memory conf + n\<rparr>"
  have L: "ledger (bs[unat i := ?b]) (es[unat k := ?e]) (unat (last_mem_block_index conf)) (add_mset (p, c, n) M)"
    by (rule ledger_further_block [OF tb(5) [unfolded te(2)] i k p]) (simp_all add: i(3))
  have "tracks ?conf (add_mset (p, c, n) M)"
    using L t(1) tb(1,2) te(1) unfolding tracks_def blocks_of_def exts_of_def by (simp add: add.commute)
  then show ?thesis
    using t(2,3) i(1) k(1) by (simp add: store_further_def update_block_at store_ext_block_at client_ok_def)
qed

text \<open>What the two ways of an allocation return: recorded; or refused, with the ledger as it was or an array lost.\<close>

definition recorded :: "ledger \<Rightarrow> addr \<times> addr \<times> u32 \<Rightarrow> int \<Rightarrow> conf_t \<Rightarrow> bool" where
  "recorded M t r conf' \<longleftrightarrow> client_ok conf' \<and>
     (r = 0 \<and> tracks conf' (add_mset t M) \<or>
      r = -1 \<and> (tracks conf' M \<or> mem_blocks conf' = None \<or> ext_mem_blocks conf' = None))"

lemma ext_find_free_result:
  assumes t: "tracks conf M" "ext_mem_blocks conf = Some es" and c: "client_ok conf"
  obtains (found) k where "ext_find_free_index conf (hash_index conf p) = Some (Some k)" "unat k < length es"
      "ext_caller_addr (es ! unat k) = NULL"
  | (missing) "ext_find_free_index conf (hash_index conf p) = Some None"
proof -
  note s = ext_find_free_index_def [of conf "hash_index conf p", unfolded t(2)]
  show thesis
  proof (cases rule: search_around [OF tracks_exts(1) [OF t] hash_in_range [OF c, of p], of "\<lambda>e. ext_caller_addr e = NULL"])
    case (1 k)
    then show thesis using found [of k] by (simp only: s)
  next
    case 2
    then show thesis using missing by (simp only: s)
  qed
qed

lemma alloc_further_result:
  assumes t: "tracks conf M" "mem_blocks conf = Some bs" and c: "client_ok conf"
    and i: "unat i < length bs" "unat i \<le> unat (last_mem_block_index conf)" "caller_addr (bs ! unat i) = c" "c \<noteq> NULL"
    and p: "p \<noteq> NULL" "p \<notin> fst ` set_mset M"
  shows "\<exists>r conf'. alloc_further conf i c p n = Some (r, conf') \<and> recorded M (p, c, n) r conf'"
proof -
  define conf1 where "conf1 = (if ext_mem_blocks conf = None then grow_ext_mem_blocks conf else conf)"
  note g = grow_ext_mem_blocks_result [OF t(1) c]
  have c1: "tracks conf1 M" "client_ok conf1" "mem_blocks conf1 = Some bs"
    "last_mem_block_index conf1 = last_mem_block_index conf"
    using t c g by (auto simp: conf1_def)
  show ?thesis
  proof (cases "ext_mem_blocks conf1")
    case None
    then have "alloc_further conf i c p n = Some (-1, conf1)" by (simp add: alloc_further_def conf1_def Let_def)
    then show ?thesis using c1 by (auto simp: recorded_def)
  next
    case (Some es)
    show ?thesis
    proof (cases rule: ext_find_free_result [OF c1(1) Some c1(2), of p])
      case (1 k)
      then have "alloc_further conf i c p n = store_further conf1 i k c p n"
        using Some by (simp add: alloc_further_def conf1_def Let_def)
      moreover obtain conf' where "store_further conf1 i k c p n = Some (0, conf')" "tracks conf' (add_mset (p, c, n) M)"
        "client_ok conf' = client_ok conf1"
        using store_further_result [OF c1(1,3) Some, of i c k p n] i p c1(4) 1 by auto
      ultimately show ?thesis using c1(2) by (auto simp: recorded_def)
    next
      case 2
      note g2 = grow_ext_mem_blocks_result [OF c1(1,2)]
      let ?conf2 = "grow_ext_mem_blocks conf1"
      show ?thesis
      proof (cases "ext_mem_blocks ?conf2")
        case None
        then have "alloc_further conf i c p n = Some (-1, ?conf2)"
          using Some 2 by (simp add: alloc_further_def conf1_def Let_def)
        then show ?thesis using g2(1) None by (auto simp: recorded_def)
      next
        case Some2: (Some es2)
        then have t2: "tracks ?conf2 M" using g2(2) by simp
        show ?thesis
        proof (cases rule: ext_find_free_result [OF t2 Some2 g2(1), of p])
          case (1 k)
          then have "alloc_further conf i c p n = store_further ?conf2 i k c p n"
            using Some Some2 2 by (simp add: alloc_further_def conf1_def Let_def)
          moreover obtain conf' where "store_further ?conf2 i k c p n = Some (0, conf')" "tracks conf' (add_mset (p, c, n) M)"
            "client_ok conf' = client_ok ?conf2"
            using store_further_result [OF t2 _ Some2, of bs i c k p n] i p c1(3,4) g2(3,4) 1 by auto
          ultimately show ?thesis using g2(1) by (auto simp: recorded_def)
        next
          case 2
          then have "alloc_further conf i c p n = Some (-1, ?conf2)"
            using Some Some2 \<open>ext_find_free_index conf1 (hash_index conf1 p) = Some None\<close>
            by (simp add: alloc_further_def conf1_def Let_def)
          then show ?thesis using g2(1) t2 by (auto simp: recorded_def)
        qed
      qed
    qed
  qed
qed

lemma alloc_first_result:
  assumes t: "tracks conf M" "mem_blocks conf = Some bs" and c: "client_ok conf"
    and caller: "c \<noteq> NULL" "c \<notin> caller_addr ` set bs" and p: "p \<noteq> NULL" "p \<notin> fst ` set_mset M"
  shows "\<exists>r conf'. alloc_first conf c fn ln p n = Some (r, conf') \<and> recorded M (p, c, n) r conf'"
proof (cases rule: find_free_result [OF t])
  case (1 i)
  then show ?thesis
    using store_first_result [OF t 1(2,3) caller p, of fn ln n] c by (auto simp: alloc_first_def recorded_def)
next
  case 2
  note g = grow_mem_blocks_result [OF t(1) c]
  let ?conf = "grow_mem_blocks conf"
  show ?thesis
  proof (cases "mem_blocks ?conf")
    case None
    then show ?thesis using 2 g(1) t(2) by (auto simp: alloc_first_def recorded_def Let_def)
  next
    case (Some bs2)
    then have t2: "tracks ?conf M" using g(2) by simp
    have nc: "c \<notin> caller_addr ` set bs2"
      using grown_callers [OF c Some] caller t(2) by (auto simp: blocks_of_def)
    show ?thesis
    proof (cases rule: find_free_result [OF t2 Some])
      case (1 i)
      then show ?thesis
        using store_first_result [OF t2 Some 1(2,3) caller(1) nc p, of fn ln n] g(1) 2 Some
        by (auto simp: alloc_first_def recorded_def Let_def)
    next
      case nofree: 2
      then show ?thesis using 2 g(1) t2 Some by (auto simp: alloc_first_def recorded_def Let_def)
    qed
  qed
qed

text \<open>One step of the tracker: a block is recorded for a caller.\<close>

lemma tracker_alloc_result:
  assumes t: "tracks conf M" and c: "client_ok conf" and caller: "c \<noteq> NULL" and p: "p \<noteq> NULL" "p \<notin> fst ` set_mset M"
  shows "\<exists>r conf'. tracker_alloc conf c fn ln p n = Some (r, conf') \<and> recorded M (p, c, n) r conf'"
proof -
  define conf1 where "conf1 = (if mem_blocks conf = None then grow_mem_blocks conf else conf)"
  note g = grow_mem_blocks_result [OF t(1) c]
  have c1: "client_ok conf1" "mem_blocks conf1 \<noteq> None \<Longrightarrow> tracks conf1 M" "ext_mem_blocks conf1 = ext_mem_blocks conf"
    using t c g by (auto simp: conf1_def)
  show ?thesis
  proof (cases "mem_blocks conf1")
    case None
    then have "mem_blocks conf = None" by (auto simp: conf1_def split: if_splits)
    then have "tracks conf1 M"
      using t None unfolding conf1_def by (auto simp: grow_mem_blocks_def tracks_def blocks_of_def exts_of_def split: prod.splits)
    then show ?thesis
      using None p(1) c1(1) by (auto simp: tracker_alloc_def conf1_def recorded_def Let_def)
  next
    case (Some bs)
    then have t1: "tracks conf1 M" using c1(2) by simp
    have e: "tracker_alloc conf c fn ln p n = do {
             found \<leftarrow> find_caller_index conf1 c;
             case found of
               Some caller_index \<Rightarrow> alloc_further conf1 caller_index c p n
             | None \<Rightarrow> alloc_first conf1 c fn ln p n }"
      unfolding tracker_alloc_def Let_def conf1_def [symmetric] using Some p(1) by simp
    show ?thesis
    proof (cases rule: find_caller_result [OF t1 Some caller])
      case (1 i)
      then show ?thesis using e alloc_further_result [OF t1 Some c1(1) 1(2,3,4) caller p] by simp
    next
      case 2
      then show ?thesis using e alloc_first_result [OF t1 Some c1(1) caller 2(2) p] by simp
    qed
  qed
qed

section \<open>Releasing a block\<close>

lemma ext_find_block_result:
  assumes t: "tracks conf M" "ext_mem_blocks conf = Some es" and c: "client_ok conf"
  obtains (found) k where "ext_find_block_index conf p (hash_index conf p) = Some (Some k)" "unat k < length es"
      "ext_block (es ! unat k) = p"
  | (missing) "ext_find_block_index conf p (hash_index conf p) = Some None" "\<And>k. k < length es \<Longrightarrow> ext_block (es ! k) \<noteq> p"
proof -
  note s = ext_find_block_index_def [of conf p "hash_index conf p", unfolded t(2)]
  show thesis
  proof (cases rule: search_around [OF tracks_exts(1) [OF t] hash_in_range [OF c, of p], of "\<lambda>e. ext_block e = p"])
    case (1 k)
    then show thesis using found [of k] by (simp only: s)
  next
    case 2
    show thesis by (rule missing [OF _ 2(1)]) (use 2(2) in \<open>simp_all only: s\<close>)
  qed
qed

lemma find_block_result:
  assumes t: "tracks conf M" "mem_blocks conf = Some bs" and p: "p \<noteq> NULL"
  obtains (found) i where "find_block_index conf p = Some (Some i)" "unat i < length bs"
      "unat i \<le> unat (last_mem_block_index conf)" "block (bs ! unat i) = p"
  | (missing) "find_block_index conf p = Some None" "p \<notin> block ` set bs"
proof (cases rule: search_used [OF t, of "\<lambda>b. block b = p"])
  case (1 i)
  then show thesis using found by (simp add: find_block_index_def)
next
  case 2
  note L = tracks_blocks(5) [OF t]
  have "p \<notin> block ` set bs"
  proof
    assume "p \<in> block ` set bs"
    then obtain j where j: "j < length bs" "block (bs ! j) = p" by (auto simp: in_set_conv_nth)
    then have "caller_addr (bs ! j) \<noteq> NULL" using ledger_basics(6) [OF L, of "bs ! j"] p by auto
    then have "j \<le> unat (last_mem_block_index conf)" using L j(1) unfolding ledger_alt by (metis not_le)
    then show False using 2(2) j(2) by blast
  qed
  then show thesis using missing 2(1) by (simp add: find_block_index_def)
qed

lemma free_first_result:
  assumes t: "tracks conf M" "mem_blocks conf = Some bs"
    and i: "unat i < length bs" "unat i \<le> unat (last_mem_block_index conf)" "block (bs ! unat i) = p" "p \<noteq> NULL"
  shows "\<exists>conf' c n. free_first conf i = Some (0, conf') \<and> (p, c, n) \<in># M \<and> tracks conf' (M - {#(p, c, n)#}) \<and>
    client_ok conf' = client_ok conf"
proof -
  note tb = tracks_blocks [OF t]
  let ?b = "bs ! unat i"
  let ?b1 = "if ref_count ?b \<le> 1
      then ?b\<lparr>ref_count := 0, caller_addr := NULL, total_size := 0, function_name := NULL, line := 0\<rparr>
      else ?b\<lparr>ref_count := ref_count ?b - 1, total_size := total_size ?b - block_size ?b\<rparr>"
  let ?b2 = "?b1\<lparr>block := NULL, block_size := 0, lifetime := 0, permanent := False, permanent_printed := False\<rparr>"
  let ?t = "(p, caller_addr ?b, block_size ?b)"
  let ?conf = "conf\<lparr>allocated_memory := allocated_memory conf - block_size ?b, mem_blocks := Some (bs[unat i := ?b2])\<rparr>"
  have b: "block ?b2 = NULL"
    "if ref_count ?b \<le> 1 then caller_addr ?b2 = NULL
       else caller_addr ?b2 = caller_addr ?b \<and> ref_count ?b2 = ref_count ?b - 1 \<and> total_size ?b2 = total_size ?b - block_size ?b"
    by simp_all
  note L = ledger_free_first [OF tb(5) i refl b]
  have "bytes M = block_size ?b + bytes (M - {#?t#})" using L(2) by (metis bytes_simps(2) insert_DiffM snd_conv)
  then have "tracks ?conf (M - {#?t#})"
    using L(1) t tb(1,2) unfolding tracks_def blocks_of_def exts_of_def by simp
  moreover have "free_first conf i = Some (0, ?conf)"
    unfolding free_first_def using t(2) i(1) by (simp add: block_at_def array_at_def update_block_at Let_def)
  moreover have "client_ok ?conf = client_ok conf" by (simp add: client_ok_def)
  ultimately show ?thesis using L(2) by blast
qed

lemma free_further_result:
  assumes t: "tracks conf M" "mem_blocks conf = Some bs" "ext_mem_blocks conf = Some es" and c: "client_ok conf"
    and p: "p \<noteq> NULL" "p \<notin> block ` set bs"
  shows "(\<exists>conf' c n. free_further conf 0 p = Some (0, conf') \<and> (p, c, n) \<in># M \<and> tracks conf' (M - {#(p, c, n)#}) \<and>
      client_ok conf' = client_ok conf) \<or>
    free_further conf 0 p = Some (-1, conf) \<and> p \<notin> fst ` set_mset M"
proof (cases rule: ext_find_block_result [OF t(1,3) c, of p])
  case (1 k)
  note tb = tracks_blocks [OF t(1,2)] and te = tracks_exts [OF t(1,3)]
  let ?lst = "unat (last_mem_block_index conf)"
  have L0: "ledger bs es ?lst M" using tb(5) te(2) by simp
  let ?e = "es ! unat k"
  have "ext_ok bs ?e" using ledger_basics(4) [OF L0 nth_mem [OF 1(2)]] .
  then have e: "ext_caller_addr ?e \<noteq> NULL" "ext_caller_addr ?e \<in> caller_addr ` set bs"
    using 1(3) p(1) by (auto simp: ext_ok_def)
  obtain i where i: "find_caller_index conf (ext_caller_addr ?e) = Some (Some i)" "unat i < length bs" "unat i \<le> ?lst"
    "caller_addr (bs ! unat i) = ext_caller_addr ?e"
    using find_caller_result [OF t(1,2) e(1)] e(2) by metis
  let ?b = "(bs ! unat i)\<lparr>ref_count := ref_count (bs ! unat i) - 1, total_size := total_size (bs ! unat i) - ext_size ?e\<rparr>"
  let ?none = "\<lparr>ext_block = NULL, ext_caller_addr = NULL, ext_size = 0\<rparr>"
  let ?t = "(p, ext_caller_addr ?e, ext_size ?e)"
  let ?bs1 = "bs[unat i := ?b]"
  let ?es1 = "es[unat k := ?none]"
  have b: "block ?b = block (bs ! unat i)" "caller_addr ?b = caller_addr (bs ! unat i)"
    "block_size ?b = block_size (bs ! unat i)" "ref_count ?b = ref_count (bs ! unat i) - 1"
    "total_size ?b = total_size (bs ! unat i) - ext_size ?e" "ext_block ?none = NULL" "ext_caller_addr ?none = NULL"
    by simp_all
  note L1 = ledger_free_further [OF L0 1(2,3) p(1) i(2-4) refl b]
  let ?r = "\<lambda>b. let b = b\<lparr>lifetime := 0, permanent := False, permanent_printed := False\<rparr>
                     in if ref_count b = 0
                        then b\<lparr>block := NULL, caller_addr := NULL, block_size := 0, total_size := 0,
                               function_name := NULL, line := 0\<rparr>
                        else b"
  have z: "0 < length ?bs1" using tb(2) by auto
  have L2: "ledger (?bs1[0 := ?r (?bs1 ! 0)]) ?es1 ?lst (M - {#?t#})"
    by (rule ledger_reset [OF L1(1) z]) (simp_all add: Let_def)
  let ?conf = "conf\<lparr>mem_blocks := Some (?bs1[0 := ?r (?bs1 ! 0)]), allocated_memory := allocated_memory conf - ext_size ?e,
     ext_mem_blocks := Some ?es1\<rparr>"
  have "bytes M = ext_size ?e + bytes (M - {#?t#})" using L1(2) by (metis bytes_simps(2) insert_DiffM snd_conv)
  then have "tracks ?conf (M - {#?t#})"
    using L2 t tb(1,2) te(1) unfolding tracks_def blocks_of_def exts_of_def by simp
  moreover have "free_further conf 0 p = Some (0, ?conf)"
    unfolding free_further_def using t(2,3) i z 1
    by (simp add: ext_block_at_def array_at_def update_block_at store_ext_block_at)
  moreover have "client_ok ?conf = client_ok conf" by (simp add: client_ok_def)
  ultimately show ?thesis using L1(2) by blast
next
  case 2
  have L0: "lines bs es = M" using t by (simp add: tracks_def blocks_of_def exts_of_def ledger_alt)
  have "p \<notin> ext_block ` set es" using 2(2) by (metis imageE in_set_conv_nth)
  then have "p \<notin> fst ` set_mset M"
    unfolding L0 [symmetric] using p(2) by (auto simp: in_lines)
  moreover have "free_further conf 0 p = Some (-1, conf)" using 2(1) by (simp add: free_further_def)
  ultimately show ?thesis by simp
qed

lemma tracker_free_result:
  assumes t: "tracks conf M" and c: "client_ok conf" and p: "p \<noteq> NULL" "mem_blocks conf \<noteq> None"
  shows "(\<exists>conf' c n. tracker_free conf p = Some (0, conf') \<and> (p, c, n) \<in># M \<and> tracks conf' (M - {#(p, c, n)#}) \<and>
      client_ok conf') \<or>
    tracker_free conf p = Some (-1, conf) \<and> p \<notin> fst ` set_mset M"
proof -
  obtain bs where bs: "mem_blocks conf = Some bs" using p(2) by blast
  show ?thesis
  proof (cases rule: find_block_result [OF t bs p(1)])
    case (1 i)
    then have "tracker_free conf p = free_first conf i" using p bs by (simp add: tracker_free_def)
    then show ?thesis using free_first_result [OF t bs 1(2,3,4) p(1)] c by simp
  next
    case 2
    show ?thesis
    proof (cases "ext_mem_blocks conf")
      case None
      have "lines bs [] = M" using t bs None by (simp add: tracks_def blocks_of_def exts_of_def ledger_alt)
      then have "p \<notin> fst ` set_mset M" using 2(2) by (auto simp: in_lines)
      then show ?thesis using None 2(1) p bs by (simp add: tracker_free_def)
    next
      case (Some es)
      then have "tracker_free conf p = free_further conf 0 p" using 2(1) p bs by (simp add: tracker_free_def)
      then show ?thesis using free_further_result [OF t bs Some c p(1) 2(2)] c by simp
    qed
  qed
qed

end
