(* ===== verification/TrackerLists.thy ===== *)
theory TrackerLists
  imports TrackerRef
begin

text \<open>
  The reports of the tracker: ageing, the lists of allocators and the snapshot stay within their arrays and leave
  the ledger alone; the snapshot is the callers with the most memory, in decreasing order.
\<close>

section \<open>Marks do not matter to the ledger\<close>

definition same_counts :: "mem_blocks_t \<Rightarrow> mem_blocks_t \<Rightarrow> bool" where
  "same_counts b b' \<longleftrightarrow> block b' = block b \<and> caller_addr b' = caller_addr b \<and> block_size b' = block_size b \<and>
     ref_count b' = ref_count b \<and> total_size b' = total_size b"

lemma ledger_mark:
  assumes L: "ledger bs es lst M" and i: "i < length bs" and b: "same_counts (bs ! i) b"
  shows "ledger (bs[i := b]) es lst M"
proof -
  note l = ledger_basics [OF L]
  have eq: "map caller_addr (bs[i := b]) = map caller_addr bs"
    using i b by (simp add: map_update same_counts_def list_update_same_conv)
  have at: "caller_addr (bs[i := b] ! j) = caller_addr (bs ! j)" for j
    using i b by (cases "j = i") (simp_all add: same_counts_def)
  have set_eq: "caller_addr ` set (bs[i := b]) = caller_addr ` set bs"
    using arg_cong [OF eq, of set] by simp
  have "unique_callers (bs[i := b])"
    using L unfolding ledger_def unique_callers_def at length_list_update by blast
  moreover have "\<forall>j < length (bs[i := b]). lst < j \<longrightarrow> caller_addr (bs[i := b] ! j) = NULL"
    using L unfolding ledger_def at length_list_update by blast
  moreover have "block x = NULL" if "x \<in> set (bs[i := b])" "caller_addr x = NULL" for x
    using in_set_update [OF i that(1)] that(2) l(6) nth_mem [OF i] b unfolding same_counts_def by (metis nth_mem)
  moreover have "accounts M x" if "x \<in> set (bs[i := b])" "caller_addr x \<noteq> NULL" for x
    using in_set_update [OF i that(1)] that(2) l(5) nth_mem [OF i] b
    unfolding same_counts_def accounts_def by (metis nth_mem)
  moreover have "block_line b = block_line (bs ! i)" using b by (simp add: same_counts_def block_line_def)
  then have "lines (bs[i := b]) es = M" using lines_update_block [OF i, of b es] l(1) by simp
  moreover have "ext_ok (bs[i := b]) e" if "e \<in> set es" for e using l(4) [OF that] unfolding ext_ok_def set_eq .
  ultimately show ?thesis using l(2,3) unfolding ledger_alt by blast
qed

text \<open>The configuration, its lists apart.\<close>

definition lists_fit :: "conf_t \<Rightarrow> bool" where
  "lists_fit conf \<longleftrightarrow> unat (top_allocators_count conf) \<le> length (top_allocators conf) \<and>
     unat (permanent_allocators_count conf) \<le> length (permanent_allocators conf) \<and>
     unat (to_permanent_allocators_count conf) \<le> length (to_permanent_allocators conf) \<and>
     unat (max_snap_shot_allocators_count conf) \<le> length (max_snap_shot_allocators conf)"

definition sound :: "ledger \<Rightarrow> conf_t \<Rightarrow> bool" where
  "sound M conf \<longleftrightarrow> tracks conf M \<and> mem_blocks conf \<noteq> None \<and> lists_fit conf"

lemma sound_update:
  assumes s: "sound M conf" and i: "i \<le> unat (last_mem_block_index conf)" and f: "\<And>b. same_counts b (f b)"
  shows "\<exists>conf'. update_block conf i f = Some conf' \<and> sound M conf' \<and>
    last_mem_block_index conf' = last_mem_block_index conf"
proof -
  obtain bs where bs: "mem_blocks conf = Some bs" and t: "tracks conf M" using s by (auto simp: sound_def)
  note tb = tracks_blocks [OF t bs]
  have i: "i < length bs" using i tb(2) by simp
  have "ledger (bs[i := f (bs ! i)]) (exts_of conf) (unat (last_mem_block_index conf)) M"
    by (rule ledger_mark [OF tb(5) i f])
  then have "sound M (conf\<lparr>mem_blocks := Some (bs[i := f (bs ! i)])\<rparr>)"
    using s tb(1,2) unfolding sound_def tracks_def lists_fit_def blocks_of_def exts_of_def by simp
  then show ?thesis using update_block_at [OF bs i] by simp
qed

lemma sound_block_at:
  assumes "sound M conf" "i \<le> unat (last_mem_block_index conf)"
  shows "\<exists>b. block_at conf i = Some b"
proof -
  obtain bs where bs: "mem_blocks conf = Some bs" "tracks conf M" using assms(1) by (auto simp: sound_def)
  then show ?thesis using assms(2) tracks_blocks(2) [OF bs(2,1)] by (simp add: block_at_def array_at_def)
qed

lemma for_each_invariant:
  assumes "I s" "\<And>i s. i \<in> set is \<Longrightarrow> I s \<Longrightarrow> \<exists>s'. f i s = Some s' \<and> I s'"
  shows "\<exists>s'. for_each is f s = Some s' \<and> I s'"
  using assms
proof (induction "is" arbitrary: s)
  case (Cons i "is")
  obtain s1 where "f i s = Some s1" "I s1" using Cons.prems(2) [of i s] Cons.prems(1) by auto
  then show ?case using Cons.IH [of s1] Cons.prems(2) by simp
qed simp

section \<open>Ageing\<close>

lemma tracker_step_sound:
  assumes "sound M conf"
  shows "\<exists>conf'. tracker_step conf = Some conf' \<and> sound M conf'"
proof (cases "mem_blocks_count conf = 0")
  case False
  let ?I = "\<lambda>c. sound M c \<and> last_mem_block_index c = last_mem_block_index conf"
  let ?f = "\<lambda>i c. do { b \<leftarrow> block_at c i;
      (if block b \<noteq> NULL then update_block c i (\<lambda>b. b\<lparr>lifetime := lifetime b + 1\<rparr>) else Some c) }"
  have step: "\<exists>c'. ?f i c = Some c' \<and> ?I c'"
    if i: "i \<in> set [0..<Suc (unat (last_mem_block_index conf))]" and c: "?I c" for i c
  proof -
    have i': "i \<le> unat (last_mem_block_index c)" using i c by auto
    obtain b where "block_at c i = Some b" using sound_block_at [OF _ i'] c by blast
    moreover obtain c' where "update_block c i (\<lambda>b. b\<lparr>lifetime := lifetime b + 1\<rparr>) = Some c'" "sound M c'"
      "last_mem_block_index c' = last_mem_block_index c"
      using sound_update [of M c i "\<lambda>b. b\<lparr>lifetime := lifetime b + 1\<rparr>"] c i' by (auto simp: same_counts_def)
    ultimately show ?thesis using c by auto
  qed
  obtain c' where "for_each [0..<Suc (unat (last_mem_block_index conf))] ?f conf = Some c'" "?I c'"
    using for_each_invariant [of ?I conf _ ?f, OF _ step] assms by blast
  then show ?thesis using False by (simp add: tracker_step_def del: upt_Suc)
qed (use assms in \<open>simp add: tracker_step_def\<close>)

section \<open>Placing an allocator\<close>

lemma unat_u8_le: "unat (of_nat n :: u8) \<le> n"
  by (simp add: unsigned_of_nat take_bit_nat_less_eq_self)

lemma place_in_bounds:
  "unat n \<le> length xs \<Longrightarrow> \<exists>ys. place key lkey n b xs i = Some ys \<and> length ys = length xs"
proof (induction key lkey n b xs i rule: place.induct)
  case (1 key lkey n b xs i)
  show ?case
  proof (cases "i < unat n")
    case True
    then have i: "array_at xs i = Some (xs ! i)" using 1(2) by (simp add: array_at_def)
    have "unat (of_nat (unat n - i - 1) :: u8) \<le> unat n - i - 1" by (rule unat_u8_le)
    then have "i + 1 + unat (of_nat (unat n - i - 1) :: u8) \<le> length xs" using True 1(2) by linarith
    then show ?thesis
      using 1 True i by (subst place.simps) (auto simp: move_allocators_def store_at_def Let_def)
  qed (subst place.simps, simp)
qed

lemma on_list_total:
  assumes "unat n \<le> length xs"
  shows "\<exists>r. on_list xs n c = Some r"
proof -
  have w: "j < n \<longleftrightarrow> unat j < unat n" for j by (simp add: word_less_nat_alt)
  have b: "unat n < 2 ^ LENGTH(16)" using unsigned_less [of n] by simp
  show ?thesis
    by (cases rule: search_result [of "\<lambda>i. i < n" "unat n" xs "\<lambda>a. allocator_addr a = c" "0 :: u16", OF w assms b])
      (auto simp: on_list_def)
qed

lemma tracks_lists [simp]:
  "tracks (conf\<lparr>top_allocators := xs\<rparr>) M = tracks conf M"
  "tracks (conf\<lparr>permanent_allocators := xs\<rparr>) M = tracks conf M"
  "tracks (conf\<lparr>to_permanent_allocators := xs\<rparr>) M = tracks conf M"
  "tracks (conf\<lparr>max_snap_shot_allocators := xs\<rparr>) M = tracks conf M"
  by (simp_all add: tracks_def blocks_of_def exts_of_def)

lemma sound_lists:
  assumes "sound M conf"
  shows "lists_fit (conf\<lparr>top_allocators := xs\<rparr>) \<Longrightarrow> sound M (conf\<lparr>top_allocators := xs\<rparr>)"
    "lists_fit (conf\<lparr>permanent_allocators := xs\<rparr>) \<Longrightarrow> sound M (conf\<lparr>permanent_allocators := xs\<rparr>)"
    "lists_fit (conf\<lparr>to_permanent_allocators := xs\<rparr>) \<Longrightarrow> sound M (conf\<lparr>to_permanent_allocators := xs\<rparr>)"
    "lists_fit (conf\<lparr>max_snap_shot_allocators := xs\<rparr>) \<Longrightarrow> sound M (conf\<lparr>max_snap_shot_allocators := xs\<rparr>)"
  using assms by (simp_all add: sound_def)

lemma clear_allocators_fits:
  "unat n \<le> length xs \<Longrightarrow> \<exists>ys. clear_allocators xs n = Some ys \<and> length ys = length xs"
  by (simp add: clear_allocators_def)

lemma ucast_u8_index: "(ucast (c :: u8) :: u16) < n \<Longrightarrow> unat c < unat n"
  using unsigned_less [of c, where ?'a = nat] by (simp add: word_less_nat_alt unsigned_ucast_eq take_bit_nat_eq_self)

section \<open>The lists of allocators\<close>

lemma lists_visit_sound:
  assumes s: "sound M conf" and i: "i \<le> unat (last_mem_block_index conf)"
  shows "\<exists>conf' pc' tc'. lists_visit i (conf, pc, tc) = Some (conf', pc', tc') \<and> sound M conf' \<and>
    last_mem_block_index conf' = last_mem_block_index conf"
proof -
  have fit: "lists_fit conf" using s by (simp add: sound_def)
  obtain b where b: "block_at conf i = Some b" using sound_block_at [OF s i] by blast
  obtain found where f: "on_list (top_allocators conf) (top_allocators_count conf) (caller_addr b) = Some found"
    using on_list_total fit unfolding lists_fit_def by blast
  note v = lists_visit_def b f
  let ?perm = "ucast (to_permanent_steps_count conf) < lifetime b \<and> ucast tc < to_permanent_allocators_count conf"
  consider (skip) "block b = NULL \<or> found" | (old) "block b \<noteq> NULL" "\<not> found" "permanent b"
    | (ripe) "block b \<noteq> NULL" "\<not> found" "\<not> permanent b" ?perm
    | (young) "block b \<noteq> NULL" "\<not> found" "\<not> permanent b" "\<not> ?perm" by blast
  then show ?thesis
  proof cases
    case skip
    then show ?thesis using s by (auto simp: v)
  next
    case old
    show ?thesis
    proof (cases "\<not> permanent_printed b \<and> ucast pc < permanent_allocators_count conf")
      case True
      then have "unat pc < length (permanent_allocators conf)"
        using ucast_u8_index [of pc "permanent_allocators_count conf"] fit by (simp add: lists_fit_def)
      then have st: "store_at (permanent_allocators conf) (unat pc) (allocator_of b) =
          Some ((permanent_allocators conf)[unat pc := allocator_of b])" by (simp add: store_at_def)
      let ?c = "conf\<lparr>permanent_allocators := (permanent_allocators conf)[unat pc := allocator_of b]\<rparr>"
      have "sound M ?c" by (rule sound_lists(2) [OF s]) (use fit in \<open>simp add: lists_fit_def\<close>)
      then obtain c' where "update_block ?c i (\<lambda>b. b\<lparr>permanent_printed := True\<rparr>) = Some c'" "sound M c'"
        "last_mem_block_index c' = last_mem_block_index conf"
        using sound_update [of M ?c i "\<lambda>b. b\<lparr>permanent_printed := True\<rparr>"] i by (auto simp: same_counts_def)
      then show ?thesis using old True st by (simp add: v)
    next
      case False
      then show ?thesis using old s by (auto simp: v)
    qed
  next
    case ripe
    obtain c' where c': "update_block conf i (\<lambda>b. b\<lparr>permanent := True\<rparr>) = Some c'" "sound M c'"
      "last_mem_block_index c' = last_mem_block_index conf"
      using sound_update [OF s i, of "\<lambda>b. b\<lparr>permanent := True\<rparr>"] by (auto simp: same_counts_def)
    have same: "to_permanent_allocators c' = to_permanent_allocators conf"
      "to_permanent_allocators_count c' = to_permanent_allocators_count conf"
      using c'(1) by (auto simp: update_block_def split: bind_split_asm)
    have "unat tc < length (to_permanent_allocators c')"
      using ucast_u8_index [of tc "to_permanent_allocators_count conf"] ripe(4) fit same by (simp add: lists_fit_def)
    then have st: "store_at (to_permanent_allocators c') (unat tc) (allocator_of b) =
        Some ((to_permanent_allocators c')[unat tc := allocator_of b])" by (simp add: store_at_def)
    have "sound M (c'\<lparr>to_permanent_allocators := (to_permanent_allocators c')[unat tc := allocator_of b]\<rparr>)"
      by (rule sound_lists(3) [OF c'(2)]) (use c'(2) in \<open>simp add: lists_fit_def sound_def\<close>)
    then show ?thesis using ripe c'(1,3) st by (simp add: v)
  next
    case young
    obtain xs where xs: "place ref_count alloc_count (top_allocators_count conf) b (top_allocators conf) 0 = Some xs"
      "length xs = length (top_allocators conf)"
      using place_in_bounds fit unfolding lists_fit_def by blast
    have "sound M (conf\<lparr>top_allocators := xs\<rparr>)"
      by (rule sound_lists(1) [OF s]) (use fit xs(2) in \<open>simp add: lists_fit_def\<close>)
    then show ?thesis using young xs(1) by (auto simp: v)
  qed
qed

lemma permanent_printed_sound:
  assumes "sound M conf" "unat i \<le> Suc (unat (last_mem_block_index conf))"
  shows "\<exists>conf'. permanent_printed_value_set conf NULL v i = Some conf' \<and> sound M conf'"
  using assms
proof (induction "Suc (unat (last_mem_block_index conf)) - unat i" arbitrary: conf i)
  case 0
  then have "\<not> i \<le> last_mem_block_index conf" by (simp add: word_le_nat_alt)
  then show ?case using 0(2) by (subst permanent_printed_value_set.simps) simp
next
  case (Suc k)
  then have i: "unat i \<le> unat (last_mem_block_index conf)" by linarith
  obtain bs where bs: "mem_blocks conf = Some bs" "tracks conf M" using Suc.prems(1) by (auto simp: sound_def)
  have "unat (last_mem_block_index conf) + 1 < 2 ^ 16" using tracks_blocks(2,3) [OF bs(2,1)] by simp
  then have s: "unat (i + 1) = Suc (unat i)" using i by (simp add: unat_word_ariths(1))
  obtain c' where c': "update_block conf (unat i) (\<lambda>b. b\<lparr>permanent_printed := v\<rparr>) = Some c'" "sound M c'"
    "last_mem_block_index c' = last_mem_block_index conf"
    using sound_update [OF Suc.prems(1) i, of "\<lambda>b. b\<lparr>permanent_printed := v\<rparr>"] by (auto simp: same_counts_def)
  have "k = Suc (unat (last_mem_block_index c')) - unat (i + 1)" "unat (i + 1) \<le> Suc (unat (last_mem_block_index c'))"
    using Suc.hyps(2) s c'(3) i by simp_all
  from Suc.hyps(1) [OF this(1) c'(2) this(2)] show ?case
    using c'(1) i by (subst permanent_printed_value_set.simps) (simp add: word_le_nat_alt)
qed

lemma allocator_lists_update_sound:
  assumes s: "sound M conf"
  shows "\<exists>conf'. allocator_lists_update conf = Some (0, conf') \<and> sound M conf'"
proof -
  have fit: "lists_fit conf" using s by (simp add: sound_def)
  obtain t p q where c: "clear_allocators (top_allocators conf) (top_allocators_count conf) = Some t"
    "clear_allocators (permanent_allocators conf) (permanent_allocators_count conf) = Some p"
    "clear_allocators (to_permanent_allocators conf) (to_permanent_allocators_count conf) = Some q"
    "length t = length (top_allocators conf)" "length p = length (permanent_allocators conf)"
    "length q = length (to_permanent_allocators conf)"
    using clear_allocators_fits fit unfolding lists_fit_def by metis
  let ?c = "conf\<lparr>top_allocators := t, permanent_allocators := p, to_permanent_allocators := q\<rparr>"
  have c0: "sound M ?c"
    using s c(4-6) by (simp add: sound_def lists_fit_def)
  let ?I = "\<lambda>(c, pc :: u8, tc :: u8). sound M c \<and> last_mem_block_index c = last_mem_block_index conf"
  have step: "\<exists>s'. lists_visit i s = Some s' \<and> ?I s'"
    if i: "i \<in> set [0..<Suc (unat (last_mem_block_index conf))]" and I: "?I s" for i s
  proof -
    obtain c1 pc tc where s': "s = (c1, pc, tc)" by (cases s)
    then have "i \<le> unat (last_mem_block_index c1)" "sound M c1" using i I by auto
    from lists_visit_sound [OF this(2,1), of pc tc] show ?thesis using s' I by fastforce
  qed
  obtain c1 pc tc where c1: "for_each [0..<Suc (unat (last_mem_block_index conf))] lists_visit (?c, 0, 0) = Some (c1, pc, tc)"
    "sound M c1"
    using for_each_invariant [of ?I "(?c, 0, 0)" _ lists_visit, OF _ step] c0 by fastforce
  have "\<exists>c2. (if ucast pc < permanent_allocators_count c1 then permanent_printed_value_set c1 NULL False 0 else Some c1) =
      Some c2 \<and> sound M c2"
    using permanent_printed_sound [OF c1(2), of 0 False] c1(2) by simp
  then show ?thesis
    using c(1-3) c1(1) unfolding allocator_lists_update_def by (auto simp del: upt_Suc)
qed

section \<open>The snapshot\<close>

text \<open>In a list of at most 256 entries, placing is an insertion into a list in decreasing order, cut to its length.\<close>

abbreviation decreasing :: "(allocators_t \<Rightarrow> u32) \<Rightarrow> allocators_t \<Rightarrow> int" where
  "decreasing f \<equiv> \<lambda>a. - uint (f a)"

lemma insort_at:
  fixes f :: "'a \<Rightarrow> 'b::linorder"
  assumes "i \<le> length xs" "\<And>j. j < i \<Longrightarrow> \<not> f a \<le> f (xs ! j)" "i < length xs \<Longrightarrow> f a \<le> f (xs ! i)"
  shows "insort_key f a xs = take i xs @ a # drop i xs"
  using assms
proof (induction xs arbitrary: i)
  case (Cons x xs)
  show ?case
  proof (cases i)
    case 0
    then show ?thesis using Cons.prems(3) by simp
  next
    case (Suc k)
    have "\<not> f a \<le> f (xs ! j)" if "j < k" for j using Cons.prems(2) [of "Suc j"] that Suc by simp
    then have "insort_key f a xs = take k xs @ a # drop k xs"
      by (intro Cons.IH) (use Cons.prems(1,3) Suc in simp_all)
    then show ?thesis using Suc Cons.prems(2) [of 0] by simp
  qed
qed simp

lemma place_here:
  assumes i: "i < length xs" "unat n = length xs" and le: "lkey (xs ! i) \<le> key b"
  shows "place key lkey n b xs i =
    Some ((take (i + 1) xs @ take (unat (of_nat (length xs - i - 1) :: u8)) (drop i xs) @
      drop (i + 1 + unat (of_nat (length xs - i - 1) :: u8)) xs)[i := allocator_of b])"
proof -
  define k where "k = unat (of_nat (length xs - i - 1) :: u8)"
  have k: "k \<le> length xs - i - 1" unfolding k_def by (rule unat_u8_le)
  then have m: "(if i \<noteq> length xs - 1 then move_allocators xs (i + 1) i k else Some xs) =
      Some (take (i + 1) xs @ take k (drop i xs) @ drop (i + 1 + k) xs)"
    using i(1) by (auto simp: move_allocators_def)
  have "i < length (take (i + 1) xs @ take k (drop i xs) @ drop (i + 1 + k) xs)" using i(1) k by simp
  then show ?thesis
    unfolding place.simps [of key lkey n b xs i] i(2) Let_def k_def [symmetric] m [unfolded k_def [symmetric]]
    using i(1) le by (simp add: array_at_def store_at_def)
qed

lemma place_insorts:
  assumes "unat n = length xs" "length xs \<le> 256" "lkey (allocator_of b) = key b" "i \<le> length xs"
    "\<And>j. j < i \<Longrightarrow> \<not> decreasing lkey (allocator_of b) \<le> decreasing lkey (xs ! j)"
  shows "place key lkey n b xs i = Some (take (length xs) (insort_key (decreasing lkey) (allocator_of b) xs))"
  using assms(4,5)
proof (induction "length xs - i" arbitrary: i)
  case 0
  then have "insort_key (decreasing lkey) (allocator_of b) xs = take i xs @ allocator_of b # drop i xs"
    by (intro insort_at) auto
  with 0 show ?case using assms(1) by (subst place.simps) simp
next
  case (Suc k)
  then have i: "i < length xs" by simp
  have c: "lkey (xs ! i) \<le> key b \<longleftrightarrow> decreasing lkey (allocator_of b) \<le> decreasing lkey (xs ! i)"
    by (simp add: assms(3) word_le_def)
  show ?case
  proof (cases "lkey (xs ! i) \<le> key b")
    case True
    have "length xs - i - 1 < 256" using assms(2) i by linarith
    then have u: "unat (of_nat (length xs - i - 1) :: u8) = length xs - i - 1"
      by (simp add: unsigned_of_nat take_bit_nat_eq_self)
    have "insort_key (decreasing lkey) (allocator_of b) xs = take i xs @ allocator_of b # drop i xs"
      using i Suc.prems c True by (intro insort_at) auto
    then have r: "take (length xs) (insort_key (decreasing lkey) (allocator_of b) xs) =
        take i xs @ allocator_of b # take (length xs - i - 1) (drop i xs)"
      using i by (simp add: take_Cons' min_def)
    have "take (i + 1) xs @ take (length xs - i - 1) (drop i xs) @ drop (i + 1 + (length xs - i - 1)) xs =
        take i xs @ xs ! i # take (length xs - i - 1) (drop i xs)"
      using i by (simp add: take_Suc_conv_app_nth)
    then have "(take (i + 1) xs @ take (length xs - i - 1) (drop i xs) @ drop (i + 1 + (length xs - i - 1)) xs)[i := allocator_of b] =
        take i xs @ allocator_of b # take (length xs - i - 1) (drop i xs)"
      using i by (simp add: list_update_append)
    then show ?thesis
      using place_here [OF i assms(1), of lkey key b, OF True] unfolding u r by simp
  next
    case False
    have "place key lkey n b xs (Suc i) =
        Some (take (length xs) (insort_key (decreasing lkey) (allocator_of b) xs))"
      by (rule Suc.hyps(1)) (use Suc i c False in \<open>auto simp: less_Suc_eq\<close>)
    then show ?thesis using i False assms(1) by (subst place.simps) (simp add: array_at_def)
  qed
qed

lemma take_insort:
  fixes f :: "'a \<Rightarrow> 'b::linorder"
  shows "take n (insort_key f a (take n xs)) = take n (insort_key f a xs)"
proof (induction xs arbitrary: n)
  case (Cons x xs)
  then show ?case by (cases n) (simp_all add: take_Cons')
qed simp

lemma insort_before:
  fixes f :: "'a \<Rightarrow> 'b::linorder"
  shows "(\<And>z. z \<in> set zs \<Longrightarrow> f a \<le> f z) \<Longrightarrow> insort_key f a (xs @ zs) = insort_key f a xs @ zs"
proof (induction xs)
  case Nil
  then show ?case by (cases zs) simp_all
qed simp

lemma on_list_absent:
  assumes "\<And>x. x \<in> set xs \<Longrightarrow> allocator_addr x \<noteq> c" "unat n \<le> length xs"
  shows "on_list xs n c = Some False"
proof -
  have w: "j < n \<longleftrightarrow> unat j < unat n" for j by (simp add: word_less_nat_alt)
  have b: "unat n < 2 ^ LENGTH(16)" using unsigned_less [of n] by simp
  show ?thesis
    using assms
    by (cases rule: search_result [of "\<lambda>i. i < n" "unat n" xs "\<lambda>a. allocator_addr a = c" "0 :: u16", OF w assms(2) b])
      (auto simp: on_list_def)
qed

lemma for_each_append: "for_each (is @ js) f s = do { s \<leftarrow> for_each is f s; for_each js f s }"
proof (induction "is" arbitrary: s)
  case (Cons i "is")
  then show ?case by (cases "f i s") simp_all
qed simp

lemma for_each_Suc: "for_each [0..<m] f s = Some t \<Longrightarrow> f m t = Some u \<Longrightarrow> for_each [0..<Suc m] f s = Some u"
  by (simp add: for_each_append)

text \<open>A list of \<open>n\<close> entries with the allocators \<open>as\<close> at its head.\<close>

definition filled :: "nat \<Rightarrow> allocators_t list \<Rightarrow> allocators_t list" where
  "filled n as = take n (as @ replicate n no_allocator)"

lemma filled_simps [simp]: "length (filled n as) = n" "filled n [] = replicate n no_allocator"
  by (auto simp: filled_def)

lemma filled_store:
  assumes "length as = i" "i < n"
  shows "(filled n as)[i := a] = filled n (as @ [a])"
proof -
  obtain k where k: "n - length as = Suc k" using assms by (cases "n - length as") auto
  then have "min k n = k" "min (Suc k) n = Suc k" "n - Suc (length as) = k" using assms by simp_all
  then show ?thesis using k assms(1) by (simp add: filled_def list_update_append)
qed

lemma place_filled:
  assumes "unat cnt = n" "n \<le> 256" "lkey (allocator_of b) = key b" "lkey no_allocator = 0"
  shows "place key lkey cnt b (filled n as) 0 = Some (filled n (insort_key (decreasing lkey) (allocator_of b) as))"
proof -
  have "place key lkey cnt b (filled n as) 0 = Some (take n (insort_key (decreasing lkey) (allocator_of b) (filled n as)))"
    using place_insorts [of cnt "filled n as" lkey b key 0] assms by simp
  also have "take n (insort_key (decreasing lkey) (allocator_of b) (filled n as)) =
      take n (insort_key (decreasing lkey) (allocator_of b) (as @ replicate n no_allocator))"
    unfolding filled_def by (rule take_insort)
  also have "insort_key (decreasing lkey) (allocator_of b) (as @ replicate n no_allocator) =
      insort_key (decreasing lkey) (allocator_of b) as @ replicate n no_allocator"
    by (rule insort_before) (simp add: assms(4))
  finally show ?thesis by (simp add: filled_def)
qed

lemma on_list_filled:
  assumes "unat cnt = n" "c \<noteq> NULL" "c \<notin> allocator_addr ` set as"
  shows "on_list (filled n as) cnt c = Some False"
proof (rule on_list_absent)
  fix x assume "x \<in> set (filled n as)"
  then have "x \<in> set as \<or> x = no_allocator" unfolding filled_def using in_set_takeD by fastforce
  then show "allocator_addr x \<noteq> c" using assms by (auto simp: no_allocator_def)
qed (simp add: assms)

definition ranked :: "(allocators_t \<Rightarrow> u32) \<Rightarrow> mem_blocks_t list \<Rightarrow> allocators_t list" where
  "ranked key bs = sort_key (decreasing key) (rev (map allocator_of bs))"

lemma ranked_simps [simp]:
  "ranked key [] = []" "ranked key (bs @ [b]) = insort_key (decreasing key) (allocator_of b) (ranked key bs)"
  "set (ranked key bs) = allocator_of ` set bs"
  by (simp_all add: ranked_def)

abbreviation in_use :: "mem_blocks_t \<Rightarrow> bool" where
  "in_use b \<equiv> block b \<noteq> NULL"

lemma entry_new:
  assumes L: "ledger bs es lst M" and m: "m < length bs" and u: "in_use (bs ! m)"
  shows "bs ! m \<notin> set (take m bs)"
    "caller_addr (bs ! m) \<noteq> NULL \<and> caller_addr (bs ! m) \<notin> caller_addr ` {x \<in> set (take m bs). in_use x}"
proof -
  have c: "caller_addr (bs ! m) \<noteq> NULL" using ledger_basics(6) [OF L nth_mem [OF m]] u by blast
  have "caller_addr (bs ! m) \<noteq> caller_addr (bs ! j)" if "j < m" for j
    using L m c that unfolding ledger_def unique_callers_def by (metis less_trans nat_neq_iff)
  then have "caller_addr x \<noteq> caller_addr (bs ! m)" if "x \<in> set (take m bs)" for x
    using that m by (fastforce simp: in_set_conv_nth)
  with c show "bs ! m \<notin> set (take m bs)"
    "caller_addr (bs ! m) \<noteq> NULL \<and> caller_addr (bs ! m) \<notin> caller_addr ` {x \<in> set (take m bs). in_use x}"
    by fastforce+
qed

lemma unused_beyond:
  assumes L: "ledger bs es lst M"
  shows "\<forall>b \<in> set (drop (Suc lst) bs). \<not> in_use b"
proof
  fix b assume b: "b \<in> set (drop (Suc lst) bs)"
  then obtain j where j: "j < length bs - Suc lst" "b = bs ! (Suc lst + j)" by (auto simp: in_set_conv_nth)
  then have "caller_addr b = NULL" using L unfolding ledger_def by simp
  then show "\<not> in_use b" using ledger_basics(6) [OF L in_set_dropD [OF b]] by simp
qed

definition listed :: "mem_blocks_t list \<Rightarrow> allocators_t list" where
  "listed bs = ranked total_memory (filter in_use bs)"

lemma listed_simps [simp]:
  "listed [] = []"
  "listed (bs @ [b]) = (if in_use b then insort_key (decreasing total_memory) (allocator_of b) (listed bs) else listed bs)"
  "set (listed bs) = allocator_of ` {b \<in> set bs. in_use b}"
  by (simp_all add: listed_def)

lemma snap_shot_prefix:
  assumes t: "tracks conf M" "mem_blocks conf = Some bs" and n: "unat (max_snap_shot_allocators_count conf) = n" "n \<le> 256"
    and m: "m \<le> length bs"
  shows "for_each [0..<m] snap_shot_visit (conf\<lparr>max_snap_shot_allocators := replicate n no_allocator\<rparr>) =
    Some (conf\<lparr>max_snap_shot_allocators := filled n (listed (take m bs))\<rparr>)"
  using m
proof (induction m)
  case 0
  then show ?case by simp
next
  case (Suc m)
  let ?b = "bs ! m"
  let ?L = "listed (take m bs)"
  let ?c = "conf\<lparr>max_snap_shot_allocators := filled n ?L\<rparr>"
  have m: "m < length bs" using Suc.prems by simp
  have at: "block_at ?c m = Some ?b" using t(2) m by (simp add: block_at_def array_at_def)
  have tk: "take (Suc m) bs = take m bs @ [?b]" using m by (rule take_Suc_conv_app_nth)
  have "snap_shot_visit m ?c = Some (conf\<lparr>max_snap_shot_allocators := filled n (listed (take (Suc m) bs))\<rparr>)"
  proof (cases "in_use ?b")
    case False
    then show ?thesis by (simp add: snap_shot_visit_def at tk)
  next
    case True
    note new = entry_new(2) [OF tracks_blocks(5) [OF t] m True]
    have o: "on_list (filled n ?L) (max_snap_shot_allocators_count conf) (caller_addr ?b) = Some False"
      by (rule on_list_filled) (use n(1) new in \<open>auto simp: allocator_of_def\<close>)
    have "place total_size total_memory (max_snap_shot_allocators_count conf) ?b (filled n ?L) 0 =
        Some (filled n (insort_key (decreasing total_memory) (allocator_of ?b) ?L))"
      by (rule place_filled) (use n in \<open>simp_all add: allocator_of_def no_allocator_def\<close>)
    then show ?thesis using True o by (simp add: snap_shot_visit_def at tk)
  qed
  moreover have "for_each [0..<m] snap_shot_visit (conf\<lparr>max_snap_shot_allocators := replicate n no_allocator\<rparr>) = Some ?c"
    by (rule Suc.IH) (use m in simp)
  ultimately show ?case by (intro for_each_Suc)
qed

lemma max_snap_shot_result:
  assumes t: "tracks conf M" "mem_blocks conf = Some bs" and n: "length (max_snap_shot_allocators conf) = n"
    "unat (max_snap_shot_allocators_count conf) = n" "n \<le> 256"
  shows "max_snap_shot_update conf = Some (conf\<lparr>max_snap_shot_allocators := filled n (listed bs)\<rparr>)"
proof -
  let ?m = "Suc (unat (last_mem_block_index conf))"
  note tb = tracks_blocks [OF t]
  have m: "?m \<le> length bs" using tb(2) by simp
  have "filter in_use bs = filter in_use (take ?m bs @ drop ?m bs)" by simp
  also have "\<dots> = filter in_use (take ?m bs)"
    unfolding filter_append using unused_beyond [OF tb(5)] by (simp add: filter_empty_conv)
  finally have "listed (take ?m bs) = listed bs" by (simp add: listed_def)
  then show ?thesis
    using snap_shot_prefix [OF t n(2,3) m] n(1,2)
    by (simp add: max_snap_shot_update_def clear_allocators_def del: upt_Suc)
qed

end
