(* ===== verification/TrackerReport.thy ===== *)
theory TrackerReport
  imports TrackerLists
begin

text \<open>
  The update of the lists of allocators in terms of the entries of the array: which are reported as permanent and
  become permanent, the ranking of the others, and the marks that are left.
\<close>

section \<open>What is reported\<close>

text \<open>
  The entries that become permanent and those permanent ones whose report is due, as many as the lists have room
  for; the others that are not permanent; and the marks after the pass over the array.
\<close>

definition ripe :: "conf_t \<Rightarrow> mem_blocks_t list \<Rightarrow> mem_blocks_t list" where
  "ripe conf bs = take (unat (to_permanent_allocators_count conf))
     (filter (\<lambda>b. in_use b \<and> \<not> permanent b \<and> ucast (to_permanent_steps_count conf) < lifetime b) bs)"

definition due :: "conf_t \<Rightarrow> mem_blocks_t list \<Rightarrow> mem_blocks_t list" where
  "due conf bs = take (unat (permanent_allocators_count conf))
     (filter (\<lambda>b. in_use b \<and> permanent b \<and> \<not> permanent_printed b) bs)"

definition young :: "conf_t \<Rightarrow> mem_blocks_t list \<Rightarrow> mem_blocks_t list" where
  "young conf bs = filter (\<lambda>b. in_use b \<and> \<not> permanent b \<and> b \<notin> set (ripe conf bs)) bs"

definition marked :: "conf_t \<Rightarrow> mem_blocks_t list \<Rightarrow> mem_blocks_t \<Rightarrow> mem_blocks_t" where
  "marked conf bs b =
     (if b \<in> set (ripe conf bs) then b\<lparr>permanent := True\<rparr>
      else if b \<in> set (due conf bs) then b\<lparr>permanent_printed := True\<rparr> else b)"

lemma take_filter_snoc:
  "take n (filter P (xs @ [b])) =
     (if P b \<and> length (take n (filter P xs)) < n then take n (filter P xs) @ [b] else take n (filter P xs))"
  by auto

lemma ripe_snoc:
  "ripe conf (bs @ [b]) = (if in_use b \<and> \<not> permanent b \<and> ucast (to_permanent_steps_count conf) < lifetime b \<and>
     length (ripe conf bs) < unat (to_permanent_allocators_count conf) then ripe conf bs @ [b] else ripe conf bs)"
  unfolding ripe_def take_filter_snoc by simp

lemma due_snoc:
  "due conf (bs @ [b]) = (if in_use b \<and> permanent b \<and> \<not> permanent_printed b \<and>
     length (due conf bs) < unat (permanent_allocators_count conf) then due conf bs @ [b] else due conf bs)"
  unfolding due_def take_filter_snoc by simp

lemma selected_subset: "set (ripe conf bs) \<subseteq> {b \<in> set bs. in_use b}" "set (due conf bs) \<subseteq> {b \<in> set bs. in_use b}"
  by (auto simp: ripe_def due_def dest!: in_set_takeD)

lemma young_snoc:
  assumes "in_use b \<Longrightarrow> b \<notin> set bs"
  shows "young conf (bs @ [b]) =
    (if in_use b \<and> \<not> permanent b \<and> ripe conf (bs @ [b]) = ripe conf bs then young conf bs @ [b] else young conf bs)"
proof -
  have "filter (\<lambda>x. in_use x \<and> \<not> permanent x \<and> x \<notin> set (ripe conf (bs @ [b]))) bs = young conf bs"
    unfolding young_def by (rule filter_cong) (use assms in \<open>auto simp: ripe_snoc\<close>)
  then show ?thesis
    using assms selected_subset(1) [of conf bs] by (auto simp: young_def ripe_snoc)
qed

lemma marked_snoc:
  assumes "in_use b \<Longrightarrow> b \<notin> set bs"
  shows "map (marked conf (bs @ [b])) bs = map (marked conf bs) bs"
    and "marked conf (bs @ [b]) b =
      (if ripe conf (bs @ [b]) \<noteq> ripe conf bs then b\<lparr>permanent := True\<rparr>
       else if due conf (bs @ [b]) \<noteq> due conf bs then b\<lparr>permanent_printed := True\<rparr> else b)"
proof -
  show "map (marked conf (bs @ [b])) bs = map (marked conf bs) bs"
    using assms by (auto simp: marked_def ripe_snoc due_snoc)
  have "b \<notin> set (ripe conf bs)" "b \<notin> set (due conf bs)"
    using assms selected_subset [of conf bs] by auto
  then show "marked conf (bs @ [b]) b =
      (if ripe conf (bs @ [b]) \<noteq> ripe conf bs then b\<lparr>permanent := True\<rparr>
       else if due conf (bs @ [b]) \<noteq> due conf bs then b\<lparr>permanent_printed := True\<rparr> else b)"
    by (auto simp: marked_def ripe_snoc due_snoc)
qed

definition reported :: "conf_t \<Rightarrow> mem_blocks_t list \<Rightarrow> conf_t" where
  "reported conf bs = conf\<lparr>
     top_allocators := filled (unat (top_allocators_count conf)) (ranked alloc_count (young conf bs)),
     permanent_allocators := filled (unat (permanent_allocators_count conf)) (map allocator_of (due conf bs)),
     to_permanent_allocators := filled (unat (to_permanent_allocators_count conf)) (map allocator_of (ripe conf bs))\<rparr>"

lemma reported_fields [simp]:
  "top_allocators (reported conf bs) = filled (unat (top_allocators_count conf)) (ranked alloc_count (young conf bs))"
  "permanent_allocators (reported conf bs) = filled (unat (permanent_allocators_count conf)) (map allocator_of (due conf bs))"
  "to_permanent_allocators (reported conf bs) =
     filled (unat (to_permanent_allocators_count conf)) (map allocator_of (ripe conf bs))"
  "top_allocators_count (reported conf bs) = top_allocators_count conf"
  "permanent_allocators_count (reported conf bs) = permanent_allocators_count conf"
  "to_permanent_allocators_count (reported conf bs) = to_permanent_allocators_count conf"
  "to_permanent_steps_count (reported conf bs) = to_permanent_steps_count conf"
  by (simp_all add: reported_def)

definition report_state :: "conf_t \<Rightarrow> mem_blocks_t list \<Rightarrow> mem_blocks_t list \<Rightarrow> conf_t \<times> u8 \<times> u8" where
  "report_state conf bs rest = ((reported conf bs)\<lparr>mem_blocks := Some (map (marked conf bs) bs @ rest)\<rparr>,
     of_nat (length (due conf bs)), of_nat (length (ripe conf bs)))"

definition small_lists :: "conf_t \<Rightarrow> bool" where
  "small_lists conf \<longleftrightarrow> unat (top_allocators_count conf) \<le> 256 \<and> unat (permanent_allocators_count conf) \<le> 255 \<and>
     unat (to_permanent_allocators_count conf) \<le> 255"

lemma count_u8:
  fixes c :: u16
  assumes "k \<le> unat c" "unat c \<le> 255"
  shows "unat (of_nat k :: u8) = k" "(ucast (of_nat k :: u8) :: u16) < c \<longleftrightarrow> k < unat c"
  using assms by (simp_all add: unsigned_of_nat take_bit_nat_eq_self word_less_nat_alt unsigned_ucast_eq)

lemma report_step:
  assumes small: "small_lists conf" and new: "in_use b \<Longrightarrow> b \<notin> set bs"
    and caller: "in_use b \<Longrightarrow> caller_addr b \<noteq> NULL \<and> caller_addr b \<notin> caller_addr ` {x \<in> set bs. in_use x}"
  shows "lists_visit (length bs) (report_state conf bs (b # rest)) = Some (report_state conf (bs @ [b]) rest)"
proof -
  note m = marked_snoc [OF new, of conf] and y = young_snoc [OF new, of conf]
  have len: "length (due conf bs) \<le> unat (permanent_allocators_count conf)"
    "length (ripe conf bs) \<le> unat (to_permanent_allocators_count conf)" by (simp_all add: due_def ripe_def)
  note c = count_u8 [OF len(1)] count_u8 [OF len(2)]
  have at: "block_at ((reported conf bs)\<lparr>mem_blocks := Some (map (marked conf bs) bs @ b # rest)\<rparr>) (length bs) = Some b"
    by (simp add: block_at_def array_at_def nth_append)
  show ?thesis
  proof (cases "in_use b")
    case False
    then show ?thesis
      unfolding report_state_def lists_visit_def prod.case at
      by (simp add: m y reported_def ripe_snoc due_snoc)
  next
    case True
    have "caller_addr b \<notin> allocator_addr ` set (ranked alloc_count (young conf bs))"
      using caller [OF True] by (auto simp: young_def allocator_of_def image_iff)
    then have o: "on_list (top_allocators (reported conf bs)) (top_allocators_count (reported conf bs)) (caller_addr b) = Some False"
      using caller [OF True] by (simp add: on_list_filled)
    let ?s = "reported conf bs"
    let ?ripe = "\<not> permanent b \<and> ucast (to_permanent_steps_count conf) < lifetime b \<and>
       length (ripe conf bs) < unat (to_permanent_allocators_count conf)"
    let ?due = "permanent b \<and> \<not> permanent_printed b \<and> length (due conf bs) < unat (permanent_allocators_count conf)"
    note v = lists_visit_def report_state_def at o
    have p: "place ref_count alloc_count (top_allocators_count conf) b (filled (unat (top_allocators_count conf)) as) 0 =
        Some (filled (unat (top_allocators_count conf)) (insort_key (decreasing alloc_count) (allocator_of b) as))" for as
      by (rule place_filled) (use small in \<open>simp_all add: small_lists_def allocator_of_def no_allocator_def\<close>)
    consider (ripe) ?ripe | (due) ?due | (old) "permanent b" "\<not> ?due" | (young) "\<not> permanent b" "\<not> ?ripe" by blast
    then show ?thesis
    proof cases
      case ripe
      then have "ripe conf (bs @ [b]) = ripe conf bs @ [b]" "due conf (bs @ [b]) = due conf bs"
        "young conf (bs @ [b]) = young conf bs" using True by (simp_all add: ripe_snoc due_snoc y)
      then show ?thesis using True ripe o
        by (simp add: v m c small [unfolded small_lists_def] update_block_def array_at_def store_at_def nth_append) (simp add: reported_def filled_store list_update_append)
    next
      case due
      then have "ripe conf (bs @ [b]) = ripe conf bs" "due conf (bs @ [b]) = due conf bs @ [b]"
        "young conf (bs @ [b]) = young conf bs" using True by (simp_all add: ripe_snoc due_snoc y)
      then show ?thesis using True due o
        by (simp add: v m c small [unfolded small_lists_def] update_block_def array_at_def store_at_def nth_append) (simp add: reported_def filled_store list_update_append)
    next
      case old
      then have "ripe conf (bs @ [b]) = ripe conf bs" "due conf (bs @ [b]) = due conf bs"
        "young conf (bs @ [b]) = young conf bs" using True by (auto simp add: ripe_snoc due_snoc y)
      then show ?thesis using True old o
        by (simp add: v m c small [unfolded small_lists_def] update_block_def array_at_def store_at_def nth_append) (simp add: reported_def filled_store list_update_append)
    next
      case young
      then have "ripe conf (bs @ [b]) = ripe conf bs" "due conf (bs @ [b]) = due conf bs"
        "young conf (bs @ [b]) = young conf bs @ [b]" using True by (auto simp add: ripe_snoc due_snoc y)
      then show ?thesis using True young o
        by (simp add: v m c p small [unfolded small_lists_def] update_block_def array_at_def store_at_def nth_append) (simp add: reported_def filled_store list_update_append)
    qed
  qed
qed


lemma report_prefix:
  assumes L: "ledger bs es lst M" and small: "small_lists conf" and m: "m \<le> length bs"
  shows "for_each [0..<m] lists_visit (report_state conf [] bs) = Some (report_state conf (take m bs) (drop m bs))"
  using m
proof (induction m)
  case (Suc m)
  then have m: "m < length bs" by simp
  note new = entry_new [OF L m]
  have "lists_visit (length (take m bs)) (report_state conf (take m bs) (bs ! m # drop (Suc m) bs)) =
      Some (report_state conf (take m bs @ [bs ! m]) (drop (Suc m) bs))"
    by (rule report_step [OF small]) (use new in blast)+
  then have "lists_visit m (report_state conf (take m bs) (drop m bs)) =
      Some (report_state conf (take (Suc m) bs) (drop (Suc m) bs))"
    using m by (simp add: Cons_nth_drop_Suc take_Suc_conv_app_nth)
  moreover have "for_each [0..<m] lists_visit (report_state conf [] bs) = Some (report_state conf (take m bs) (drop m bs))"
    using Suc by simp
  ultimately show ?case by (intro for_each_Suc)
qed simp

lemma printed_result:
  assumes "mem_blocks conf = Some bs" "unat (last_mem_block_index conf) < length bs" "length bs < 2 ^ 16"
    "unat i \<le> Suc (unat (last_mem_block_index conf))"
  shows "permanent_printed_value_set conf NULL v i = Some (conf\<lparr>mem_blocks := Some (take (unat i) bs @
    map (\<lambda>b. b\<lparr>permanent_printed := v\<rparr>) (drop (unat i) (take (Suc (unat (last_mem_block_index conf))) bs)) @
    drop (Suc (unat (last_mem_block_index conf))) bs)\<rparr>)"
  using assms
proof (induction "Suc (unat (last_mem_block_index conf)) - unat i" arbitrary: conf bs i)
  case 0
  then have "\<not> i \<le> last_mem_block_index conf" by (simp add: word_le_nat_alt)
  with 0 show ?case by (subst permanent_printed_value_set.simps) simp
next
  case (Suc k)
  let ?n = "Suc (unat (last_mem_block_index conf))"
  have i: "unat i < ?n" "unat i < length bs" using Suc.hyps(2) Suc.prems(2) by simp_all
  then have s: "unat (i + 1) = Suc (unat i)" using Suc.prems(2,3) by (simp add: unat_word_ariths(1))
  let ?bs = "bs[unat i := (bs ! unat i)\<lparr>permanent_printed := v\<rparr>]"
  let ?c = "conf\<lparr>mem_blocks := Some ?bs\<rparr>"
  have "permanent_printed_value_set ?c NULL v (i + 1) = Some (?c\<lparr>mem_blocks := Some (take (unat (i + 1)) ?bs @
      map (\<lambda>b. b\<lparr>permanent_printed := v\<rparr>) (drop (unat (i + 1)) (take ?n ?bs)) @ drop ?n ?bs)\<rparr>)"
    using Suc.hyps(1) [of ?c "i + 1" ?bs] Suc.hyps(2) Suc.prems s i by simp
  moreover have "take (Suc (unat i)) ?bs @ map (\<lambda>b. b\<lparr>permanent_printed := v\<rparr>) (drop (Suc (unat i)) (take ?n ?bs)) @
      drop ?n ?bs = take (unat i) bs @ map (\<lambda>b. b\<lparr>permanent_printed := v\<rparr>) (drop (unat i) (take ?n bs)) @ drop ?n bs"
  proof -
    have "drop (unat i) (take ?n bs) = bs ! unat i # drop (Suc (unat i)) (take ?n bs)"
      using i Suc.prems(2) by (subst Cons_nth_drop_Suc [symmetric]) simp_all
    then show ?thesis using i by (simp add: take_Suc_conv_app_nth drop_take)
  qed
  moreover have "update_block conf (unat i) (\<lambda>b. b\<lparr>permanent_printed := v\<rparr>) = Some ?c"
    by (rule update_block_at [OF Suc.prems(1) i(2)])
  moreover have "i \<le> last_mem_block_index conf" using i by (simp add: word_le_nat_alt)
  ultimately show ?case unfolding s by (subst permanent_printed_value_set.simps) simp
qed

lemma unused_tail:
  assumes "\<forall>b \<in> set zs. \<not> in_use b"
  shows "ripe conf (xs @ zs) = ripe conf xs" "due conf (xs @ zs) = due conf xs" "young conf (xs @ zs) = young conf xs"
    "map (marked conf xs) zs = zs"
proof -
  have e: "filter (\<lambda>b. in_use b \<and> P b) zs = []" for P using assms by (simp add: filter_empty_conv)
  show r: "ripe conf (xs @ zs) = ripe conf xs" and d: "due conf (xs @ zs) = due conf xs" by (simp_all add: ripe_def due_def e)
  then show "young conf (xs @ zs) = young conf xs" by (simp add: young_def e)
  show "map (marked conf xs) zs = zs"
    using assms selected_subset [of conf xs] by (intro map_idI) (auto simp: marked_def)
qed

definition to_print_again :: "nat \<Rightarrow> mem_blocks_t list \<Rightarrow> mem_blocks_t list" where
  "to_print_again n bs = map (\<lambda>b. b\<lparr>permanent_printed := False\<rparr>) (take n bs) @ drop n bs"

lemma allocator_lists_result:
  assumes t: "tracks conf M" "mem_blocks conf = Some bs" and small: "small_lists conf"
    and len: "length (top_allocators conf) = unat (top_allocators_count conf)"
      "length (permanent_allocators conf) = unat (permanent_allocators_count conf)"
      "length (to_permanent_allocators conf) = unat (to_permanent_allocators_count conf)"
  shows "allocator_lists_update conf = Some (0, (reported conf bs)\<lparr>mem_blocks := Some
    ((if length (due conf bs) < unat (permanent_allocators_count conf)
      then to_print_again (Suc (unat (last_mem_block_index conf))) else id) (map (marked conf bs) bs))\<rparr>)"
proof -
  let ?n = "Suc (unat (last_mem_block_index conf))"
  note tb = tracks_blocks [OF t]
  have n: "?n \<le> length bs" using tb(2) by simp
  note u = unused_tail [OF unused_beyond [OF tb(5)], of conf "take ?n bs", unfolded append_take_drop_id]
  have "report_state conf [] bs = (conf\<lparr>top_allocators := replicate (unat (top_allocators_count conf)) no_allocator,
      permanent_allocators := replicate (unat (permanent_allocators_count conf)) no_allocator,
      to_permanent_allocators := replicate (unat (to_permanent_allocators_count conf)) no_allocator\<rparr>, 0, 0)"
    using t(2) by (simp add: report_state_def reported_def ripe_def due_def young_def)
  moreover have "report_state conf (take ?n bs) (drop ?n bs) =
      ((reported conf bs)\<lparr>mem_blocks := Some (map (marked conf bs) bs)\<rparr>, of_nat (length (due conf bs)), of_nat (length (ripe conf bs)))"
  proof -
    have m: "marked conf bs = marked conf (take ?n bs)" by (simp add: marked_def u fun_eq_iff)
    have "map (marked conf (take ?n bs)) bs = map (marked conf (take ?n bs)) (take ?n bs) @ drop ?n bs"
      using u(4) by (metis append_take_drop_id map_append)
    then show ?thesis unfolding m by (simp add: report_state_def reported_def u)
  qed
  ultimately have loop: "for_each [0..<?n] lists_visit (conf\<lparr>top_allocators := replicate (unat (top_allocators_count conf)) no_allocator,
      permanent_allocators := replicate (unat (permanent_allocators_count conf)) no_allocator,
      to_permanent_allocators := replicate (unat (to_permanent_allocators_count conf)) no_allocator\<rparr>, 0, 0) =
    Some ((reported conf bs)\<lparr>mem_blocks := Some (map (marked conf bs) bs)\<rparr>, of_nat (length (due conf bs)), of_nat (length (ripe conf bs)))"
    using report_prefix [OF tb(5) small n] by simp
  have c: "ucast (of_nat (length (due conf bs)) :: u8) < permanent_allocators_count conf \<longleftrightarrow>
      length (due conf bs) < unat (permanent_allocators_count conf)"
    by (rule count_u8(2)) (use small in \<open>simp_all add: due_def small_lists_def\<close>)
  have "permanent_printed_value_set ((reported conf bs)\<lparr>mem_blocks := Some (map (marked conf bs) bs)\<rparr>) NULL False 0 =
      Some ((reported conf bs)\<lparr>mem_blocks := Some (to_print_again ?n (map (marked conf bs) bs))\<rparr>)"
    using printed_result [of "(reported conf bs)\<lparr>mem_blocks := Some (map (marked conf bs) bs)\<rparr>" "map (marked conf bs) bs" 0 False]
      tb(2,3) by (simp add: to_print_again_def reported_def)
  with loop c show ?thesis
    by (simp add: allocator_lists_update_def clear_allocators_def len del: upt_Suc)
qed

end
