(* ===== verification/TrackerProps.thy ===== *)
theory TrackerProps
  imports TrackerReport
begin

text \<open>
  The properties of the allocation tracker, and where its reports go wrong.
\<close>

section \<open>A concrete tracker\<close>

text \<open>For the witnesses: arrays of four entries, allocated once, four-entry lists, no hash.\<close>

definition unused_block :: mem_blocks_t where
  "unused_block = \<lparr>block = NULL, caller_addr = NULL, block_size = 0, total_size = 0, lifetime = 0, ref_count = 0,
     function_name = NULL, line = 0, permanent = False, permanent_printed = False\<rparr>"

definition unused_ext :: mem_blocks_ext_t where
  "unused_ext = \<lparr>ext_block = NULL, ext_caller_addr = NULL, ext_size = 0\<rparr>"

definition new_tracker :: conf_t where
  "new_tracker = \<lparr>mem_blocks = None, ext_mem_blocks = None, top_allocators = replicate 4 no_allocator,
     permanent_allocators = replicate 4 no_allocator, to_permanent_allocators = replicate 4 no_allocator,
     max_snap_shot_allocators = replicate 4 no_allocator,
     alloc_mem_blocks = \<lambda>k bs n. if bs = None then (Some (replicate 4 unused_block), 4) else (None, 0),
     ext_alloc_mem_blocks = \<lambda>k es n. if es = None then (Some (replicate 4 unused_ext), 4) else (None, 0),
     block_index_hash = None, allocated_memory = 0, mem_blocks_count = 0, ext_mem_blocks_count = 0,
     last_mem_block_index = 0, top_allocators_count = 4, permanent_allocators_count = 4,
     to_permanent_allocators_count = 4, max_snap_shot_allocators_count = 4, to_permanent_steps_count = 10,
     calls_made = 0\<rparr>"

lemma new_tracker_ok: "tracks new_tracker {#}" "client_ok new_tracker"
  by (simp_all add: tracks_def new_tracker_def blocks_of_def exts_of_def ledger_alt unique_callers_def lines_def
      client_ok_def extends_blocks_def extends_exts_def unused_block_def unused_ext_def)

section \<open>Histories\<close>

datatype tracker_op = Record addr addr u32 addr u32 | Release addr

fun tracker_exec :: "conf_t \<Rightarrow> tracker_op \<Rightarrow> (int \<times> conf_t) option" where
  "tracker_exec conf (Record caller fn ln ptr sz) = tracker_alloc conf caller fn ln ptr sz"
| "tracker_exec conf (Release ptr) = tracker_free conf ptr"

fun ledger_op :: "ledger \<Rightarrow> tracker_op \<Rightarrow> ledger" where
  "ledger_op M (Record caller fn ln ptr sz) = add_mset (ptr, caller, sz) M"
| "ledger_op M (Release ptr) = {#t \<in># M. fst t \<noteq> ptr#}"

fun legal_op :: "ledger \<Rightarrow> tracker_op \<Rightarrow> bool" where
  "legal_op M (Record caller fn ln ptr sz) \<longleftrightarrow> caller \<noteq> NULL \<and> ptr \<noteq> NULL \<and> ptr \<notin> fst ` set_mset M"
| "legal_op M (Release ptr) \<longleftrightarrow> ptr \<noteq> NULL \<and> ptr \<in> fst ` set_mset M"

fun legal_ops :: "ledger \<Rightarrow> tracker_op list \<Rightarrow> bool" where
  "legal_ops M [] \<longleftrightarrow> True"
| "legal_ops M (x # xs) \<longleftrightarrow> legal_op M x \<and> legal_ops (ledger_op M x) xs"

text \<open>The operations are made until one does not return 0; how many returned 0, and the configuration then.\<close>

fun tracker_run :: "conf_t \<Rightarrow> tracker_op list \<Rightarrow> (nat \<times> conf_t) option" where
  "tracker_run conf [] = Some (0, conf)"
| "tracker_run conf (x # xs) =
     do {
       (r, conf) \<leftarrow> tracker_exec conf x;
       (if r = 0 then do { (k, conf) \<leftarrow> tracker_run conf xs; Some (Suc k, conf) } else Some (0, conf))
     }"

definition is_record :: "tracker_op \<Rightarrow> bool" where
  "is_record x = (case x of Record caller fn ln ptr sz \<Rightarrow> True | Release ptr \<Rightarrow> False)"

lemma remove_line:
  assumes "\<forall>p. count (image_mset fst (M :: ledger)) p \<le> 1" "(p, c, n) \<in># M"
  shows "M - {#(p, c, n)#} = {#t \<in># M. fst t \<noteq> p#}"
proof -
  obtain N where N: "M = add_mset (p, c, n) N" using multi_member_split [OF assms(2)] ..
  have "count (image_mset fst M) p \<le> 1" using assms(1) by blast
  then have "count (image_mset fst N) p = 0" using N by simp
  then have "p \<notin># image_mset fst N" by (simp only: not_in_iff)
  then have "{#t \<in># N. fst t \<noteq> p#} = N" by (induction N) auto
  then show ?thesis using N by simp
qed

lemma tracks_unique: "tracks conf M \<Longrightarrow> \<forall>p. count (image_mset fst M) p \<le> 1"
  by (simp add: tracks_def ledger_alt)

lemma tracks_needs_array:
  assumes "tracks conf M" "t \<in># M"
  shows "mem_blocks conf \<noteq> None"
proof
  assume n: "mem_blocks conf = None"
  then have L: "ledger [] (exts_of conf) 0 M" using assms(1) unfolding tracks_def by (auto simp: blocks_of_def)
  from ledger_basics(1) [OF L] assms(2) obtain e where "e \<in> set (exts_of conf)" "ext_block e \<noteq> NULL"
    by (auto simp: in_lines simp flip: ledger_basics(1) [OF L])
  then show False using ledger_basics(4) [OF L] by (auto simp: ext_ok_def)
qed

lemma tracker_exec_result:
  assumes "tracks conf M" "client_ok conf" "legal_op M x"
  shows "\<exists>r conf'. tracker_exec conf x = Some (r, conf') \<and>
    (r = 0 \<and> tracks conf' (ledger_op M x) \<and> client_ok conf' \<or> r = -1 \<and> is_record x)"
proof (cases x)
  case (Record c fn ln p n)
  then show ?thesis
    using tracker_alloc_result [OF assms(1,2), of c p fn ln n] assms(3) by (auto simp: recorded_def is_record_def)
next
  case (Release p)
  then obtain t where "p \<noteq> NULL" "t \<in># M" "p \<in> fst ` set_mset M" using assms(3) by auto
  then obtain conf' c n where "tracker_free conf p = Some (0, conf')" "(p, c, n) \<in># M" "tracks conf' (M - {#(p, c, n)#})"
    "client_ok conf'"
    using tracker_free_result [OF assms(1,2), of p] tracks_needs_array [OF assms(1)] by blast
  then show ?thesis using Release remove_line [OF tracks_unique [OF assms(1)]] by auto
qed

text \<open>
  C5. The tracker refines its ledger. For callbacks that keep their contract and every history of a client that
  records new blocks and releases recorded ones: no access leaves an array, every search ends, only a record
  can be refused, and as long as nothing is refused the arrays hold exactly the blocks that were recorded and
  not released, each caller's entry counts its blocks and bytes, and \<open>allocated_memory\<close> is the total.
\<close>

theorem tracker_history_refines_ledger:
  assumes "tracks conf M" "client_ok conf" "legal_ops M ops"
  shows "\<exists>k conf'. tracker_run conf ops = Some (k, conf') \<and> k \<le> length ops \<and> (k < length ops \<longrightarrow> is_record (ops ! k)) \<and>
    (k = length ops \<longrightarrow> lines (blocks_of conf') (exts_of conf') = foldl ledger_op M ops \<and>
       allocated_memory conf' = bytes (foldl ledger_op M ops) \<and>
       (\<forall>b \<in> set (blocks_of conf'). caller_addr b \<noteq> NULL \<longrightarrow> accounts (foldl ledger_op M ops) b))"
proof -
  have "\<exists>k conf'. tracker_run conf ops = Some (k, conf') \<and> k \<le> length ops \<and> (k < length ops \<longrightarrow> is_record (ops ! k)) \<and>
      (k = length ops \<longrightarrow> tracks conf' (foldl ledger_op M ops))"
    using assms
  proof (induction ops arbitrary: conf M)
    case (Cons x xs)
    obtain r conf1 where e: "tracker_exec conf x = Some (r, conf1)"
      "r = 0 \<and> tracks conf1 (ledger_op M x) \<and> client_ok conf1 \<or> r = -1 \<and> is_record x"
      using tracker_exec_result [OF Cons.prems(1,2), of x] Cons.prems(3) by auto
    show ?case
    proof (cases "r = 0")
      case True
      then obtain k conf' where "tracker_run conf1 xs = Some (k, conf')" "k \<le> length xs"
        "k < length xs \<longrightarrow> is_record (xs ! k)" "k = length xs \<longrightarrow> tracks conf' (foldl ledger_op (ledger_op M x) xs)"
        using Cons.IH [of conf1 "ledger_op M x"] e(2) Cons.prems(3) by auto
      then show ?thesis using e(1) True by simp
    qed (use e in simp)
  qed simp
  then show ?thesis by (auto simp: tracks_def ledger_alt)
qed

theorem tracker_history_refines_ledger_witness:
  "\<exists>k conf'. tracker_run new_tracker [Record 100 1 7 8 16, Record 200 1 9 12 32, Record 200 1 9 20 64, Release 12] =
      Some (k, conf') \<and> (k = 4 \<longrightarrow> allocated_memory conf' = 80)"
  using tracker_history_refines_ledger [OF new_tracker_ok,
      of "[Record 100 1 7 8 16, Record 200 1 9 12 32, Record 200 1 9 20 64, Release 12]"] by fastforce

text \<open>
  C19. The result of a release, in every case. A null pointer, or any pointer before the first array exists, is nothing
  to release: the result is 0 and nothing changes. Otherwise, when the block is recorded, wherever its entry is, the
  result is 0 and exactly its line is taken off the ledger; when it is not, the result is -1 and nothing changes.
\<close>

theorem tracker_free_result_code:
  assumes "tracks conf M" "client_ok conf"
  shows "if ptr = NULL \<or> mem_blocks conf = None then tracker_free conf ptr = Some (0, conf)
    else if ptr \<in> fst ` set_mset M
    then \<exists>conf'. tracker_free conf ptr = Some (0, conf') \<and> tracks conf' {#t \<in># M. fst t \<noteq> ptr#} \<and> client_ok conf'
    else tracker_free conf ptr = Some (-1, conf)"
proof (cases "ptr = NULL \<or> mem_blocks conf = None")
  case True
  then show ?thesis by (auto simp: tracker_free_def)
next
  case False
  then consider (recorded) conf' c n where "tracker_free conf ptr = Some (0, conf')" "(ptr, c, n) \<in># M"
      "tracks conf' (M - {#(ptr, c, n)#})" "client_ok conf'"
    | (unknown) "tracker_free conf ptr = Some (-1, conf)" "ptr \<notin> fst ` set_mset M"
    using tracker_free_result [OF assms, of ptr] by blast
  then show ?thesis
  proof cases
    case recorded
    then have "ptr \<in> fst ` set_mset M" by force
    with recorded show ?thesis
      unfolding remove_line [OF tracks_unique [OF assms(1)] recorded(2)] using False by auto
  qed (use False in simp)
qed

definition tracker_ready :: conf_t where
  "tracker_ready = new_tracker\<lparr>mem_blocks := Some (replicate 4 unused_block), mem_blocks_count := 4\<rparr>"

lemma tracker_ready_ok: "tracks tracker_ready {#}" "client_ok tracker_ready" "mem_blocks tracker_ready \<noteq> None"
    "sound {#} tracker_ready"
proof -
  have "ledger (replicate 4 unused_block) [] 0 {#}"
    using ledger_grow_blocks [of "[]" "[]" 0 "{#}" "replicate 4 unused_block"] new_tracker_ok(1)
    by (simp add: tracks_def new_tracker_def blocks_of_def exts_of_def unused_block_def)
  then show "tracks tracker_ready {#}"
    by (simp add: tracks_def tracker_ready_def new_tracker_def blocks_of_def exts_of_def)
  then show "sound {#} tracker_ready" by (simp add: sound_def lists_fit_def tracker_ready_def new_tracker_def)
  show "client_ok tracker_ready" using new_tracker_ok(2) by (simp add: client_ok_def tracker_ready_def)
  show "mem_blocks tracker_ready \<noteq> None" by (simp add: tracker_ready_def)
qed

lemma ready_then_recorded:
  "\<exists>conf. tracker_alloc tracker_ready 100 1 7 8 16 = Some (0, conf) \<and> tracks conf {#(8, 100, 16)#} \<and> client_ok conf"
proof -
  obtain r conf where a: "tracker_alloc tracker_ready 100 1 7 8 16 = Some (r, conf)"
    "recorded {#} (8, 100, 16) r conf"
    using tracker_alloc_result [OF tracker_ready_ok(1,2), of 100 8 1 7 16] by auto
  have "map_option fst (tracker_alloc tracker_ready 100 1 7 8 16) = Some 0" by code_simp
  then have "r = 0" "tracks conf {#(8, 100, 16)#}" "client_ok conf" using a by (auto simp: recorded_def)
  then show ?thesis using a(1) by blast
qed

theorem tracker_free_result_code_witness:
  "\<exists>conf conf'. tracker_alloc tracker_ready 100 1 7 8 16 = Some (0, conf) \<and> tracker_free conf 8 = Some (0, conf') \<and>
    tracks conf' {#} \<and> tracker_free conf 12 = Some (-1, conf) \<and> tracker_free conf NULL = Some (0, conf)"
proof -
  obtain conf where r: "tracker_alloc tracker_ready 100 1 7 8 16 = Some (0, conf)" "tracks conf {#(8, 100, 16)#}"
    "client_ok conf" using ready_then_recorded by blast
  have "mem_blocks conf \<noteq> None" by (rule tracks_needs_array [OF r(2)]) simp
  with tracker_free_result_code [OF r(2,3), of 8] tracker_free_result_code [OF r(2,3), of 12]
    tracker_free_result_code [OF r(2,3), of NULL]
  show ?thesis using r(1) by auto
qed

section \<open>Reports\<close>

text \<open>
  C22. Ageing and the update of the lists return and stay within their arrays, whatever the marks and counters
  are, and do not change what the tracker knows of the blocks.
\<close>

theorem tracker_reports_keep_ledger:
  assumes "tracks conf M" "mem_blocks conf \<noteq> None" "lists_fit conf"
  shows "(\<exists>conf'. tracker_step conf = Some conf' \<and> tracks conf' M) \<and>
    (\<exists>conf'. allocator_lists_update conf = Some (0, conf') \<and> tracks conf' M)"
proof -
  have s: "sound M conf" using assms by (simp add: sound_def)
  show ?thesis using tracker_step_sound [OF s] allocator_lists_update_sound [OF s] by (auto simp: sound_def)
qed

theorem tracker_reports_keep_ledger_witness:
  "\<exists>conf'. allocator_lists_update tracker_ready = Some (0, conf') \<and> tracks conf' {#}"
  using tracker_reports_keep_ledger [OF tracker_ready_ok(1,3)] tracker_ready_ok(4) by (simp add: sound_def)

text \<open>
  C20. The snapshot, for lists of at most 256 entries: the entries in use, sorted by their memory in decreasing
  order, later ones first among equals, cut to the length of the list and filled up with empty entries.
\<close>

theorem max_snap_shot_is_sorted:
  assumes "tracks conf M" "mem_blocks conf = Some bs" "length (max_snap_shot_allocators conf) = n"
    "unat (max_snap_shot_allocators_count conf) = n" "n \<le> 256"
  shows "max_snap_shot_update conf = Some (conf\<lparr>max_snap_shot_allocators :=
    take n (sort_key (\<lambda>a. - uint (total_memory a)) (rev (map allocator_of (filter (\<lambda>b. block b \<noteq> NULL) bs))) @
      replicate n no_allocator)\<rparr>)"
  using max_snap_shot_result [OF assms] by (simp add: listed_def ranked_def filled_def)

theorem max_snap_shot_is_sorted_witness:
  "max_snap_shot_update tracker_ready = Some (tracker_ready\<lparr>max_snap_shot_allocators := replicate 4 no_allocator\<rparr>)"
  using max_snap_shot_is_sorted [OF tracker_ready_ok(1), of "replicate 4 unused_block" 4]
  by (simp add: tracker_ready_def new_tracker_def unused_block_def)

text \<open>
  C21. The update of the lists, for lists of at most 256 (255 of permanent) entries, computes what it is documented to
  report. Each list is filled from the head, the rest of it is empty: the entries that have just become permanent, in
  the order of the array, as many as there is room for; the permanent ones not reported before, likewise; and of all
  others the ones with the most blocks, in decreasing order. The marks are set to match; when fewer permanent entries
  were left to report than there is room for, the next reports start again from the first one.
\<close>

theorem allocator_lists_are_reported:
  assumes "tracks conf M" "mem_blocks conf = Some bs" "small_lists conf"
    "length (top_allocators conf) = unat (top_allocators_count conf)"
    "length (permanent_allocators conf) = unat (permanent_allocators_count conf)"
    "length (to_permanent_allocators conf) = unat (to_permanent_allocators_count conf)"
  shows "allocator_lists_update conf =
    (let ripe = take (unat (to_permanent_allocators_count conf))
           (filter (\<lambda>b. in_use b \<and> \<not> permanent b \<and> ucast (to_permanent_steps_count conf) < lifetime b) bs);
         due = take (unat (permanent_allocators_count conf))
           (filter (\<lambda>b. in_use b \<and> permanent b \<and> \<not> permanent_printed b) bs);
         others = filter (\<lambda>b. in_use b \<and> \<not> permanent b \<and> b \<notin> set ripe) bs;
         blocks = map (\<lambda>b. if b \<in> set ripe then b\<lparr>permanent := True\<rparr>
                            else if b \<in> set due then b\<lparr>permanent_printed := True\<rparr> else b) bs;
         used = Suc (unat (last_mem_block_index conf))
     in Some (0, conf\<lparr>
          top_allocators := filled (unat (top_allocators_count conf))
            (sort_key (\<lambda>a. - uint (alloc_count a)) (rev (map allocator_of others))),
          permanent_allocators := filled (unat (permanent_allocators_count conf)) (map allocator_of due),
          to_permanent_allocators := filled (unat (to_permanent_allocators_count conf)) (map allocator_of ripe),
          mem_blocks := Some (if length due < unat (permanent_allocators_count conf)
            then map (\<lambda>b. b\<lparr>permanent_printed := False\<rparr>) (take used blocks) @ drop used blocks else blocks)\<rparr>))"
  unfolding allocator_lists_result [OF assms] Let_def reported_def ranked_def to_print_again_def young_def marked_def [abs_def]
    ripe_def due_def by simp

theorem allocator_lists_are_reported_witness:
  "\<exists>conf conf'. tracker_alloc tracker_ready 100 1 7 8 16 = Some (0, conf) \<and>
    allocator_lists_update conf = Some (0, conf') \<and> map allocator_addr (top_allocators conf') = 100 # replicate 3 NULL"
proof -
  obtain conf where a: "tracker_alloc tracker_ready 100 1 7 8 16 = Some (0, conf)" "tracks conf {#(8, 100, 16)#}"
    using ready_then_recorded by blast
  have "map_option (\<lambda>(r, c). (mem_blocks c, map length [top_allocators c, permanent_allocators c, to_permanent_allocators c],
      [top_allocators_count c, permanent_allocators_count c, to_permanent_allocators_count c, to_permanent_steps_count c]))
      (tracker_alloc tracker_ready 100 1 7 8 16) =
    Some (Some (\<lparr>block = 8, caller_addr = 100, block_size = 16, total_size = 16, lifetime = 0, ref_count = 1,
      function_name = 1, line = 7, permanent = False, permanent_printed = False\<rparr> # replicate 3 unused_block),
      [4, 4, 4], [4, 4, 4, 10])" by code_simp
  then have c: "mem_blocks conf = Some (\<lparr>block = 8, caller_addr = 100, block_size = 16, total_size = 16, lifetime = 0,
      ref_count = 1, function_name = 1, line = 7, permanent = False, permanent_printed = False\<rparr> # replicate 3 unused_block)"
    "length (top_allocators conf) = 4" "length (permanent_allocators conf) = 4" "length (to_permanent_allocators conf) = 4"
    "top_allocators_count conf = 4" "permanent_allocators_count conf = 4" "to_permanent_allocators_count conf = 4"
    "to_permanent_steps_count conf = 10"
    using a(1) by simp_all
  have "small_lists conf" by (simp add: small_lists_def c)
  note r = allocator_lists_are_reported [OF a(2) c(1) this]
  show ?thesis
    using a(1) r by (simp add: c Let_def filled_def allocator_of_def no_allocator_def unused_block_def)
qed

text \<open>
  The number of entries to move is kept in 8 bits. In a list of 257 entries a new largest allocator moves
  none of them: it overwrites the one it should be placed before, whose caller is lost from the list.
\<close>

theorem place_in_long_list_overwrites:
  assumes "length xs = 257" "list_key (xs ! 0) \<le> key b"
  shows "place key list_key 257 b xs 0 = Some (allocator_of b # tl xs)"
proof -
  have z: "unat (of_nat (length xs - 0 - 1) :: u8) = 0" by (simp add: assms(1))
  obtain x ys where "xs = x # ys" using assms(1) by (cases xs) auto
  then show ?thesis using place_here [of 0 xs 257 list_key key b] assms unfolding z by simp
qed

theorem place_in_long_list_overwrites_witness:
  "place total_size total_memory 257 (unused_block\<lparr>caller_addr := 200, total_size := 9\<rparr>)
     (allocator_of (unused_block\<lparr>caller_addr := 100, total_size := 5\<rparr>) # replicate 256 no_allocator) 0 =
   Some (allocator_of (unused_block\<lparr>caller_addr := 200, total_size := 9\<rparr>) # replicate 256 no_allocator)"
  using place_in_long_list_overwrites [of "allocator_of (unused_block\<lparr>caller_addr := 100, total_size := 5\<rparr>) #
      replicate 256 no_allocator" total_memory total_size "unused_block\<lparr>caller_addr := 200, total_size := 9\<rparr>"]
  by (simp add: allocator_of_def)

section \<open>Where the marks go wrong\<close>

definition run_then :: "tracker_op list \<Rightarrow> nat \<Rightarrow> tracker_op list \<Rightarrow> conf_t option" where
  "run_then before steps after =
     do {
       (k, conf) \<leftarrow> tracker_run new_tracker before;
       conf \<leftarrow> for_each [0..<steps] (\<lambda>i. tracker_step) conf;
       (k, conf) \<leftarrow> tracker_run conf after;
       Some conf
     }"

text \<open>The entries in use, as caller, blocks and age.\<close>

definition entries :: "conf_t option \<Rightarrow> (addr \<times> u32 \<times> u32) list option" where
  "entries c = map_option (\<lambda>conf. map (\<lambda>b. (caller_addr b, ref_count b, lifetime b))
     (filter (\<lambda>b. caller_addr b \<noteq> NULL) (blocks_of conf))) c"

text \<open>
  Releasing a block of the extended array is meant to reset the age of its caller's entry and to clear the
  entry with its last block. It does both to the first entry of the array, whoever that belongs to: here
  the caller 200 releases a block, and the age of caller 100 is reset; with no block left, the entry of
  caller 200 stays in use.
\<close>

lemma free_resets_the_wrong_entry:
  "entries (run_then [Record 100 1 7 8 16, Record 200 1 9 12 32, Record 200 1 9 20 64] 3 []) =
     Some [(100, 1, 3), (200, 2, 3)] \<and>
   entries (run_then [Record 100 1 7 8 16, Record 200 1 9 12 32, Record 200 1 9 20 64] 3 [Release 20]) =
     Some [(100, 1, 0), (200, 1, 3)] \<and>
   entries (run_then [Record 100 1 7 8 16, Record 200 1 9 12 32, Record 200 1 9 20 64] 3 [Release 12, Release 20]) =
     Some [(100, 1, 0), (200, 0, 0)]"
  by code_simp

text \<open>
  A caller that has released its first block and still holds others is in no report: the reports look at
  entries with a first block only. Here 64 bytes are allocated and the snapshot is empty.
\<close>

lemma caller_without_first_block_not_reported:
  "map_option (\<lambda>conf. (allocated_memory conf, map_option (\<lambda>c. map total_memory (max_snap_shot_allocators c))
     (max_snap_shot_update conf)))
     (run_then [Record 200 1 9 12 32, Record 200 1 9 20 64] 0 [Release 12]) = Some (64, Some [0, 0, 0, 0]) \<and>
   map_option (\<lambda>conf. (allocated_memory conf, map_option (\<lambda>c. map total_memory (max_snap_shot_allocators c))
     (max_snap_shot_update conf)))
     (run_then [Record 200 1 9 12 32, Record 200 1 9 20 64] 0 [Release 20]) = Some (32, Some [32, 0, 0, 0])"
  by code_simp

text \<open>Ageing checks for an array; the reports do not, and read through a null pointer before the first record.\<close>

lemma for_each_none: "f 0 s = None \<Longrightarrow> for_each [0..<Suc k] f s = None"
  by (simp add: upt_conv_Cons del: upt_Suc)

lemma reports_without_array:
  assumes "mem_blocks conf = None" "mem_blocks_count conf = 0"
  shows "tracker_step conf = Some conf" "allocator_lists_update conf = None" "max_snap_shot_update conf = None"
proof -
  have v: "lists_visit 0 (c, p, q) = None" if "mem_blocks c = None" for c p q
    using that by (simp add: lists_visit_def block_at_def)
  show "tracker_step conf = Some conf" using assms by (simp add: tracker_step_def)
  show "allocator_lists_update conf = None"
    using assms(1) by (simp add: allocator_lists_update_def clear_allocators_def v for_each_none del: upt_Suc)
  show "max_snap_shot_update conf = None"
    using assms(1) by (simp add: max_snap_shot_update_def clear_allocators_def snap_shot_visit_def block_at_def
        for_each_none del: upt_Suc)
qed

end
