(* ===== verification/TrackedHeap.thy ===== *)
theory TrackedHeap
  imports DynMemSpec TrackerProps
begin

text \<open>
  A heap whose client keeps the allocation tracker informed: every block it obtains is recorded, every block it
  releases is taken off. The lemma on such a client is proved from the contract \<open>block_heap\<close> alone.
\<close>

section \<open>The client\<close>

text \<open>
  A call obtains a block for a caller, with the function and line to record and the request, or releases the
  \<open>i\<close>-th block the client owns. \<open>size_of\<close> is the size it records for a request. The calls are made until the
  tracker does not return 0; how many were made until then, and the state.
\<close>

datatype 'r tracked_call = Obtain addr addr u32 'r | Return nat

fun tracked_step :: "('h \<Rightarrow> 'r \<Rightarrow> (addr \<times> 'h) option) \<Rightarrow> ('h \<Rightarrow> addr \<Rightarrow> 'h option) \<Rightarrow> ('r \<Rightarrow> u32) \<Rightarrow>
    'h \<times> conf_t \<times> addr list \<Rightarrow> 'r tracked_call \<Rightarrow> (int \<times> 'h \<times> conf_t \<times> addr list) option" where
  "tracked_step al fr size_of (h, conf, owned) (Obtain caller fn ln r) =
     do {
       (p, h) \<leftarrow> al h r;
       (if p = NULL then Some (0, h, conf, owned)
        else do {
          (ret, conf) \<leftarrow> tracker_alloc conf caller fn ln p (size_of r);
          Some (ret, h, conf, owned @ [p])
        })
     }"
| "tracked_step al fr size_of (h, conf, owned) (Return i) =
     (if i < length owned then
        do {
          (ret, conf) \<leftarrow> tracker_free conf (owned ! i);
          h \<leftarrow> fr h (owned ! i);
          Some (ret, h, conf, take i owned @ drop (Suc i) owned)
        }
      else Some (0, h, conf, owned))"

fun tracked_run :: "('h \<Rightarrow> 'r \<Rightarrow> (addr \<times> 'h) option) \<Rightarrow> ('h \<Rightarrow> addr \<Rightarrow> 'h option) \<Rightarrow> ('r \<Rightarrow> u32) \<Rightarrow>
    'h \<times> conf_t \<times> addr list \<Rightarrow> 'r tracked_call list \<Rightarrow> (nat \<times> 'h \<times> conf_t \<times> addr list) option" where
  "tracked_run al fr size_of s [] = Some (0, s)"
| "tracked_run al fr size_of s (c # cs) =
     do {
       (ret, s) \<leftarrow> tracked_step al fr size_of s c;
       (if ret = 0 then do { (k, s) \<leftarrow> tracked_run al fr size_of s cs; Some (Suc k, s) } else Some (0, s))
     }"

fun named_caller :: "'r tracked_call \<Rightarrow> bool" where
  "named_caller (Obtain caller fn ln r) \<longleftrightarrow> caller \<noteq> NULL"
| "named_caller (Return i) \<longleftrightarrow> True"

fun obtains_block :: "'r tracked_call \<Rightarrow> bool" where
  "obtains_block (Obtain caller fn ln r) \<longleftrightarrow> True"
| "obtains_block (Return i) \<longleftrightarrow> False"

section \<open>The ledger and the heap agree\<close>

definition owns :: "(addr \<times> int) set \<Rightarrow> addr list \<Rightarrow> bool" where
  "owns blocks owned \<longleftrightarrow> distinct owned \<and> set owned = fst ` blocks"

definition listed :: "ledger \<Rightarrow> addr set \<Rightarrow> conf_t \<Rightarrow> bool" where
  "listed M P conf \<longleftrightarrow> tracks conf M \<and> client_ok conf \<and> fst ` set_mset M = P"

lemma listed_record:
  assumes "listed M P conf" "caller \<noteq> NULL" "p \<noteq> NULL" "p \<notin> P"
  shows "\<exists>ret conf'. tracker_alloc conf caller fn ln p n = Some (ret, conf') \<and>
    (ret = 0 \<and> listed (add_mset (p, caller, n) M) (insert p P) conf' \<or> ret = -1)"
  using tracker_alloc_result [of conf M caller p fn ln n] assms by (auto simp: listed_def recorded_def)

lemma listed_release:
  assumes "listed M P conf" "p \<noteq> NULL" "p \<in> P"
  shows "\<exists>conf'. tracker_free conf p = Some (0, conf') \<and> listed {#t \<in># M. fst t \<noteq> p#} (P - {p}) conf'"
proof -
  have t: "tracks conf M" "client_ok conf" and p: "p \<in> fst ` set_mset M" using assms by (auto simp: listed_def)
  then obtain x where "x \<in># M" by auto
  from tracker_free_result [OF t assms(2) tracks_needs_array [OF t(1) this]] p
  obtain conf' c n where f: "tracker_free conf p = Some (0, conf')" "(p, c, n) \<in># M"
    "tracks conf' (M - {#(p, c, n)#})" "client_ok conf'" by blast
  have "tracks conf' {#t \<in># M. fst t \<noteq> p#}" using f(3) remove_line [OF tracks_unique [OF t(1)] f(2)] by simp
  moreover have "fst ` set_mset {#t \<in># M. fst t \<noteq> p#} = P - {p}" using assms(1) by (auto simp: listed_def)
  ultimately show ?thesis using f(1,4) by (auto simp: listed_def)
qed

lemma listed_ledger:
  assumes "listed M P conf"
  shows "lines (blocks_of conf) (exts_of conf) = M" "fst ` set_mset M = P" "\<forall>p. count (image_mset fst M) p \<le> 1"
    "allocated_memory conf = bytes M"
  using assms tracks_unique [of conf M] by (simp_all add: listed_def tracks_def ledger_alt)

lemma listed_nothing: "listed M {} conf \<Longrightarrow> allocated_memory conf = 0"
  using listed_ledger [of M "{}" conf] by (simp add: bytes_def)

context block_heap
begin

lemma tracked_step_ok:
  assumes "inv h l" "owns (live l) owned" "listed M (fst ` live l) conf" "named_caller c"
  shows "\<exists>ret h' conf' owned' l'. tracked_step al fr size_of (h, conf, owned) c = Some (ret, h', conf', owned') \<and>
    inv h' l' \<and> owns (live l') owned' \<and> faults h' = faults h \<and>
    (ret = 0 \<and> (\<exists>M'. listed M' (fst ` live l') conf') \<or> ret = -1 \<and> obtains_block c)"
proof (cases c)
  case (Obtain caller fn ln r)
  obtain p h' l' where a: "al h r = Some (p, h')" "inv h' l'" "faults h' = faults h"
    "p = NULL \<and> live l' = live l \<or> (\<exists>n. live l' = insert (p, n) (live l) \<and> (\<forall>k. (p, k) \<notin> live l))"
    using al_law [OF assms(1), of r] by blast
  show ?thesis
  proof (cases "p = NULL")
    case True
    have "live l' = live l" using a(2,4) live_block [of h' l' p] True by (metis insertI1 less_irrefl)
    with assms(2,3) have "owns (live l') owned" "\<exists>M'. listed M' (fst ` live l') conf" by auto
    then show ?thesis using True a(1,2,3) Obtain by auto
  next
    case False
    with a(4) obtain n where n: "live l' = insert (p, n) (live l)" "\<forall>k. (p, k) \<notin> live l" by blast
    then have p: "p \<notin> fst ` live l" "fst ` live l' = insert p (fst ` live l)" by auto
    have "owns (live l') (owned @ [p])" using assms(2) p by (auto simp: owns_def)
    moreover obtain ret conf' where "tracker_alloc conf caller fn ln p (size_of r) = Some (ret, conf')"
      "ret = 0 \<and> listed (add_mset (p, caller, size_of r) M) (fst ` live l') conf' \<or> ret = -1"
      using listed_record [OF assms(3) _ False p(1), of caller fn ln "size_of r"] assms(4) Obtain p(2) by auto
    ultimately show ?thesis using a(1,2,3) False Obtain by auto
  qed
next
  case (Return i)
  show ?thesis
  proof (cases "i < length owned")
    case True
    then have p: "owned ! i \<in> fst ` live l" using assms(2) by (auto simp: owns_def)
    then obtain n where n: "(owned ! i, n) \<in> live l" by auto
    have nz: "owned ! i \<noteq> NULL" using live_block [OF assms(1) n] by simp
    obtain h' l' where f: "fr h (owned ! i) = Some h'" "inv h' l'" "faults h' = faults h"
      "live l' = live l - {(owned ! i, n)}" using fr_law [OF assms(1) n] by blast
    have l': "fst ` live l' = fst ` live l - {owned ! i}"
      unfolding f(4) by (rule image_fst_remove) (rule live_start_unique [OF assms(1) _ n])
    then have "owns (live l') (take i owned @ drop (Suc i) owned)"
      using distinct_drop_nth [OF _ True] assms(2) by (simp add: owns_def)
    moreover obtain conf' where "tracker_free conf (owned ! i) = Some (0, conf')"
      "listed {#t \<in># M. fst t \<noteq> owned ! i#} (fst ` live l') conf'"
      using listed_release [OF assms(3) nz p] l' by auto
    ultimately show ?thesis using f(1,2,3) True Return by auto
  next
    case False
    then show ?thesis using assms Return by auto
  qed
qed

lemma tracked_run_ok:
  assumes "inv h l" "owns (live l) owned" "listed M (fst ` live l) conf" "list_all named_caller cs"
  shows "\<exists>k h' conf' owned' l'. tracked_run al fr size_of (h, conf, owned) cs = Some (k, h', conf', owned') \<and>
    inv h' l' \<and> owns (live l') owned' \<and> faults h' = faults h \<and> k \<le> length cs \<and>
    (k < length cs \<longrightarrow> obtains_block (cs ! k)) \<and>
    (k = length cs \<longrightarrow> (\<exists>M'. listed M' (fst ` live l') conf'))"
  using assms
proof (induction cs arbitrary: h l owned M conf)
  case Nil
  then show ?case by auto
next
  case (Cons c cs)
  obtain ret h1 conf1 owned1 l1 where s:
    "tracked_step al fr size_of (h, conf, owned) c = Some (ret, h1, conf1, owned1)"
    "inv h1 l1" "owns (live l1) owned1" "faults h1 = faults h"
    "ret = 0 \<and> (\<exists>M'. listed M' (fst ` live l1) conf1) \<or> ret = -1 \<and> obtains_block c"
    using tracked_step_ok [OF Cons.prems(1-3), of c size_of] Cons.prems(4) by fastforce
  show ?case
  proof (cases "ret = 0")
    case True
    with s(5) obtain M' where "listed M' (fst ` live l1) conf1" by auto
    moreover have "list_all named_caller cs" using Cons.prems(4) by simp
    ultimately obtain k h' conf' owned' l' where
      "tracked_run al fr size_of (h1, conf1, owned1) cs = Some (k, h', conf', owned')" "inv h' l'"
      "owns (live l') owned'" "faults h' = faults h1" "k \<le> length cs" "k < length cs \<longrightarrow> obtains_block (cs ! k)"
      "k = length cs \<longrightarrow> (\<exists>M'. listed M' (fst ` live l') conf')"
      using Cons.IH [OF s(2,3), of M'] by blast
    then show ?thesis using s(1,4) True by auto
  next
    case False
    then show ?thesis using s by auto
  qed
qed

end

end
