(* ===== verification/ListLoops.thy ===== *)
theory ListLoops
  imports NsList
begin

text \<open>
  The loop macros of \<open>ns_list.h\<close>. A loop runs over a state \<open>'s\<close> from which the memory is read; its body may
  change the state, the list included, or leave the loop with a result. The address of the current entry is
  the loop variable.
\<close>

section \<open>The macros\<close>

partial_function (option) foreach_loop ::
    "('s \<Rightarrow> memory) \<Rightarrow> (memory \<Rightarrow> addr \<Rightarrow> addr) \<Rightarrow> (addr \<Rightarrow> 's \<Rightarrow> 'r + 's) \<Rightarrow> addr \<Rightarrow> 's \<Rightarrow> ('r + 's) option" where
  "foreach_loop get next_entry body e s =
     (if e = NULL then Some (Inr s)
      else case body e s of
        Inl r \<Rightarrow> Some (Inl r)
      | Inr s \<Rightarrow> foreach_loop get next_entry body (next_entry (get s) e) s)"

partial_function (option) foreach_safe_loop ::
    "('s \<Rightarrow> memory) \<Rightarrow> (memory \<Rightarrow> addr \<Rightarrow> addr) \<Rightarrow> (addr \<Rightarrow> 's \<Rightarrow> 'r + 's) \<Rightarrow> addr \<Rightarrow> 's \<Rightarrow> ('r + 's) option" where
  "foreach_safe_loop get next_entry body e s =
     (if e = NULL then Some (Inr s)
      else
        let nxt = next_entry (get s) e
        in case body e s of
             Inl r \<Rightarrow> Some (Inl r)
           | Inr s \<Rightarrow> foreach_safe_loop get next_entry body nxt s)"

declare foreach_loop.simps [code] foreach_safe_loop.simps [code]

definition ns_list_foreach ::
    "('s \<Rightarrow> memory) \<Rightarrow> addr \<Rightarrow> int \<Rightarrow> (addr \<Rightarrow> 's \<Rightarrow> 'r + 's) \<Rightarrow> 's \<Rightarrow> ('r + 's) option" where
  "ns_list_foreach get list offset body s =
     foreach_loop get (\<lambda>m. ns_list_get_next m offset) body (ns_list_get_first (get s) list) s"

definition ns_list_foreach_safe ::
    "('s \<Rightarrow> memory) \<Rightarrow> addr \<Rightarrow> int \<Rightarrow> (addr \<Rightarrow> 's \<Rightarrow> 'r + 's) \<Rightarrow> 's \<Rightarrow> ('r + 's) option" where
  "ns_list_foreach_safe get list offset body s =
     foreach_safe_loop get (\<lambda>m. ns_list_get_next m offset) body (ns_list_get_first (get s) list) s"

definition ns_list_foreach_reverse ::
    "('s \<Rightarrow> memory) \<Rightarrow> addr \<Rightarrow> int \<Rightarrow> (addr \<Rightarrow> 's \<Rightarrow> 'r + 's) \<Rightarrow> 's \<Rightarrow> ('r + 's) option" where
  "ns_list_foreach_reverse get list offset body s =
     foreach_loop get (\<lambda>m. ns_list_get_previous m list offset) body (ns_list_get_last (get s) list offset) s"

definition ns_list_foreach_reverse_safe ::
    "('s \<Rightarrow> memory) \<Rightarrow> addr \<Rightarrow> int \<Rightarrow> (addr \<Rightarrow> 's \<Rightarrow> 'r + 's) \<Rightarrow> 's \<Rightarrow> ('r + 's) option" where
  "ns_list_foreach_reverse_safe get list offset body s =
     foreach_safe_loop get (\<lambda>m. ns_list_get_previous m list offset) body (ns_list_get_last (get s) list offset) s"

section \<open>What they visit\<close>

text \<open>
  In the order of the walk: a plain loop over a body that keeps the list, and a safe loop over a body that may
  take its entry off the list.
\<close>

context list_walk
begin

lemma plain_loop:
  assumes keeps: "\<And>e s s'. rep (get s) (done @ todo) \<Longrightarrow> e \<in> set todo \<Longrightarrow> body e s = Inr s' \<Longrightarrow> rep (get s') (done @ todo)"
    and rep: "rep (get s) (done @ todo)"
  shows "foreach_loop get step body (case todo of [] \<Rightarrow> NULL | x # _ \<Rightarrow> x) s = Some (walk (\<lambda>s e. body e s) s todo)"
  using assms
proof (induction todo arbitrary: s "done")
  case Nil
  then show ?case by (subst foreach_loop.simps) simp
next
  case (Cons x xs)
  have x: "x \<noteq> NULL" using not_null [OF Cons.prems(2)] by auto
  show ?case
  proof (cases "body x s")
    case (Inl r)
    with x show ?thesis by (subst foreach_loop.simps) simp
  next
    case (Inr s')
    then have r: "rep (get s') (done @ x # xs)" using Cons.prems by auto
    have "foreach_loop get step body (case xs of [] \<Rightarrow> NULL | y # _ \<Rightarrow> y) s' = Some (walk (\<lambda>s e. body e s) s' xs)"
    proof (rule Cons.IH [of "done @ [x]"])
      show "rep (get s'') ((done @ [x]) @ xs)"
        if "rep (get t) ((done @ [x]) @ xs)" "e \<in> set xs" "body e t = Inr s''" for e t s''
        using Cons.prems(1) [of t e s''] that by simp
    qed (use r in simp)
    then show ?thesis using x Inr step_rep [OF r] by (subst foreach_loop.simps) simp
  qed
qed

lemma safe_loop:
  assumes body: "\<And>as e bs s s'. rep (get s) (as @ e # bs) \<Longrightarrow> body e s = Inr s' \<Longrightarrow>
      rep (get s') (as @ (if P e then [] else [e]) @ bs)"
    and rep: "rep (get s) (kept @ todo)"
  shows "foreach_safe_loop get step body (case todo of [] \<Rightarrow> NULL | x # _ \<Rightarrow> x) s =
      Some (walk (\<lambda>s e. body e s) s todo) \<and>
    (\<forall>s'. walk (\<lambda>s e. body e s) s todo = Inr s' \<longrightarrow> rep (get s') (kept @ filter (\<lambda>e. \<not> P e) todo))"
  using rep
proof (induction todo arbitrary: s kept)
  case Nil
  then show ?case by (subst foreach_safe_loop.simps) auto
next
  case (Cons x xs)
  have x: "x \<noteq> NULL" using not_null [OF Cons.prems] by auto
  show ?case
  proof (cases "body x s")
    case (Inl r)
    with x show ?thesis by (subst foreach_safe_loop.simps) simp
  next
    case (Inr t)
    have "rep (get t) ((kept @ (if P x then [] else [x])) @ xs)" using body [OF Cons.prems Inr] by simp
    from Cons.IH [OF this] show ?thesis
      using x Inr step_rep [OF Cons.prems] by (subst foreach_safe_loop.simps) (auto split: if_splits)
  qed
qed

end

section \<open>Removing entries while iterating\<close>

text \<open>A body that removes the entries with \<open>P\<close> and notes what it has seen.\<close>

definition remove_if :: "(addr \<Rightarrow> bool) \<Rightarrow> addr \<Rightarrow> int \<Rightarrow> addr \<Rightarrow> memory \<times> addr list \<Rightarrow> unit + memory \<times> addr list" where
  "remove_if P l off e = (\<lambda>(m, seen). Inr (if P e then ns_list_remove m l off e else m, seen @ [e]))"

lemma walk_remove_if: "\<exists>m'. walk (\<lambda>s e. remove_if P l off e s) (m, seen) xs = Inr (m', seen @ xs)"
proof (induction xs arbitrary: m seen)
  case (Cons x xs)
  show ?case using Cons.IH [of "if P x then ns_list_remove m l off x else m" "seen @ [x]"]
    by (simp add: remove_if_def)
qed simp

text \<open>
  C12. The safe loops allow the body to remove the entry it is at: forwards and backwards, the loop ends, has
  visited every entry of the list once and in its order, and the list is left with the entries that were not
  removed, in their order.
\<close>

theorem foreach_safe_with_removal:
  assumes "ns_list_rep m l off xs"
  shows "(\<exists>m'. ns_list_foreach_safe fst l off (remove_if P l off) (m, []) = Some (Inr (m', xs)) \<and>
      ns_list_rep m' l off (filter (\<lambda>e. \<not> P e) xs)) \<and>
    (\<exists>m'. ns_list_foreach_reverse_safe fst l off (remove_if P l off) (m, []) = Some (Inr (m', rev xs)) \<and>
      ns_list_rep m' l off (filter (\<lambda>e. \<not> P e) xs))"
proof (intro conjI)
  have body: "ns_list_rep (fst s') l off (as @ (if P e then [] else [e]) @ bs)"
    if "ns_list_rep (fst s) l off (as @ e # bs)" "remove_if P l off e s = Inr s'" for as e bs s s'
    using that ns_list_remove_rep [of "fst s" l off as e bs] by (auto simp: remove_if_def split: prod.splits)
  obtain m' where w: "walk (\<lambda>s e. remove_if P l off e s) (m, []) xs = Inr (m', xs)"
    using walk_remove_if [of P l off m "[]" xs] by auto
  have "foreach_safe_loop fst (\<lambda>m. ns_list_get_next m off) (remove_if P l off) (case xs of [] \<Rightarrow> NULL | x # _ \<Rightarrow> x) (m, []) =
      Some (walk (\<lambda>s e. remove_if P l off e s) (m, []) xs) \<and>
    (\<forall>s'. walk (\<lambda>s e. remove_if P l off e s) (m, []) xs = Inr s' \<longrightarrow>
       ns_list_rep (fst s') l off ([] @ filter (\<lambda>e. \<not> P e) xs))"
    by (rule forwards.safe_loop) (use body assms in auto)
  then show "\<exists>m'. ns_list_foreach_safe fst l off (remove_if P l off) (m, []) = Some (Inr (m', xs)) \<and>
      ns_list_rep m' l off (filter (\<lambda>e. \<not> P e) xs)"
    using w ns_list_get_first_rep [OF assms] by (simp add: ns_list_foreach_safe_def)
  have body': "ns_list_rep (fst s') l off (rev (as @ (if P e then [] else [e]) @ bs))"
    if "ns_list_rep (fst s) l off (rev (as @ e # bs))" "remove_if P l off e s = Inr s'" for as e bs s s'
    using body [of s "rev bs" e "rev as" s'] that by (auto split: if_splits)
  obtain m2 where w2: "walk (\<lambda>s e. remove_if P l off e s) (m, []) (rev xs) = Inr (m2, rev xs)"
    using walk_remove_if [of P l off m "[]" "rev xs"] by auto
  have "foreach_safe_loop fst (\<lambda>m. ns_list_get_previous m l off) (remove_if P l off)
        (case rev xs of [] \<Rightarrow> NULL | x # _ \<Rightarrow> x) (m, []) =
      Some (walk (\<lambda>s e. remove_if P l off e s) (m, []) (rev xs)) \<and>
    (\<forall>s'. walk (\<lambda>s e. remove_if P l off e s) (m, []) (rev xs) = Inr s' \<longrightarrow>
       ns_list_rep (fst s') l off (rev ([] @ filter (\<lambda>e. \<not> P e) (rev xs))))"
    by (rule backwards.safe_loop) (use body' assms in auto)
  moreover have "ns_list_get_last m l off = (case rev xs of [] \<Rightarrow> NULL | x # _ \<Rightarrow> x)"
    using backwards.start_rep [of m l off "rev xs"] assms by simp
  ultimately show "\<exists>m'. ns_list_foreach_reverse_safe fst l off (remove_if P l off) (m, []) = Some (Inr (m', rev xs)) \<and>
      ns_list_rep m' l off (filter (\<lambda>e. \<not> P e) xs)"
    using w2 by (simp add: ns_list_foreach_reverse_safe_def rev_filter)
qed

theorem foreach_safe_with_removal_witness:
  "\<exists>m'. ns_list_foreach_safe fst 100 1 (remove_if (\<lambda>e. e = 20) 100 1)
      (foldl (list_exec 100 1) (ns_list_init (\<lambda>_. 0) 100) [Add_to_end 10, Add_to_end 20, Add_to_end 30], []) =
      Some (Inr (m', [10, 20, 30])) \<and> ns_list_rep m' 100 1 [10, 30]"
proof -
  have "ns_list_rep (foldl (list_exec 100 1) (ns_list_init (\<lambda>_. 0) 100) [Add_to_end 10, Add_to_end 20, Add_to_end 30])
      100 1 [10, 20, 30]"
    by (simp add: ns_list_init_rep ns_list_add_to_end_rep [of _ _ _ "[]", simplified]
        ns_list_add_to_end_rep [of _ _ _ "[10]", simplified] ns_list_add_to_end_rep [of _ _ _ "[10, 20]", simplified]
        fresh_entry_def apart_def)
  from foreach_safe_with_removal [OF this, of "\<lambda>e. e = 20"] show ?thesis by simp
qed

section \<open>Concatenation\<close>

text \<open>
  C13. Concatenation appends the entries of the source in their order, empties the source, and the counts
  agree: the destination counts the entries of both, modulo the width of the counter.
\<close>

theorem ns_list_concatenate_appends:
  assumes "ns_list_rep m dst off xs" "ns_list_rep m src off ys" "apart dst src"
    "\<forall>x \<in> set xs. apart src (x + off)" "\<forall>y \<in> set ys. apart dst (y + off)" "\<forall>x \<in> set xs. \<forall>y \<in> set ys. apart x y"
  shows "ns_list_rep (ns_list_concatenate m dst src off) dst off (xs @ ys) \<and>
    ns_list_count (ns_list_concatenate m dst src off) dst off = Some (of_nat (length xs) + of_nat (length ys)) \<and>
    ns_list_rep (ns_list_concatenate m dst src off) src off [] \<and>
    ns_list_count (ns_list_concatenate m dst src off) src off = Some 0"
proof -
  note c = ns_list_concatenate_rep [OF assms]
  show ?thesis using c ns_list_count_rep [OF c(1)] ns_list_count_rep [OF c(2)] by simp
qed

theorem ns_list_concatenate_appends_witness:
  "\<exists>m. ns_list_rep m 100 1 [10, 20] \<and> ns_list_rep m 200 1 [30] \<and>
    ns_list_rep (ns_list_concatenate m 100 200 1) 100 1 [10, 20, 30] \<and>
    ns_list_count (ns_list_concatenate m 100 200 1) 100 1 = Some 3"
proof -
  define m where "m = foldl (list_exec 200 1) (ns_list_init
    (foldl (list_exec 100 1) (ns_list_init (\<lambda>_. 0) 100) [Add_to_end 10, Add_to_end 20]) 200) [Add_to_end 30]"
  have "ns_list_rep m 100 1 [10, 20]" "ns_list_rep m 200 1 [30]"
    by (simp_all add: m_def ns_list_rep_def ns_list_add_to_end_def ns_list_init_def ns_list_addrs end_cell_def
        entries_apart_def apart_def Let_def)
  from this ns_list_concatenate_appends [OF this] show ?thesis
    by (intro exI [of _ m]) (simp add: apart_def)
qed

end
