(* ===== verification/DynMemProps.thy ===== *)
theory DynMemProps
  imports DynMemSpec
begin

text \<open>
  The properties of the heap manager, with a small heap on which each is applied.
\<close>

section \<open>A small heap to apply the properties to\<close>

text \<open>
  One region from cell 20 to 41 with the head of the hole list at cell 8: an allocated block of three
  words, a hole of four, an allocated block of two, a hole of five.
\<close>

definition sample_layout :: "region list" where
  "sample_layout = [(20, [3, -4, 2, -5])]"

definition sample_mem :: memory where
  "sample_mem = (\<lambda>_. 0)(20 := 3, 24 := 3, 25 := -4, 30 := -4, 31 := 2, 34 := 2, 35 := -5, 41 := -5,
     8 := 26, 9 := 36, 26 := 36, 27 := 8, 36 := 0, 37 := 26, 21 := 77)"

definition sample_book :: ns_mem_book where
  "sample_book = \<lparr>heap_main = [20, 0, 0], heap_main_end = [41, 0, 0],
     mem_stat_info = \<lparr>heap_sector_size = 88, heap_sector_alloc_cnt = 2, heap_sector_allocated_bytes = 36,
       heap_sector_allocated_bytes_max = 36, heap_alloc_total_bytes = 36, heap_alloc_fail_cnt = 0\<rparr>,
     heap_failure_callback = True, holes_list = 8, heap_size = 88, temporary_alloc_heap_limit = 80,
     mem = sample_mem, failures = []\<rparr>"

lemmas sample_defs = sample_book_def sample_layout_def sample_mem_def

lemma sample_hole_set: "hole_set sample_layout = {26, 36}"
  by (auto simp: sample_layout_def HOLE_T_SIZE_def)

lemma sample_live: "live_blocks sample_layout = {(21, 3), (32, 2)}"
  by (auto simp: sample_layout_def)

lemma sample_regions_ok: "regions_ok sample_mem 8 sample_layout"
proof -
  have "hole_list sample_mem 8 {26, 36} [26, 36]"
    by (auto simp: hole_list_def ns_list_rep_def sample_mem_def ns_list_addrs entries_apart_def HOLE_LINK_def
        end_cell_def apart_def)
  then show ?thesis
    using sample_hole_set
    by (auto simp: regions_ok_def region_ok_def sample_layout_def sample_mem_def region_end_def)
qed

lemma sample_ok: "heap_ok sample_book sample_layout"
  using sample_regions_ok
  by (simp add: heap_ok_def heap_inv_def book_regions_def stats_ok_def sample_book_def sample_layout_def
      REGION_COUNT_def region_end_def live_sizes_def live_bytes_def numeral_eq_Suc)

lemma sample_inv: "heap_inv sample_book sample_layout"
  using sample_ok by (simp add: heap_ok_def)


section \<open>Allocation\<close>

lemma internal_alloc_takes:
  assumes inv: "heap_inv book R" and lim: "\<not> over_limit book direction"
    and n: "n = requested_words req" "n \<noteq> 0" and x: "taken_hole book R direction n x"
    and k: "k = - mem book (x - 1)"
  shows "\<exists>book' R'. internal_alloc_book book req direction =
      Some (carve_start direction (x - 1) k n + 1, book') \<and>
    allocates book R (carve_start direction (x - 1) k n + 1) (carve_size k n) book' R' \<and>
    heap_faults book' = heap_faults book \<and> n \<le> carve_size k n"
proof -
  have "n \<le> k" using x k by (simp add: taken_hole_def fits_def)
  then have "n \<le> carve_size k n" by (simp add: carve_size_def)
  with internal_alloc_takes_hole [OF inv lim n x] k show ?thesis by fastforce
qed

text \<open>
  C8. \<open>ns_dyn_mem_alloc\<close> serves a request from the highest hole that is big enough, and from its upper
  end: the block has at least the requested words, overlaps no allocated block, the heap stays
  well-formed (blocks tile the regions, no two free blocks touch, the hole list is complete and in
  address order), the contents of all other allocated blocks stay, and the counters match the layout.
\<close>

theorem ns_mem_alloc_takes_highest_hole:
  assumes "heap_inv book R" "n = requested_words req" "n \<noteq> 0" "taken_hole book R (-1) n x"
    "k = - mem book (x - 1)"
  shows "\<exists>book' R'. ns_mem_alloc (Some book) req =
      Some (if n + 4 \<le> k then x + (k - n) else x, Some book') \<and>
    allocates book R (if n + 4 \<le> k then x + (k - n) else x) (if n + 4 \<le> k then n else k) book' R' \<and>
    heap_faults book' = heap_faults book \<and> n \<le> (if n + 4 \<le> k then n else k)"
proof -
  have lim: "\<not> over_limit book (-1)" by (simp add: over_limit_def)
  have c: "carve_start (-1) (x - 1) k n + 1 = (if n + 4 \<le> k then x + (k - n) else x)"
    "carve_size k n = (if n + 4 \<le> k then n else k)"
    by (simp_all add: carve_start_def carve_size_def HOLE_T_SIZE_def)
  obtain book' R' where a: "internal_alloc_book book req (-1) = Some (carve_start (-1) (x - 1) k n + 1, book')"
    "allocates book R (carve_start (-1) (x - 1) k n + 1) (carve_size k n) book' R'"
    "heap_faults book' = heap_faults book" "n \<le> carve_size k n"
    using internal_alloc_takes [OF assms(1) lim assms(2-5)] by blast
  have "ns_mem_alloc (Some book) req = Some (if n + 4 \<le> k then x + (k - n) else x, Some book')"
    by (simp only: a(1) [unfolded c] ns_mem_alloc_def ns_mem_internal_alloc_def option.case option.map prod.case)
  with a(2-4) [unfolded c] show ?thesis by blast
qed

lemma sample_fits: "fits sample_book sample_layout n x \<longleftrightarrow> x = 26 \<and> n \<le> 4 \<or> x = 36 \<and> n \<le> 5"
  unfolding fits_def sample_hole_set by (auto simp: sample_book_def sample_mem_def)

lemma sample_taken:
  "taken_hole sample_book sample_layout (-1) 1 36" "taken_hole sample_book sample_layout 1 1 26"
  "taken_hole sample_book sample_layout (-1) 3 36"
  by (auto simp: taken_hole_def sample_fits)

theorem ns_mem_alloc_takes_highest_hole_witness:
  "\<exists>book' R'. ns_mem_alloc (Some sample_book) 2 = Some (40, Some book') \<and>
    allocates sample_book sample_layout 40 1 book' R'"
proof -
  have "1 = requested_words 2" by (simp add: requested_words_def WORD_SIZE_def)
  moreover have "5 = - mem sample_book (36 - 1)" by (simp add: sample_defs)
  ultimately show ?thesis
    using ns_mem_alloc_takes_highest_hole [OF sample_inv _ _ sample_taken(1)] by fastforce
qed

text \<open>
  C9. \<open>ns_dyn_mem_temporary_alloc\<close>, below its limit, serves a request from the lowest hole that is big
  enough, and from its lower end, with the same guarantees.
\<close>

theorem ns_mem_temporary_alloc_takes_lowest_hole:
  assumes "heap_inv book R" "n = requested_words req" "n \<noteq> 0" "taken_hole book R 1 n x"
    "k = - mem book (x - 1)"
    "heap_sector_allocated_bytes (mem_stat_info book) \<le> temporary_alloc_heap_limit book"
  shows "\<exists>book' R'. ns_mem_temporary_alloc (Some book) req = Some (x, Some book') \<and>
    allocates book R x (if n + 4 \<le> k then n else k) book' R' \<and>
    heap_faults book' = heap_faults book \<and> n \<le> (if n + 4 \<le> k then n else k)"
proof -
  have lim: "\<not> over_limit book 1" using assms(6) by (simp add: over_limit_def not_less)
  have c: "carve_start 1 (x - 1) k n + 1 = x" "carve_size k n = (if n + 4 \<le> k then n else k)"
    by (simp_all add: carve_start_def carve_size_def HOLE_T_SIZE_def)
  obtain book' R' where a: "internal_alloc_book book req 1 = Some (carve_start 1 (x - 1) k n + 1, book')"
    "allocates book R (carve_start 1 (x - 1) k n + 1) (carve_size k n) book' R'"
    "heap_faults book' = heap_faults book" "n \<le> carve_size k n"
    using internal_alloc_takes [OF assms(1) lim assms(2-5)] by blast
  have "ns_mem_temporary_alloc (Some book) req = Some (x, Some book')"
    by (simp only: a(1) [unfolded c] ns_mem_temporary_alloc_def ns_mem_internal_alloc_def option.case
         option.map prod.case)
  with a(2-4) [unfolded c] show ?thesis by blast
qed

theorem ns_mem_temporary_alloc_takes_lowest_hole_witness:
  "\<exists>book' R'. ns_mem_temporary_alloc (Some sample_book) 4 = Some (26, Some book') \<and>
    allocates sample_book sample_layout 26 4 book' R'"
proof -
  have "1 = requested_words 4" by (simp add: requested_words_def WORD_SIZE_def)
  moreover have "4 = - mem sample_book (26 - 1)" by (simp add: sample_defs)
  moreover have "heap_sector_allocated_bytes (mem_stat_info sample_book) \<le> temporary_alloc_heap_limit sample_book"
    by (simp add: sample_book_def)
  ultimately show ?thesis
    using ns_mem_temporary_alloc_takes_lowest_hole [OF sample_inv _ _ sample_taken(2)] by fastforce
qed

definition size_reports :: "ns_mem_book \<Rightarrow> u32 \<Rightarrow> heap_fail_t list" where
  "size_reports book req = (if heap_failure_callback book \<and> \<not> valid_request book req
     then [NS_DYN_MEM_ALLOCATE_SIZE_NOT_VALID] else [])"

lemma internal_alloc_total:
  assumes "heap_inv book R"
  shows "\<exists>p book'. internal_alloc_book book req direction = Some (p, book') \<and>
    (p = NULL \<longleftrightarrow> over_limit book direction \<or> requested_words req = 0 \<or>
       (\<forall>x. \<not> fits book R (requested_words req) x)) \<and>
    (p = NULL \<longrightarrow> mem book' = mem book \<and> heap_inv book' R \<and>
      heap_alloc_fail_cnt (mem_stat_info book') = heap_alloc_fail_cnt (mem_stat_info book) + 1 \<and>
      failures book' = failures book @ (if over_limit book direction then [] else size_reports book req))"
  using assms
proof (cases rule: internal_alloc_cases [where direction = direction and req = req])
  case limit
  then show ?thesis using assms by simp (simp add: count_failure_def)
next
  case none
  then show ?thesis
    using assms by simp (simp add: count_failure_def report_size_def heap_failure_def size_reports_def)
next
  case (some x)
  let ?k = "- mem book (x - 1)" and ?n = "requested_words req"
  let ?p = "carve_start direction (x - 1) ?k ?n + 1"
  obtain book' R' where a: "internal_alloc_book book req direction = Some (?p, book')"
    "allocates book R ?p (carve_size ?k ?n) book' R'"
    using internal_alloc_takes [OF assms some(1) refl some(2,3) refl] by blast
  have "(?p, carve_size ?k ?n) \<in> live_blocks R'" "regions_ok (mem book') (holes_list book') R'"
    using a(2) by (auto simp: allocates_def heap_inv_def)
  then have "?p \<noteq> NULL" by (auto elim!: live_blocks_bounds simp: regions_ok_def region_ok_def)
  then show ?thesis using a(1) some by (auto simp: taken_hole_def)
qed

text \<open>
  C18. \<open>ns_dyn_mem_alloc\<close> always returns, and it returns null exactly when no hole is big enough or the
  request converts to no words at all (0, or so large that rounding up wraps around). A failed request
  changes nothing in the heap, is counted, and is reported when its size was not valid.
\<close>

theorem ns_mem_alloc_fails_iff_no_hole:
  assumes "heap_inv book R"
  shows "\<exists>p book'. ns_mem_alloc (Some book) req = Some (p, Some book') \<and>
    (p = NULL \<longleftrightarrow> requested_words req = 0 \<or> (\<forall>x. \<not> fits book R (requested_words req) x)) \<and>
    (p = NULL \<longrightarrow> mem book' = mem book \<and> heap_inv book' R \<and>
      heap_alloc_fail_cnt (mem_stat_info book') = heap_alloc_fail_cnt (mem_stat_info book) + 1 \<and>
      failures book' = failures book @ (if heap_failure_callback book \<and> \<not> valid_request book req
        then [NS_DYN_MEM_ALLOCATE_SIZE_NOT_VALID] else []))"
  using internal_alloc_total [OF assms, of req "-1"]
  by (auto simp: ns_mem_alloc_def ns_mem_internal_alloc_def over_limit_def size_reports_def)

theorem ns_mem_alloc_fails_iff_no_hole_witness:
  "\<exists>p book'. ns_mem_alloc (Some sample_book) 21 = Some (p, Some book') \<and> p = NULL \<and>
    mem book' = mem sample_book"
  using ns_mem_alloc_fails_iff_no_hole [OF sample_inv, of 21]
  by (fastforce simp: sample_fits requested_words_def WORD_SIZE_def)

text \<open>
  The size conversion rounds a request up to whole words. The rounding wraps for the three largest
  sizes only, and then gives no words, which every caller treats as a failure; requests of 0 and
  requests above the heap size are reported.
\<close>

theorem convert_allocation_size_rounds_up:
  assumes "heap_main book ! 0 \<noteq> NULL"
  shows "convert_allocation_size book req =
    (if uint req + 3 < 2 ^ 32 then (uint req + 3) div 4 else 0, report_size book req)"
proof -
  have "req + WORD_SIZE - 1 = req + 3" by (simp add: WORD_SIZE_def)
  then have "uint (req + WORD_SIZE - 1) = (if uint req + 3 < 2 ^ 32 then uint req + 3 else uint req + 3 - 2 ^ 32)"
    by (simp only: uint_plus_if') simp
  moreover have "uint req < 2 ^ 32" using uint_lt2p [of req] by simp
  ultimately have "uint ((req + WORD_SIZE - 1) div WORD_SIZE) =
      (if uint req + 3 < 2 ^ 32 then (uint req + 3) div 4 else 0)"
    unfolding uint_div_distrib by (simp add: WORD_SIZE_def)
  then show ?thesis
    using assms
    by (auto simp: convert_allocation_size_def report_size_def valid_request_def not_less linorder_not_le)
qed

theorem convert_allocation_size_rounds_up_witness:
  "fst (convert_allocation_size sample_book 4294967293) = 0 \<and> fst (convert_allocation_size sample_book 5) = 2"
proof -
  have "heap_main sample_book ! 0 \<noteq> NULL" by (simp add: sample_book_def)
  from convert_allocation_size_rounds_up [OF this] show ?thesis by simp
qed

section \<open>Release\<close>

text \<open>
  C10. \<open>ns_dyn_mem_free\<close> of an allocated block returns, removes exactly that block from the layout,
  merges the space with its free neighbours (the invariant admits no two adjacent free blocks), keeps
  the contents of all other allocated blocks, adjusts the counters and reports nothing.
\<close>

theorem ns_mem_free_releases_block:
  assumes "heap_inv book R" "(p, sz) \<in> live_blocks R"
  shows "\<exists>book' R'. ns_mem_free book p = Some book' \<and> releases book R p sz book' R' \<and>
    failures book' = failures book"
proof -
  obtain m' R' where "ns_mem_free book p = Some (count_free (book\<lparr>mem := m'\<rparr>) sz)"
    "releases book R p sz (count_free (book\<lparr>mem := m'\<rparr>) sz) R'"
    using ns_mem_free_ok [OF assms] by blast
  then show ?thesis
    by (intro exI [of _ "count_free (book\<lparr>mem := m'\<rparr>) sz"] exI [of _ R']) (simp add: count_free_def)
qed

theorem ns_mem_free_releases_block_witness:
  "\<exists>book' R'. ns_mem_free sample_book 32 = Some book' \<and> live_blocks R' = {(21, 3)} \<and>
    mem book' 21 = 77 \<and> failures book' = []"
proof -
  have p: "(32, 2) \<in> live_blocks sample_layout" by (simp add: sample_live)
  obtain book' R' where f: "ns_mem_free sample_book 32 = Some book'" "releases sample_book sample_layout 32 2 book' R'"
    "failures book' = failures sample_book"
    using ns_mem_free_releases_block [OF sample_inv p] by blast
  have "live_blocks R' = {(21, 3)}" using f(2) by (auto simp: releases_def sample_live)
  moreover have "mem book' 21 = mem sample_book 21"
    by (rule releases_data [OF f(2), of 21 3]) (auto simp: sample_live)
  ultimately show ?thesis using f(1,3) by (intro exI [of _ book'] exI [of _ R']) (simp add: sample_defs)
qed


lemma alloc_layout:
  assumes "heap_inv book R" "ns_mem_alloc (Some book) req = Some (p, Some book')" "p \<noteq> NULL"
  obtains R' sz where "allocates book R p sz book' R'"
  using assms(1)
proof (cases rule: internal_alloc_cases [where direction = "-1" and req = req])
  case limit
  then show thesis by (simp add: over_limit_def)
next
  case none
  with assms(2,3) show thesis by (simp add: ns_mem_alloc_def ns_mem_internal_alloc_def)
next
  case (some x)
  let ?k = "- mem book (x - 1)" and ?n = "requested_words req"
  obtain b R' where a: "internal_alloc_book book req (-1) = Some (carve_start (-1) (x - 1) ?k ?n + 1, b)"
    "allocates book R (carve_start (-1) (x - 1) ?k ?n + 1) (carve_size ?k ?n) b R'"
    using internal_alloc_takes [OF assms(1) some(1) refl some(2,3) refl] by blast
  then have "p = carve_start (-1) (x - 1) ?k ?n + 1" "b = book'"
    using assms(2) by (simp_all add: ns_mem_alloc_def ns_mem_internal_alloc_def)
  with a(2) that show thesis by blast
qed

lemma allocates_new: "allocates book R p sz book' R' \<Longrightarrow> (p, sz) \<notin> live_blocks R"
proof
  assume a: "allocates book R p sz book' R'" and p: "(p, sz) \<in> live_blocks R"
  then have "p + sz + 2 \<le> p \<or> p + sz + 2 \<le> p" by (auto simp: allocates_def)
  moreover have "0 < sz" using p by (auto elim: live_blocks_bounds)
  ultimately show False by simp
qed

text \<open>
  C23. Releasing a block twice in a row is detected: the second call reports a double free and changes
  nothing else. It holds even when the first call merged the block with the free block below it, which
  leaves the old delimiting word inside the data of the merged block.
\<close>

theorem ns_mem_free_twice_detected:
  assumes "heap_inv book R" "(p, sz) \<in> live_blocks R" "ns_mem_free book p = Some book'"
  shows "ns_mem_free book' p = Some (heap_failure book' NS_DYN_MEM_DOUBLE_FREE)"
proof -
  obtain m' R' where f: "book' = count_free (book\<lparr>mem := m'\<rparr>) sz"
    "releases book R p sz book' R'" "m' (p - 1) < 0"
    using ns_mem_free_ok [OF assms(1,2)] assms(3) by auto
  have neg: "mem book' (p - 1) < 0" using f(1,3) by (simp add: count_free_def)
  have inv': "heap_inv book' R'" using f(2) by (simp add: releases_def)
  obtain r where r: "r \<in> set R" "0 < sz" "fst r + 1 \<le> p" "p + sz + 1 \<le> region_end r"
    using assms(2) by (rule live_blocks_bounds)
  have "(fst r, region_end r) \<in> set (extents R')"
    using r(1) f(2) by (auto simp: releases_def extents_def)
  then obtain r' where r': "r' \<in> set R'" "fst r' = fst r" "region_end r' = region_end r"
    by (auto simp: extents_def)
  have "region_holds (p - 1) (mem book' (p - 1)) r'" using r r' neg by (simp add: region_holds_def)
  from region_find_unique [OF inv' r'(1) this]
  have "pointer_address_validate book' (p - 1) (mem book' (p - 1))"
    by (auto simp: pointer_address_validate_def)
  moreover have "p \<noteq> NULL"
    using r(1,3) assms(1) by (auto simp: heap_inv_def regions_ok_def region_ok_def)
  ultimately show ?thesis using neg by (simp add: ns_mem_free_def Let_def)
qed

theorem ns_mem_free_twice_detected_witness:
  "\<exists>book'. ns_mem_free sample_book 32 = Some book' \<and>
    ns_mem_free book' 32 = Some (heap_failure book' NS_DYN_MEM_DOUBLE_FREE)"
proof -
  have p: "(32, 2) \<in> live_blocks sample_layout" by (simp add: sample_live)
  obtain m' where f: "ns_mem_free sample_book 32 = Some (count_free (sample_book\<lparr>mem := m'\<rparr>) 2)"
    using ns_mem_free_ok [OF sample_inv p] by blast
  show ?thesis using ns_mem_free_twice_detected [OF sample_inv p f] f by blast
qed

text \<open>
  Releasing a pointer whose block would lie in no region is detected: it is reported as not valid, and
  the heap is not written.
\<close>

theorem ns_mem_free_foreign_pointer:
  assumes "heap_inv book R" "p \<noteq> NULL" "\<forall>r \<in> set R. \<not> region_holds (p - 1) (mem book (p - 1)) r"
  shows "ns_mem_free book p = Some (heap_failure book NS_DYN_MEM_POINTER_NOT_VALID)"
proof -
  have "ns_dyn_mem_region_find book (p - 1) (mem book (p - 1)) = -1"
    using region_find_result [OF assms(1), of "p - 1" "mem book (p - 1)"] assms(3) by auto
  then show ?thesis using assms(2) by (simp add: ns_mem_free_def Let_def pointer_address_validate_def)
qed

theorem ns_mem_free_foreign_pointer_witness:
  "ns_mem_free sample_book 100 = Some (heap_failure sample_book NS_DYN_MEM_POINTER_NOT_VALID)"
  by (rule ns_mem_free_foreign_pointer [OF sample_inv])
     (simp_all add: sample_defs region_holds_def region_end_def)

section \<open>Histories of calls\<close>

text \<open>
  C1. Whatever sequence of allocations, temporary allocations and releases a client makes that owns some of the
  blocks, as long as it releases only blocks it owns and each once: every call returns, the heap stays well-formed,
  its own blocks are allocated ones, and no fault (double free, invalid pointer, corrupted or uninitialised heap) is
  ever reported. The blocks of others stay allocated, at the same place with the same size and contents, and nothing
  else becomes theirs; no cell outside of the regions and the head of the hole list is written. A client that owned all
  blocks still owns all of them.
\<close>

theorem heap_history_isolated:
  assumes "heap_ok book R" "distinct owned" "set owned \<subseteq> fst ` live_blocks R"
  shows "\<exists>book' owned' R'. heap_run book_alloc ns_mem_free book owned calls = Some (book', owned') \<and>
    heap_ok book' R' \<and> heap_faults book' = heap_faults book \<and> distinct owned' \<and> set owned' \<subseteq> fst ` live_blocks R' \<and>
    {b \<in> live_blocks R'. fst b \<notin> set owned'} = {b \<in> live_blocks R. fst b \<notin> set owned} \<and>
    (\<forall>(q, k) \<in> live_blocks R. q \<notin> set owned \<longrightarrow> (\<forall>c \<in> {q..<q + k}. mem book' c = mem book c)) \<and>
    (\<forall>c. c \<notin> managed (holes_list book) R \<longrightarrow> mem book' c = mem book c) \<and>
    (set owned = fst ` live_blocks R \<longrightarrow> set owned' = fst ` live_blocks R')"
proof -
  obtain book' owned' R' where r: "heap_run book_alloc ns_mem_free book owned calls = Some (book', owned')"
    "heap_from book R book' R'" "heap_faults book' = heap_faults book" "distinct owned'"
    "set owned' \<subseteq> fst ` live_blocks R'"
    "{b \<in> live_blocks R'. fst b \<notin> set owned'} = {b \<in> live_blocks R. fst b \<notin> set owned}"
    "\<forall>(q, k) \<in> live_blocks R. q \<notin> set owned \<longrightarrow> (\<forall>c \<in> {q..<q + k}. mem book' c = mem book c)"
    using within.run_isolated [OF heap_from_refl [OF assms(1)] assms(2,3), of calls] by blast
  have ok: "heap_ok book' R'" "\<forall>c. c \<notin> managed (holes_list book) R \<longrightarrow> mem book' c = mem book c"
    using r(2) by (simp_all add: heap_from_def same_outside_def)
  have all: "set owned' = fst ` live_blocks R'" if "set owned = fst ` live_blocks R"
  proof -
    have "{b \<in> live_blocks R'. fst b \<notin> set owned'} = {}" unfolding r(6) that by force
    with r(5) show ?thesis by force
  qed
  show ?thesis by (intro exI [of _ book'] exI [of _ owned'] exI [of _ R'] conjI impI r(1,3-7) ok all)
qed

theorem heap_history_isolated_witness:
  "\<exists>book' owned'. heap_run book_alloc ns_mem_free sample_book [32]
      [Allocate (8, False), Release 0, Allocate (4, True), Allocate (7, False)] = Some (book', owned') \<and>
    mem book' 21 = 77 \<and> mem book' 42 = 0"
proof -
  have o: "distinct [32 :: addr]" "set [32] \<subseteq> fst ` live_blocks sample_layout" by (auto simp: sample_live)
  have m: "mem sample_book 21 = 77" "mem sample_book 42 = 0" "42 \<notin> managed (holes_list sample_book) sample_layout"
    by (simp_all add: sample_defs managed_def extents_def region_end_def head_cells_def)
  obtain book' owned' where r: "heap_run book_alloc ns_mem_free sample_book [32]
      [Allocate (8, False), Release 0, Allocate (4, True), Allocate (7, False)] = Some (book', owned')"
    "\<forall>(q, k) \<in> live_blocks sample_layout. q \<notin> set [32] \<longrightarrow> (\<forall>c \<in> {q..<q + k}. mem book' c = mem sample_book c)"
    "\<forall>c. c \<notin> managed (holes_list sample_book) sample_layout \<longrightarrow> mem book' c = mem sample_book c"
    using heap_history_isolated [OF sample_ok o, of "[Allocate (8, False), Release 0, Allocate (4, True), Allocate (7, False)]"]
    by (elim exE conjE) (rule that)
  have "mem book' 21 = mem sample_book 21" using r(2) by (auto simp: sample_live)
  then show ?thesis using r(1,3) m by auto
qed

text \<open>
  C7. No leak and no fragmentation remains. When a client has released everything it has obtained, in whatever order
  and however its blocks were split and merged, the heap is laid out as before: the same blocks and the same holes,
  at the same places and of the same sizes, with the same contents of the blocks and the same counters of what is
  allocated.
\<close>

theorem heap_history_restores_layout:
  assumes "heap_ok book R" "heap_run book_alloc ns_mem_free book [] calls = Some (book', [])"
  shows "heap_ok book' R \<and>
    (\<forall>(q, k) \<in> live_blocks R. \<forall>c \<in> {q..<q + k}. mem book' c = mem book c) \<and>
    heap_sector_alloc_cnt (mem_stat_info book') = heap_sector_alloc_cnt (mem_stat_info book) \<and>
    heap_sector_allocated_bytes (mem_stat_info book') = heap_sector_allocated_bytes (mem_stat_info book)"
proof -
  obtain R' where r: "heap_from book R book' R'" "live_blocks R' = live_blocks R"
    "\<forall>(q, k) \<in> live_blocks R. \<forall>c \<in> {q..<q + k}. mem book' c = mem book c"
    using within.run_isolated [OF heap_from_refl [OF assms(1)], of "[]" calls] assms(2) by auto
  have ok': "heap_ok book' R'" using r(1) by (rule heap_from_ok)
  have "extents R' = extents R" using r(1) by (simp add: heap_from_def)
  then have "R' = R"
    by (rule heap_layout_unique [rotated 2]) (use ok' assms(1) r(2) in \<open>auto simp: heap_ok_def heap_inv_def\<close>)
  then show ?thesis using ok' assms(1) r(3) by (simp add: heap_ok_def stats_ok_def)
qed

theorem heap_history_restores_layout_witness:
  "\<exists>book'. heap_run book_alloc ns_mem_free sample_book []
      [Allocate (8, False), Allocate (4, True), Release 0, Allocate (6, True), Release 1, Release 0] = Some (book', []) \<and>
    heap_ok book' sample_layout"
proof -
  have "map_option snd (heap_run book_alloc ns_mem_free sample_book []
      [Allocate (8, False), Allocate (4, True), Release 0, Allocate (6, True), Release 1, Release 0]) = Some []"
    by code_simp
  then obtain book' where "heap_run book_alloc ns_mem_free sample_book []
      [Allocate (8, False), Allocate (4, True), Release 0, Allocate (6, True), Release 1, Release 0] = Some (book', [])"
    by auto
  with heap_history_restores_layout [OF sample_ok this] show ?thesis by blast
qed

section \<open>The limit of temporary allocations\<close>

text \<open>
  The threshold function accepts an amount of free heap below half the heap, or, with no amount, a
  percentage below 50, or neither to switch the guard off; it then leaves the requested room free. Any
  other argument is refused and changes nothing; so is one whose limit would be 0.
\<close>

theorem threshold_limit:
  "ns_mem_set_temporary_alloc_free_heap_threshold (Some book) pct amount =
     (let accepted = (if amount \<noteq> 0 then amount < heap_size book div 2 else pct < 50);
          limit = (if amount \<noteq> 0 then heap_size book - amount
                   else if pct \<noteq> 0 then heap_size book div 100 * (100 - ucast pct)
                   else heap_size book)
      in if accepted \<and> limit \<noteq> 0 then (0, Some (book\<lparr>temporary_alloc_heap_limit := limit\<rparr>))
         else (-2, Some book))"
  unfolding ns_mem_set_temporary_alloc_free_heap_threshold_def Let_def option.case
  by (cases "amount = 0"; cases "pct = 0") simp_all

text \<open>
  A temporary request always returns, and it returns null exactly when the allocated bytes exceed the
  limit, or the request converts to no words, or no hole is big enough; the limit is looked at first, so
  a request it refuses is not even reported when its size is not valid.
\<close>

theorem ns_mem_temporary_alloc_fails_iff:
  assumes "heap_inv book R"
  shows "\<exists>p book'. ns_mem_temporary_alloc (Some book) req = Some (p, Some book') \<and>
    (p = NULL \<longleftrightarrow>
       temporary_alloc_heap_limit book < heap_sector_allocated_bytes (mem_stat_info book) \<or>
       requested_words req = 0 \<or> (\<forall>x. \<not> fits book R (requested_words req) x)) \<and>
    (temporary_alloc_heap_limit book < heap_sector_allocated_bytes (mem_stat_info book) \<longrightarrow>
       mem book' = mem book \<and> failures book' = failures book)"
  using internal_alloc_total [OF assms, of req 1]
  by (auto simp: ns_mem_temporary_alloc_def ns_mem_internal_alloc_def over_limit_def)

theorem ns_mem_temporary_alloc_fails_iff_witness:
  "\<exists>p book'. ns_mem_temporary_alloc (Some (sample_book\<lparr>temporary_alloc_heap_limit := 30\<rparr>)) 4 = Some (p, Some book') \<and>
    p = NULL \<and> mem book' = sample_mem"
proof -
  have inv: "heap_inv (sample_book\<lparr>temporary_alloc_heap_limit := 30\<rparr>) sample_layout"
    using sample_inv by (simp add: heap_inv_def book_regions_def)
  show ?thesis
    using ns_mem_temporary_alloc_fails_iff [OF inv, of 4] by (auto simp: sample_book_def)
qed

section \<open>Setting up the heap\<close>

text \<open>
  C24. \<open>ns_dyn_mem_init\<close> on a buffer of at least 70 bytes that does not wrap around the address space
  sets up a well-formed heap with nothing allocated: one region with one hole, after the book-keeping
  structure and within the buffer, whatever the alignment of its start and the remainder of its
  length. No cell outside the buffer is written.
\<close>

theorem ns_mem_init_establishes_heap:
  assumes "70 \<le> uint h_size" "uint heap + uint h_size \<le> 2 ^ 32"
  shows "\<exists>start n. heap_ok (ns_mem_init m heap h_size cb) [(start, [- n])] \<and> 2 \<le> n \<and>
    uint heap + uint BOOK_SIZE \<le> 4 * start \<and> 4 * (start + n + 2) \<le> uint heap + uint h_size \<and>
    (\<forall>c. 4 * c + 3 < uint heap \<or> uint heap + uint h_size \<le> 4 * c \<longrightarrow>
      mem (ns_mem_init m heap h_size cb) c = m c)"
proof -
  have "uint BOOK_SIZE = 48" by (simp add: BOOK_SIZE_def)
  then show ?thesis
    using ns_mem_init_ok [OF assms, of m cb] unfolding fresh_heap_def heap_ok_def by (simp only:) blast
qed

theorem ns_mem_init_establishes_heap_witness:
  "\<exists>start n. heap_ok (ns_mem_init (\<lambda>_. 0) 4097 101 True) [(start, [- n])] \<and> 2 \<le> n \<and> 4145 \<le> 4 * start"
proof -
  have "70 \<le> uint (101 :: u32)" "uint (4097 :: u32) + uint (101 :: u32) \<le> 2 ^ 32" by simp_all
  from ns_mem_init_establishes_heap [OF this, of "\<lambda>_. 0" True] show ?thesis by (auto simp: BOOK_SIZE_def)
qed

text \<open>
  C25. Adding a memory area to a heap with a free region slot keeps the heap well-formed, as long as the
  area is apart from the heap and, once aligned, has room for two data words: the area becomes one hole
  at its place in the address-ordered hole list, the heap size, the reported size and the limit of
  temporary allocations grow with it, and no allocated block is touched.
\<close>

theorem ns_mem_region_add_extends_heap:
  assumes "heap_ok book R" "length R < REGION_COUNT" "align_region ptr n = (ptr', n')"
    "start = uint ptr' div 4" "0 < start" "k = uint (n' div WORD_SIZE) - 2" "2 \<le> k"
    "\<forall>r \<in> set R. disjoint_regions r (start, [- k])"
    "holes_list book + 2 \<le> start \<or> start + k + 2 \<le> holes_list book"
    "ptr \<noteq> 0" "3 * WORD_SIZE \<le> n"
  shows "\<exists>book'. ns_mem_region_add (Some book) ptr n = Some (0, Some book') \<and>
    heap_ok book' (R @ [(start, [- k])]) \<and>
    (\<forall>(q, s) \<in> live_blocks R. \<forall>c \<in> {q - 1..q + s}. mem book' c = mem book c) \<and>
    heap_size book' = heap_size book + n' \<and> temporary_alloc_heap_limit book' = default_limit (heap_size book')"
proof -
  have ok: "heap_inv book R" "stats_ok book R" using assms(1) by (auto simp: heap_ok_def)
  obtain book' where b: "region_add_book book ptr n = Some (0, book')" "heap_inv book' (R @ [(start, [- k])])"
    "\<forall>(q, s) \<in> live_blocks R. \<forall>c \<in> {q - 1..q + s}. mem book' c = mem book c"
    "stats_ok book' (R @ [(start, [- k])])" "heap_size book' = heap_size book + n'"
    "temporary_alloc_heap_limit book' = default_limit (heap_size book + n')"
    using region_add_ok [OF ok(1) assms(2-9)] ok(2) by blast
  have "ns_mem_region_add (Some book) ptr n = Some (0, Some book')"
    using assms(10,11) b(1) by (simp add: ns_mem_region_add_def)
  with b show ?thesis by (auto simp: heap_ok_def)
qed

theorem ns_mem_region_add_extends_heap_witness:
  "\<exists>book'. ns_mem_region_add (Some sample_book) 198 43 = Some (0, Some book') \<and>
    heap_ok book' (sample_layout @ [(50, [- 7])]) \<and> heap_size book' = 126"
proof -
  have al: "align_region 198 43 = (200, 38)" by (simp add: align_region_def WORD_SIZE_def Let_def)
  have "length sample_layout < REGION_COUNT" by (simp add: sample_layout_def REGION_COUNT_def)
  moreover have "\<forall>r \<in> set sample_layout. disjoint_regions r (50, [- 7])"
    by (simp add: sample_layout_def disjoint_regions_def region_end_def)
  ultimately show ?thesis
    using ns_mem_region_add_extends_heap [OF sample_ok _ al, of 50 7]
    by (fastforce simp: WORD_SIZE_def sample_book_def)
qed

text \<open>
  Adding an area, allocating from it, adding the same area again and allocating again: the two return
  codes and the two blocks.
\<close>

definition add_alloc_twice ::
    "ns_mem_book \<Rightarrow> u32 \<Rightarrow> u32 \<Rightarrow> u32 \<Rightarrow> ((int \<times> addr) \<times> (int \<times> addr)) option" where
  "add_alloc_twice book ptr n req =
     (case ns_mem_region_add (Some book) ptr n of None \<Rightarrow> None | Some (r1, b1) \<Rightarrow>
      case ns_mem_alloc b1 req of None \<Rightarrow> None | Some (p1, b2) \<Rightarrow>
      case ns_mem_region_add b2 ptr n of None \<Rightarrow> None | Some (r2, b3) \<Rightarrow>
      case ns_mem_alloc b3 req of None \<Rightarrow> None | Some (p2, b4) \<Rightarrow> Some ((r1, p1), (r2, p2)))"

text \<open>
  \<open>ns_mem_region_add\<close> refuses an area that is already part of the heap with -2, but it has then
  overwritten the delimiting words of the area. Here the area held an allocated block at its end: the
  block is lost, and the next request is given the same block a second time.
\<close>

lemma region_added_twice_reuses_allocated_block:
  "add_alloc_twice sample_book 200 40 8 = Some ((0, 57), (-2, 57))"
  by code_simp


definition add_then_alloc ::
    "ns_mem_book \<Rightarrow> u32 \<Rightarrow> u32 \<Rightarrow> u32 \<Rightarrow> (int \<times> addr \<times> heap_fail_t list) option" where
  "add_then_alloc book ptr n req =
     (case ns_mem_region_add (Some book) ptr n of None \<Rightarrow> None | Some (r, b1) \<Rightarrow>
      case ns_mem_alloc b1 req of None \<Rightarrow> None | Some (p, b2) \<Rightarrow>
        Some (r, p, case b2 of None \<Rightarrow> [] | Some b \<Rightarrow> failures b))"

text \<open>
  The smallest area \<open>ns_mem_region_add\<close> accepts, three words, has room for one data word only, and
  the two words of the hole descriptor then reach over the closing delimiter. The heap is corrupted from
  then on: a request that the heap could serve before is refused and reported as corruption.
\<close>

theorem smallest_region_corrupts_heap:
  "add_then_alloc sample_book 200 12 8 = Some (0, NULL, [NS_DYN_MEM_HEAP_SECTOR_CORRUPTED]) \<and>
   map_option fst (ns_mem_alloc (Some sample_book) 8) = Some 36"
  by code_simp

end
