(* ===== verification/NvmHelper.thy ===== *)
theory NvmHelper
  imports DynMemSpec
begin

text \<open>
  The NVM helper, \<open>nvmHelper/ns_nvm_helper.c\<close>: requests to read, write or delete a key of the platform's
  non-volatile memory, one at a time, the others waiting in a list.

  A request is a block of the heap of \<open>nsdynmemLIB\<close>; its fields are kept by its address in \<open>requests\<close>, and
  its link by its place in \<open>ns_nvm_request_list\<close>. The platform is an argument of the model: which status it
  returns for a call, given the calls before it. So is the client: which calls it makes from its callback.
\<close>

section \<open>Types\<close>

datatype nvm_operation =
    NS_NVM_NONE | NS_NVM_INIT | NS_NVM_KEY_CREATE | NS_NVM_KEY_READ | NS_NVM_KEY_WRITE | NS_NVM_FLUSH
  | NS_NVM_KEY_DELETE

datatype platform_nvm_status = PLATFORM_NVM_OK | PLATFORM_NVM_KEY_NOT_FOUND | PLATFORM_NVM_ERROR

definition NS_NVM_OK :: int where "NS_NVM_OK = 0"

definition NS_NVM_DATA_NOT_FOUND :: int where "NS_NVM_DATA_NOT_FOUND = -1"

definition NS_NVM_ERROR :: int where "NS_NVM_ERROR = -2"

definition NS_NVM_MEMORY :: int where "NS_NVM_MEMORY = -3"

text \<open>\<open>original_request\<close> is set for the initialisation only.\<close>

record ns_nvm_request_t =
  callback :: addr
  client_key_name :: addr
  client_context :: addr
  operation :: nvm_operation
  buffer :: addr
  buffer_len :: addr
  original_request :: "addr option"

text \<open>Calls of the platform, with the request that is their context, and calls of the client.\<close>

datatype platform_call =
    Platform_init addr
  | Platform_key_create addr u16 addr
  | Platform_write addr addr addr addr
  | Platform_read addr addr addr addr
  | Platform_key_delete addr addr
  | Platform_flush addr

fun call_context :: "platform_call \<Rightarrow> addr" where
  "call_context (Platform_init r) = r"
| "call_context (Platform_key_create key len r) = r"
| "call_context (Platform_write key buf len r) = r"
| "call_context (Platform_read key buf len r) = r"
| "call_context (Platform_key_delete key r) = r"
| "call_context (Platform_flush r) = r"

datatype api_call =
    Key_delete addr addr addr
  | Data_read addr addr addr addr addr
  | Data_write addr addr addr addr addr

text \<open>
  The state: the statics of the module, the requests in memory, the heap, and what the outside has seen: the
  platform calls, those of them accepted and not yet called back, and the callbacks to the client as
  callback, status and context.
\<close>

record nvm =
  ns_nvm_initialized :: bool
  ns_nvm_operation_in_progress :: bool
  ns_nvm_request_list :: "addr list"
  requests :: "addr \<Rightarrow> ns_nvm_request_t option"
  default_book :: "ns_mem_book option"
  platform_calls :: "platform_call list"
  awaiting :: "addr list"
  client_calls :: "(addr \<times> int \<times> addr) list"
  accepted :: "(addr \<times> addr) list"

record nvm_env =
  platform :: "platform_call list \<Rightarrow> platform_call \<Rightarrow> platform_nvm_status"
  client :: "addr \<Rightarrow> int \<Rightarrow> addr \<Rightarrow> api_call list"
  client_len :: "addr \<Rightarrow> u16"

text \<open>
  What is not a normal end: an access to a request that is not allocated, a removal of an entry that is on
  no list, which writes through its poisoned link. \<open>None\<close> stands for a call that does not return.
\<close>

datatype nvm_fault = Dangling addr | Unlinked addr

type_synonym 'a outcome = "(nvm_fault + 'a) option"

definition finish :: "'a \<Rightarrow> 'a outcome" where
  "finish a = Some (Inr a)"

definition fault :: "nvm_fault \<Rightarrow> 'a outcome" where
  "fault f = Some (Inl f)"

definition andthen :: "'a outcome \<Rightarrow> ('a \<Rightarrow> 'b outcome) \<Rightarrow> 'b outcome" where
  "andthen a f = Option.bind a (case_sum (\<lambda>e. Some (Inl e)) f)"

lemma andthen_simps [simp]:
  "andthen (finish a) f = f a" "andthen (fault e) f = fault e" "andthen None f = None"
  "finish a = finish b \<longleftrightarrow> a = b"
  by (simp_all add: andthen_def finish_def fault_def)

lemma andthen_mono [partial_function_mono]:
  assumes "mono_option B" "\<And>y. mono_option (\<lambda>f. C y f)"
  shows "mono_option (\<lambda>f. andthen (B f) (\<lambda>y. C y f))"
  unfolding andthen_def
proof (rule bind_mono [OF assms(1)])
  fix z
  show "mono_option (\<lambda>f. case_sum (\<lambda>e. Some (Inl e)) (\<lambda>y. C y f) z)"
    by (cases z) (simp_all add: assms(2) option.const_mono)
qed

section \<open>The heap and the request list\<close>

text \<open>\<open>sizeof(ns_nvm_request_t)\<close>: seven words and the link.\<close>

definition REQUEST_SIZE :: u32 where
  "REQUEST_SIZE = 36"

definition request_at :: "nvm \<Rightarrow> addr \<Rightarrow> ns_nvm_request_t outcome" where
  "request_at st p = (case requests st p of None \<Rightarrow> fault (Dangling p) | Some r \<Rightarrow> finish r)"

definition set_request :: "nvm \<Rightarrow> addr \<Rightarrow> ns_nvm_request_t \<Rightarrow> nvm" where
  "set_request st p r = st\<lparr>requests := (requests st)(p := Some r)\<rparr>"

definition free_request :: "nvm \<Rightarrow> addr \<Rightarrow> nvm outcome" where
  "free_request st p =
     (case ns_dyn_mem_free (default_book st) p of
        None \<Rightarrow> None
      | Some book \<Rightarrow> finish (st\<lparr>default_book := book, requests := (requests st)(p := None)\<rparr>))"

text \<open>The link of an entry: on the list, its successor; removed, the poison value.\<close>

definition list_next :: "nvm \<Rightarrow> addr \<Rightarrow> addr outcome" where
  "list_next st e =
     (if e \<in> set (ns_nvm_request_list st) then
        finish (case tl (dropWhile (\<lambda>x. x \<noteq> e) (ns_nvm_request_list st)) of [] \<Rightarrow> NULL | y # _ \<Rightarrow> y)
      else if requests st e = None then fault (Dangling e)
      else finish NS_LIST_POISON)"

definition list_remove :: "nvm \<Rightarrow> addr \<Rightarrow> nvm outcome" where
  "list_remove st e =
     (if e \<in> set (ns_nvm_request_list st)
      then finish (st\<lparr>ns_nvm_request_list := remove1 e (ns_nvm_request_list st)\<rparr>)
      else if requests st e = None then fault (Dangling e)
      else fault (Unlinked e))"

definition list_first :: "nvm \<Rightarrow> addr" where
  "list_first st = (case ns_nvm_request_list st of [] \<Rightarrow> NULL | x # _ \<Rightarrow> x)"

definition call_platform :: "nvm_env \<Rightarrow> nvm \<Rightarrow> platform_call \<Rightarrow> platform_nvm_status \<times> nvm" where
  "call_platform env st c =
     (let status = platform env (platform_calls st) c;
          st = st\<lparr>platform_calls := platform_calls st @ [c]\<rparr>
      in (status, if status = PLATFORM_NVM_OK then st\<lparr>awaiting := awaiting st @ [call_context c]\<rparr> else st))"

section \<open>The functions\<close>

definition ns_nvm_create_request ::
    "nvm \<Rightarrow> addr \<Rightarrow> addr \<Rightarrow> addr \<Rightarrow> addr \<Rightarrow> addr \<Rightarrow> nvm_operation \<Rightarrow> (addr \<times> nvm) outcome" where
  "ns_nvm_create_request st callback_ptr context_ptr key_name buf buf_len op =
     (case ns_dyn_mem_temporary_alloc (default_book st) REQUEST_SIZE of
        None \<Rightarrow> None
      | Some (p, book) \<Rightarrow>
          let st = st\<lparr>default_book := book\<rparr>
          in if p = NULL then finish (NULL, st)
             else finish (p, set_request st p
                    \<lparr>callback = callback_ptr, client_key_name = key_name, client_context = context_ptr,
                     operation = op, buffer = buf, buffer_len = buf_len, original_request = None\<rparr>))"

definition ns_nvm_operation_continue :: "nvm_env \<Rightarrow> nvm \<Rightarrow> addr \<Rightarrow> bool \<Rightarrow> (int \<times> nvm) outcome" where
  "ns_nvm_operation_continue env st request free_it =
     andthen (request_at st request) (\<lambda>r.
       let st = st\<lparr>ns_nvm_operation_in_progress := True\<rparr>;
           (ret, st) =
             (case operation r of
                NS_NVM_KEY_WRITE \<Rightarrow>
                  let st = set_request st request (r\<lparr>operation := NS_NVM_KEY_CREATE\<rparr>)
                  in call_platform env st
                       (Platform_key_create (client_key_name r) (client_len env (buffer_len r)) request)
              | NS_NVM_KEY_READ \<Rightarrow>
                  call_platform env st (Platform_read (client_key_name r) (buffer r) (buffer_len r) request)
              | NS_NVM_KEY_DELETE \<Rightarrow> call_platform env st (Platform_key_delete (client_key_name r) request)
              | _ \<Rightarrow> (PLATFORM_NVM_OK, st))
       in if ret \<noteq> PLATFORM_NVM_OK then
            andthen (if free_it then free_request st request else finish st) (\<lambda>st.
              finish (NS_NVM_ERROR, st\<lparr>ns_nvm_operation_in_progress := False\<rparr>))
          else finish (NS_NVM_OK, st))"

definition ns_nvm_operation_start :: "nvm_env \<Rightarrow> nvm \<Rightarrow> addr \<Rightarrow> (int \<times> nvm) outcome" where
  "ns_nvm_operation_start env st nvm_request =
     (if nvm_request = NULL then finish (NS_NVM_MEMORY, st)
      else if ns_nvm_initialized st then
        if \<not> ns_nvm_operation_in_progress st then ns_nvm_operation_continue env st nvm_request True
        else finish (NS_NVM_OK, st\<lparr>ns_nvm_request_list := ns_nvm_request_list st @ [nvm_request]\<rparr>)
      else
        andthen (ns_nvm_create_request st NULL NULL NULL NULL NULL NS_NVM_INIT) (\<lambda>(p, st).
          if p = NULL then
            andthen (free_request st nvm_request) (\<lambda>st.
            andthen (free_request st p) (\<lambda>st.
              finish (NS_NVM_MEMORY, st)))
          else
            andthen (request_at st p) (\<lambda>r.
              let st = set_request st p (r\<lparr>original_request := Some nvm_request\<rparr>);
                  (pnvm_status, st) = call_platform env st (Platform_init p)
              in if pnvm_status \<noteq> PLATFORM_NVM_OK then
                   andthen (free_request st nvm_request) (\<lambda>st.
                   andthen (free_request st p) (\<lambda>st.
                     finish (NS_NVM_ERROR, st)))
                 else
                   finish (NS_NVM_OK, st\<lparr>ns_nvm_request_list := [], ns_nvm_initialized := True,
                                          ns_nvm_operation_in_progress := True\<rparr>))))"

definition ns_nvm_key_delete :: "nvm_env \<Rightarrow> nvm \<Rightarrow> addr \<Rightarrow> addr \<Rightarrow> addr \<Rightarrow> (int \<times> nvm) outcome" where
  "ns_nvm_key_delete env st callback_ptr key_name context_ptr =
     (if callback_ptr = NULL \<or> key_name = NULL then finish (NS_NVM_ERROR, st)
      else andthen (ns_nvm_create_request st callback_ptr context_ptr key_name NULL NULL NS_NVM_KEY_DELETE)
             (\<lambda>(p, st). ns_nvm_operation_start env st p))"

definition ns_nvm_data_read ::
    "nvm_env \<Rightarrow> nvm \<Rightarrow> addr \<Rightarrow> addr \<Rightarrow> addr \<Rightarrow> addr \<Rightarrow> addr \<Rightarrow> (int \<times> nvm) outcome" where
  "ns_nvm_data_read env st callback_ptr key_name buf buf_len context_ptr =
     (if callback_ptr = NULL \<or> key_name = NULL \<or> buf = NULL \<or> buf_len = NULL then finish (NS_NVM_ERROR, st)
      else andthen (ns_nvm_create_request st callback_ptr context_ptr key_name buf buf_len NS_NVM_KEY_READ)
             (\<lambda>(p, st). ns_nvm_operation_start env st p))"

definition ns_nvm_data_write ::
    "nvm_env \<Rightarrow> nvm \<Rightarrow> addr \<Rightarrow> addr \<Rightarrow> addr \<Rightarrow> addr \<Rightarrow> addr \<Rightarrow> (int \<times> nvm) outcome" where
  "ns_nvm_data_write env st callback_ptr key_name buf buf_len context_ptr =
     (if callback_ptr = NULL \<or> key_name = NULL \<or> buf = NULL \<or> buf_len = NULL then finish (NS_NVM_ERROR, st)
      else andthen (ns_nvm_create_request st callback_ptr context_ptr key_name buf buf_len NS_NVM_KEY_WRITE)
             (\<lambda>(p, st). ns_nvm_operation_start env st p))"

text \<open>A call of the client; the accepted ones are noted.\<close>

fun api_function :: "nvm_env \<Rightarrow> nvm \<Rightarrow> api_call \<Rightarrow> (int \<times> nvm) outcome" where
  "api_function env st (Key_delete cb key ctx) = ns_nvm_key_delete env st cb key ctx"
| "api_function env st (Data_read cb key buf len ctx) = ns_nvm_data_read env st cb key buf len ctx"
| "api_function env st (Data_write cb key buf len ctx) = ns_nvm_data_write env st cb key buf len ctx"

fun api_tag :: "api_call \<Rightarrow> addr \<times> addr" where
  "api_tag (Key_delete cb key ctx) = (cb, ctx)"
| "api_tag (Data_read cb key buf len ctx) = (cb, ctx)"
| "api_tag (Data_write cb key buf len ctx) = (cb, ctx)"

definition api :: "nvm_env \<Rightarrow> nvm \<Rightarrow> api_call \<Rightarrow> (int \<times> nvm) outcome" where
  "api env st c =
     andthen (api_function env st c) (\<lambda>(ret, st).
       finish (ret, if ret = NS_NVM_OK then st\<lparr>accepted := accepted st @ [api_tag c]\<rparr> else st))"

fun api_all :: "nvm_env \<Rightarrow> nvm \<Rightarrow> api_call list \<Rightarrow> nvm outcome" where
  "api_all env st [] = finish st"
| "api_all env st (c # cs) = andthen (api env st c) (\<lambda>(ret, st). api_all env st cs)"

text \<open>The head of \<open>ns_nvm_operation_end\<close>: the client's callback, in which the client may call back, and the release.\<close>

definition answer :: "nvm_env \<Rightarrow> nvm \<Rightarrow> addr \<Rightarrow> int \<Rightarrow> nvm outcome" where
  "answer env st request client_retval =
     andthen (request_at st request) (\<lambda>r.
       if callback r = NULL then fault (Dangling NULL)
       else
         let st = st\<lparr>client_calls := client_calls st @ [(callback r, client_retval, client_context r)]\<rparr>
         in andthen (api_all env st (client env (callback r) client_retval (client_context r))) (\<lambda>st.
            andthen (free_request st request) (\<lambda>st.
              finish (st\<lparr>ns_nvm_operation_in_progress := False\<rparr>))))"

text \<open>
  Its loop, \<open>ns_list_foreach_safe\<close> from the entry \<open>pending_req\<close> on. The call of \<open>ns_nvm_operation_end\<close> in its body
  is the answer followed by the loop from the head of the list; then the loop goes on with the entry that
  was the next one before the body.
\<close>

partial_function (option) pending_loop :: "nvm_env \<Rightarrow> nvm \<Rightarrow> addr \<Rightarrow> nvm outcome" where
  "pending_loop env st pending_req =
     (if pending_req = NULL then finish st
      else
        andthen (list_next st pending_req) (\<lambda>next_req.
        andthen (list_remove st pending_req) (\<lambda>st.
        andthen (ns_nvm_operation_continue env st pending_req False) (\<lambda>(ret, st).
          if ret \<noteq> NS_NVM_OK then
            andthen (answer env st pending_req ret) (\<lambda>st.
            andthen (pending_loop env st (list_first st)) (\<lambda>st.
              pending_loop env st next_req))
          else finish st))))"

declare pending_loop.simps [code]

definition ns_nvm_operation_end :: "nvm_env \<Rightarrow> nvm \<Rightarrow> addr \<Rightarrow> int \<Rightarrow> nvm outcome" where
  "ns_nvm_operation_end env st ns_nvm_request_ptr client_retval =
     andthen (answer env st ns_nvm_request_ptr client_retval) (\<lambda>st. pending_loop env st (list_first st))"

definition ns_nvm_callback_func :: "nvm_env \<Rightarrow> nvm \<Rightarrow> platform_nvm_status \<Rightarrow> addr \<Rightarrow> nvm outcome" where
  "ns_nvm_callback_func env st status args =
     andthen (request_at st args) (\<lambda>r.
       let client_retval = (if status = PLATFORM_NVM_ERROR then NS_NVM_ERROR
                            else if status = PLATFORM_NVM_KEY_NOT_FOUND then NS_NVM_DATA_NOT_FOUND
                            else NS_NVM_OK)
       in case operation r of
            NS_NVM_INIT \<Rightarrow>
              (case original_request r of
                 None \<Rightarrow> fault (Dangling args)
               | Some original \<Rightarrow>
                   andthen (ns_nvm_operation_continue env st original True) (\<lambda>(ret, st). free_request st args))
          | NS_NVM_FLUSH \<Rightarrow> ns_nvm_operation_end env st args client_retval
          | NS_NVM_KEY_READ \<Rightarrow> ns_nvm_operation_end env st args client_retval
          | NS_NVM_KEY_CREATE \<Rightarrow>
              if status = PLATFORM_NVM_OK then
                let st = set_request st args (r\<lparr>operation := NS_NVM_KEY_WRITE\<rparr>);
                    (_, st) = call_platform env st
                      (Platform_write (client_key_name r) (buffer r) (buffer_len r) args)
                in finish st
              else ns_nvm_operation_end env st args client_retval
          | NS_NVM_KEY_DELETE \<Rightarrow>
              if status = PLATFORM_NVM_OK then
                let st = set_request st args (r\<lparr>operation := NS_NVM_FLUSH\<rparr>);
                    (_, st) = call_platform env st (Platform_flush args)
                in finish st
              else ns_nvm_operation_end env st args client_retval
          | NS_NVM_KEY_WRITE \<Rightarrow>
              if status = PLATFORM_NVM_OK then
                let st = set_request st args (r\<lparr>operation := NS_NVM_FLUSH\<rparr>);
                    (_, st) = call_platform env st (Platform_flush args)
                in finish st
              else ns_nvm_operation_end env st args client_retval
          | NS_NVM_NONE \<Rightarrow> finish st)"

text \<open>The platform completes an operation it has accepted: it forgets it and calls back.\<close>

definition platform_completes :: "nvm_env \<Rightarrow> nvm \<Rightarrow> platform_nvm_status \<Rightarrow> addr \<Rightarrow> nvm outcome" where
  "platform_completes env st status r =
     ns_nvm_callback_func env (st\<lparr>awaiting := remove1 r (awaiting st)\<rparr>) status r"

end
