(* ===== verification/NvmServer.thy ===== *)
theory NvmServer
  imports NvmHelper "HOL-Library.Sublist"
begin

text \<open>
  What the NVM helper promises, without its requests, heap and list: a server with a queue of jobs. A job is a call
  of a client, named by callback and context, and the number of completions by the platform it takes at most. The
  first job is under way; a completion brings it forward or ends it, and new jobs go to the end of the queue.
\<close>

section \<open>The server\<close>

type_synonym job = "(addr \<times> addr) \<times> nat"

record server =
  jobs :: "job list"
  finished :: "(addr \<times> addr) list"

datatype server_event = Request | Completion

definition sized :: "nat \<Rightarrow> job list \<Rightarrow> bool" where
  "sized n js \<longleftrightarrow> (\<forall>j \<in> set js. 1 \<le> snd j \<and> snd j \<le> n)"

text \<open>
  A request is refused, or accepted as one more job; its first one initialises the platform as well. With the end of
  a job its client may have made further requests.
\<close>

inductive server_step :: "server \<Rightarrow> server_event \<Rightarrow> server \<Rightarrow> bool" where
  refused: "server_step s Request s"
| accepted: "sized 4 [j] \<Longrightarrow> server_step s Request (s\<lparr>jobs := jobs s @ [j]\<rparr>)"
| nothing: "jobs s = [] \<Longrightarrow> server_step s Completion s"
| progress: "jobs s = (t, Suc n) # js \<Longrightarrow> 1 \<le> n \<Longrightarrow> server_step s Completion (s\<lparr>jobs := (t, n) # js\<rparr>)"
| answered_job: "jobs s = (t, n) # js \<Longrightarrow> sized 3 new \<Longrightarrow>
    server_step s Completion \<lparr>jobs = js @ new, finished = finished s @ [t]\<rparr>"

inductive_cases request_step: "server_step s Request s'"

inductive_cases completion_step: "server_step s Completion s'"

inductive server_run :: "server \<Rightarrow> server_event list \<Rightarrow> server \<Rightarrow> bool" where
  run_nil: "server_run s [] s"
| run_cons: "server_step s e s' \<Longrightarrow> server_run s' es s'' \<Longrightarrow> server_run s (e # es) s''"

lemma server_run_one: "server_step s e s' \<Longrightarrow> server_run s [e] s'"
  using run_cons run_nil by blast

lemma server_run_append: "server_run s es s' \<Longrightarrow> server_run s' fs s'' \<Longrightarrow> server_run s (es @ fs) s''"
  by (induction rule: server_run.induct) (auto intro: run_cons)

inductive_cases run_elims: "server_run s [] s'" "server_run s (e # es) s'"

section \<open>Progress\<close>

text \<open>
  No job is passed by another one, and none waits for ever: when the platform has completed as often as the first
  jobs take together, they are finished in their order, whatever has been requested meanwhile.
\<close>

lemma server_step_finished: "server_step s e s' \<Longrightarrow> prefix (finished s) (finished s')"
  by (cases rule: server_step.cases) auto

lemma server_run_finished: "server_run s es s' \<Longrightarrow> prefix (finished s) (finished s')"
  by (induction rule: server_run.induct) (auto intro: prefix_order.trans server_step_finished)

lemma completion_progress:
  assumes "server_step s Completion s'" "jobs s = (t, n) # js @ ks"
  shows "(\<exists>m ks'. n = Suc m \<and> 1 \<le> m \<and> finished s' = finished s \<and> jobs s' = (t, m) # js @ ks') \<or>
    (\<exists>ks'. finished s' = finished s @ [t] \<and> jobs s' = js @ ks')"
  using assms by (auto elim!: completion_step)

lemma server_run_serves:
  assumes "server_run s es s'" "jobs s = js @ ks" "sum_list (map snd js) \<le> length (filter (\<lambda>e. e = Completion) es)"
    "\<forall>j \<in> set js. 1 \<le> snd j"
  shows "prefix (finished s @ map fst js) (finished s')"
  using assms
proof (induction es arbitrary: s js ks)
  case Nil
  then have "js = []" by (cases js) auto
  then show ?case using Nil.prems(1) by (auto elim: run_elims)
next
  case (Cons e es)
  obtain s1 where s1: "server_step s e s1" "server_run s1 es s'" using Cons.prems(1) by (auto elim: run_elims)
  show ?case
  proof (cases js)
    case Nil
    then show ?thesis using server_run_finished [OF Cons.prems(1)] by simp
  next
    case js: (Cons j js')
    obtain t n where j: "j = (t, n)" by (cases j)
    show ?thesis
    proof (cases e)
      case Request
      then obtain ks1 where "jobs s1 = js @ ks1" "finished s1 = finished s"
        using s1(1) Cons.prems(2) by (auto elim!: request_step)
      then show ?thesis using Cons.IH [OF s1(2), of js ks1] Cons.prems(3,4) Request by simp
    next
      case Completion
      have "server_step s Completion s1" "jobs s = (t, n) # js' @ ks"
        using s1(1) Completion Cons.prems(2) js j by simp_all
      from completion_progress [OF this] show ?thesis
      proof (elim disjE exE conjE)
        fix m ks1 assume m: "n = Suc m" "1 \<le> m" "finished s1 = finished s" "jobs s1 = (t, m) # js' @ ks1"
        then show ?thesis
          using Cons.IH [OF s1(2), of "(t, m) # js'" ks1] Cons.prems(3,4) js j Completion by simp
      next
        fix ks1 assume "finished s1 = finished s @ [t]" "jobs s1 = js' @ ks1"
        then show ?thesis
          using Cons.IH [OF s1(2), of js' ks1] Cons.prems(3,4) js j Completion by simp
      qed
    qed
  qed
qed

end
