(* ===== verification/NvmInv.thy ===== *)
theory NvmInv
  imports NvmServer DynMemSpec
begin

text \<open>
  The invariant of the NVM helper: idle, or one operation with the platform and the other requests waiting on
  the list, every request a block of the heap. Calls of the client keep it whatever the platform answers, the
  callbacks of the platform when it starts every operation it is asked for.
\<close>

section \<open>Runs\<close>

text \<open>
  A run is a sequence of client calls and of completions by the platform, of the \<open>i\<close>-th operation it has
  accepted and not completed.
\<close>

datatype nvm_event = Call api_call | Complete nat platform_nvm_status

fun nvm_event_step :: "nvm_env \<Rightarrow> nvm \<Rightarrow> nvm_event \<Rightarrow> nvm outcome" where
  "nvm_event_step env st (Call c) = andthen (api env st c) (\<lambda>(ret, st). finish st)"
| "nvm_event_step env st (Complete i status) =
     (if i < length (awaiting st) then platform_completes env st status (awaiting st ! i) else finish st)"

fun nvm_run :: "nvm_env \<Rightarrow> nvm \<Rightarrow> nvm_event list \<Rightarrow> nvm outcome" where
  "nvm_run env st [] = finish st"
| "nvm_run env st (e # es) = andthen (nvm_event_step env st e) (\<lambda>st. nvm_run env st es)"

definition nvm_start :: "ns_mem_book \<Rightarrow> nvm" where
  "nvm_start book = \<lparr>ns_nvm_initialized = False, ns_nvm_operation_in_progress = False, ns_nvm_request_list = [],
     requests = Map.empty, default_book = Some book, platform_calls = [], awaiting = [], client_calls = [],
     accepted = []\<rparr>"

text \<open>A platform that starts every operation it is asked for.\<close>

definition accepting :: "nvm_env \<Rightarrow> bool" where
  "accepting env \<longleftrightarrow> (\<forall>calls c. platform env calls c = PLATFORM_NVM_OK)"

section \<open>Requests and the heap\<close>

text \<open>The heap is well-formed and reports no fault; what is allocated is what others hold and the requests.\<close>

definition holds_requests :: "addr set \<Rightarrow> nvm \<Rightarrow> addr set \<Rightarrow> bool" where
  "holds_requests others st D \<longleftrightarrow> (\<exists>book R. default_book st = Some book \<and> heap_ok book R \<and> heap_faults book = [] \<and>
     dom (requests st) = D \<and> fst ` live_blocks R = others \<union> D \<and> others \<inter> D = {})"

lemma holds_requestsI:
  "default_book st = Some book \<Longrightarrow> heap_ok book R \<Longrightarrow> heap_faults book = [] \<Longrightarrow> dom (requests st) = D \<Longrightarrow>
     fst ` live_blocks R = others \<union> D \<Longrightarrow> others \<inter> D = {} \<Longrightarrow> holds_requests others st D"
  unfolding holds_requests_def by blast

lemma temporary_alloc_book:
  "ns_dyn_mem_temporary_alloc (Some book) n = map_option (\<lambda>(p, b). (p, Some b)) (book_alloc book (n, True))"
  by (simp add: ns_dyn_mem_temporary_alloc_def book_alloc_internal ns_mem_temporary_alloc_def
      ns_mem_internal_alloc_def)

definition new_request :: "addr \<Rightarrow> addr \<Rightarrow> addr \<Rightarrow> addr \<Rightarrow> addr \<Rightarrow> nvm_operation \<Rightarrow> ns_nvm_request_t" where
  "new_request cb ctx key buf len op = \<lparr>callback = cb, client_key_name = key, client_context = ctx,
     operation = op, buffer = buf, buffer_len = len, original_request = None\<rparr>"

lemma create_request_result:
  assumes h: "holds_requests others st D"
  obtains (full) book where "ns_nvm_create_request st cb ctx key buf len op = finish (NULL, st\<lparr>default_book := book\<rparr>)"
      "holds_requests others (st\<lparr>default_book := book\<rparr>) D"
  | (made) p book where "p \<noteq> NULL" "p \<notin> D"
      "ns_nvm_create_request st cb ctx key buf len op =
        finish (p, st\<lparr>default_book := book, requests := (requests st)(p \<mapsto> new_request cb ctx key buf len op)\<rparr>)"
      "holds_requests others (st\<lparr>default_book := book, requests := (requests st)(p \<mapsto> new_request cb ctx key buf len op)\<rparr>)
        (insert p D)"
proof -
  obtain book R where b: "default_book st = Some book" "heap_ok book R" "heap_faults book = []"
    "dom (requests st) = D" "fst ` live_blocks R = others \<union> D" "others \<inter> D = {}"
    using h by (auto simp: holds_requests_def)
  obtain p book' R' where a: "book_alloc book (REQUEST_SIZE, True) = Some (p, book')" "heap_ok book' R'"
    "heap_faults book' = heap_faults book"
    "p = NULL \<and> live_blocks R' = live_blocks R \<or>
     (\<exists>n. live_blocks R' = insert (p, n) (live_blocks R) \<and> (\<forall>k. (p, k) \<notin> live_blocks R))"
    using dyn.al_law [OF b(2), of "(REQUEST_SIZE, True)"] by blast
  have t: "ns_dyn_mem_temporary_alloc (default_book st) REQUEST_SIZE = Some (p, Some book')"
    by (simp add: b(1) temporary_alloc_book a(1))
  show thesis
  proof (cases "p = NULL")
    case True
    then have "live_blocks R' = live_blocks R"
      using a(2,4) dyn.live_block [OF a(2), of p] by (metis insertI1 less_irrefl)
    with a(2,3) b have "holds_requests others (st\<lparr>default_book := Some book'\<rparr>) D"
      by (intro holds_requestsI [of _ book' R']) simp_all
    with True t show thesis by (intro full [of "Some book'"]) (simp_all add: ns_nvm_create_request_def)
  next
    case False
    then obtain n where n: "live_blocks R' = insert (p, n) (live_blocks R)" "\<forall>k. (p, k) \<notin> live_blocks R"
      using a(4) by blast
    have p: "p \<notin> others \<union> D" unfolding b(5) [symmetric] using n(2) by force
    let ?st = "st\<lparr>default_book := Some book', requests := (requests st)(p \<mapsto> new_request cb ctx key buf len op)\<rparr>"
    have "holds_requests others ?st (insert p D)"
      using a(2,3) b n(1) p by (intro holds_requestsI [of _ book' R']) auto
    with False t p show thesis
      by (intro made [of p "Some book'"]) (simp_all add: ns_nvm_create_request_def set_request_def new_request_def)
  qed
qed

lemma free_request_result:
  assumes h: "holds_requests others st D" and p: "p \<in> D"
  obtains book where "free_request st p = finish (st\<lparr>default_book := book, requests := (requests st)(p := None)\<rparr>)"
    "holds_requests others (st\<lparr>default_book := book, requests := (requests st)(p := None)\<rparr>) (D - {p})"
proof -
  obtain book R where b: "default_book st = Some book" "heap_ok book R" "heap_faults book = []"
    "dom (requests st) = D" "fst ` live_blocks R = others \<union> D" "others \<inter> D = {}"
    using h by (auto simp: holds_requests_def)
  obtain n where n: "(p, n) \<in> live_blocks R" using p b(5) by force
  obtain book' R' where f: "ns_mem_free book p = Some book'" "heap_ok book' R'" "heap_faults book' = heap_faults book"
    "live_blocks R' = live_blocks R - {(p, n)}"
    using dyn.fr_law [OF b(2) n] by blast
  have "fst ` live_blocks R' = fst ` live_blocks R - {p}"
    unfolding f(4) by (rule image_fst_remove) (rule dyn.live_start_unique [OF b(2) _ n])
  with b f have "holds_requests others (st\<lparr>default_book := Some book', requests := (requests st)(p := None)\<rparr>) (D - {p})"
    using p by (intro holds_requestsI [of _ book' R']) auto
  moreover have "p \<noteq> NULL" using dyn.live_block [OF b(2) n] by auto
  ultimately show thesis
    using f(1) b(1) by (intro that [of "Some book'"]) (simp_all add: free_request_def ns_dyn_mem_free_def)
qed

lemma holds_requests_empty: "holds_requests others st {} \<Longrightarrow> requests st = Map.empty"
  by (auto simp: holds_requests_def)

lemma holds_requests_cong:
  "default_book st' = default_book st \<Longrightarrow> dom (requests st') = dom (requests st) \<Longrightarrow>
     holds_requests others st' D = holds_requests others st D"
  by (simp add: holds_requests_def)

section \<open>The request list in memory\<close>

text \<open>
  On a memory that holds the request list as an intrusive list, the functions of \<open>ns_list.h\<close> do what the model
  does on its list of addresses.
\<close>

lemma list_on_memory:
  assumes "ns_list_rep m l off (ns_nvm_request_list st)"
  shows "list_first st = ns_list_get_first m l"
    and "e \<in> set (ns_nvm_request_list st) \<Longrightarrow> list_next st e = finish (ns_list_get_next m off e)"
    and "e \<in> set (ns_nvm_request_list st) \<Longrightarrow>
      \<exists>st'. list_remove st e = finish st' \<and> ns_list_rep (ns_list_remove m l off e) l off (ns_nvm_request_list st')"
proof -
  show "list_first st = ns_list_get_first m l"
    using ns_list_get_first_rep [OF assms] by (simp add: list_first_def split: list.split)
next
  assume e: "e \<in> set (ns_nvm_request_list st)"
  obtain xs ys where xs: "ns_nvm_request_list st = xs @ e # ys" "e \<notin> set xs"
    using e by (meson split_list_first)
  have "dropWhile (\<lambda>x. x \<noteq> e) (xs @ e # ys) = e # ys" using xs(2) by (induction xs) auto
  then show "list_next st e = finish (ns_list_get_next m off e)"
    using ns_list_get_next_rep [of m l off xs e ys] assms xs(1) e by (simp add: list_next_def)
  show "\<exists>st'. list_remove st e = finish st' \<and> ns_list_rep (ns_list_remove m l off e) l off (ns_nvm_request_list st')"
    using ns_list_remove_rep [of m l off xs e ys] assms xs e by (simp add: list_remove_def remove1_append)
qed

section \<open>The invariant\<close>

definition startable :: "ns_nvm_request_t \<Rightarrow> bool" where
  "startable r \<longleftrightarrow> callback r \<noteq> NULL \<and> operation r \<in> {NS_NVM_KEY_READ, NS_NVM_KEY_WRITE, NS_NVM_KEY_DELETE}"

definition tag :: "nvm \<Rightarrow> addr \<Rightarrow> addr \<times> addr" where
  "tag st p = (callback (the (requests st p)), client_context (the (requests st p)))"

abbreviation answered :: "nvm \<Rightarrow> (addr \<times> addr) list" where
  "answered st \<equiv> map (\<lambda>(cb, ret, ctx). (cb, ctx)) (client_calls st)"

text \<open>
  The waiting requests: they are on the list, can be started, and are accepted last, after \<open>before\<close>. The
  requests of \<open>held\<close> are in hand.
\<close>

definition queue_ok :: "addr set \<Rightarrow> addr set \<Rightarrow> (addr \<times> addr) list \<Rightarrow> nvm \<Rightarrow> bool" where
  "queue_ok others held bef st \<longleftrightarrow>
     holds_requests others st (held \<union> set (ns_nvm_request_list st)) \<and> held \<inter> set (ns_nvm_request_list st) = {} \<and>
     distinct (ns_nvm_request_list st) \<and> NULL \<notin> set (ns_nvm_request_list st) \<and>
     (\<forall>p \<in> set (ns_nvm_request_list st). \<exists>r. requests st p = Some r \<and> startable r) \<and>
     accepted st = bef @ map (tag st) (ns_nvm_request_list st)"

text \<open>
  Idle before and after the initialisation; or busy: the platform has accepted one operation, that of the
  request \<open>cur\<close>, or the initialisation on its behalf.
\<close>

definition idle :: "addr set \<Rightarrow> nvm \<Rightarrow> bool" where
  "idle others st \<longleftrightarrow> \<not> ns_nvm_operation_in_progress st \<and> ns_nvm_request_list st = [] \<and> awaiting st = [] \<and>
     queue_ok others {} (answered st) st"

definition busy :: "addr set \<Rightarrow> addr \<Rightarrow> addr \<Rightarrow> nvm \<Rightarrow> bool" where
  "busy others a cur st \<longleftrightarrow> ns_nvm_initialized st \<and> ns_nvm_operation_in_progress st \<and> awaiting st = [a] \<and>
     queue_ok others {a, cur} (answered st @ [tag st cur]) st \<and> cur \<noteq> NULL \<and>
     (\<exists>r. requests st cur = Some r \<and> callback r \<noteq> NULL \<and>
       (if a = cur then operation r \<notin> {NS_NVM_NONE, NS_NVM_INIT}
        else startable r \<and> (\<exists>i. requests st a = Some i \<and> operation i = NS_NVM_INIT \<and> original_request i = Some cur)))"

definition nvm_inv :: "addr set \<Rightarrow> nvm \<Rightarrow> bool" where
  "nvm_inv others st \<longleftrightarrow> idle others st \<or> (\<exists>a cur. busy others a cur st)"

subsection \<open>Waiting requests\<close>

text \<open>What a call of the client leaves alone while an operation is in progress.\<close>

definition keeps :: "addr set \<Rightarrow> nvm \<Rightarrow> nvm \<Rightarrow> bool" where
  "keeps held st st' \<longleftrightarrow> ns_nvm_initialized st' = ns_nvm_initialized st \<and>
     ns_nvm_operation_in_progress st' = ns_nvm_operation_in_progress st \<and> awaiting st' = awaiting st \<and>
     client_calls st' = client_calls st \<and> platform_calls st' = platform_calls st \<and> (\<forall>h \<in> held. requests st' h = requests st h) \<and>
     (\<exists>new. ns_nvm_request_list st' = ns_nvm_request_list st @ new) \<and>
     (\<forall>x \<in> set (ns_nvm_request_list st). requests st' x = requests st x)"

lemma keeps_refl [simp]: "keeps held st st"
  by (simp add: keeps_def)

lemma keeps_trans: "keeps held st st' \<Longrightarrow> keeps held st' st'' \<Longrightarrow> keeps held st st''"
  by (auto simp: keeps_def)

lemma queue_ok_cong:
  assumes "queue_ok others held bef st" "ns_nvm_request_list st' = ns_nvm_request_list st"
    "default_book st' = default_book st" "requests st' = requests st" "accepted st' = accepted st"
  shows "queue_ok others held bef st'"
  using assms holds_requests_cong [of st' st others] by (simp add: queue_ok_def tag_def)

text \<open>
  The calls to the platform an operation takes: the first one, and those that follow the one made last, each
  after the completion of the one before. Together they are the protocol of a client call.
\<close>

definition started :: "ns_nvm_request_t \<Rightarrow> ns_nvm_request_t" where
  "started r = r\<lparr>operation := (if operation r = NS_NVM_KEY_WRITE then NS_NVM_KEY_CREATE else operation r)\<rparr>"

definition start_call :: "nvm_env \<Rightarrow> ns_nvm_request_t \<Rightarrow> addr \<Rightarrow> platform_call" where
  "start_call env r x =
     (if operation r = NS_NVM_KEY_WRITE then Platform_key_create (client_key_name r) (client_len env (buffer_len r)) x
      else if operation r = NS_NVM_KEY_READ then Platform_read (client_key_name r) (buffer r) (buffer_len r) x
      else Platform_key_delete (client_key_name r) x)"

definition later_calls :: "ns_nvm_request_t \<Rightarrow> addr \<Rightarrow> platform_call list" where
  "later_calls r x =
     (case operation r of
        NS_NVM_KEY_CREATE \<Rightarrow> [Platform_write (client_key_name r) (buffer r) (buffer_len r) x, Platform_flush x]
      | NS_NVM_KEY_WRITE \<Rightarrow> [Platform_flush x]
      | NS_NVM_KEY_DELETE \<Rightarrow> [Platform_flush x]
      | _ \<Rightarrow> [])"

fun protocol :: "nvm_env \<Rightarrow> api_call \<Rightarrow> addr \<Rightarrow> platform_call list" where
  "protocol env (Key_delete cb key ctx) x = [Platform_key_delete key x, Platform_flush x]"
| "protocol env (Data_read cb key buf len ctx) x = [Platform_read key buf len x]"
| "protocol env (Data_write cb key buf len ctx) x =
     [Platform_key_create key (client_len env len) x, Platform_write key buf len x, Platform_flush x]"

text \<open>
  The server a helper stands for: the requests as jobs, each with the completions it takes, one per call to the
  platform, and one more for the initialisation.
\<close>

definition work :: "ns_nvm_request_t \<Rightarrow> nat" where
  "work r = Suc (length (later_calls r NULL))"

definition waiting_job :: "nvm \<Rightarrow> addr \<Rightarrow> job" where
  "waiting_job st p = (tag st p, work (started (the (requests st p))))"

definition current_job :: "nvm \<Rightarrow> addr \<Rightarrow> job" where
  "current_job st a =
     (let r = the (requests st a)
      in if operation r = NS_NVM_INIT then
           let p = the (original_request r) in (tag st p, Suc (work (started (the (requests st p)))))
         else (tag st a, work r))"

definition server_of :: "nvm \<Rightarrow> server" where
  "server_of st = \<lparr>jobs = (case awaiting st of [] \<Rightarrow> []
       | a # _ \<Rightarrow> current_job st a # map (waiting_job st) (ns_nvm_request_list st)), finished = answered st\<rparr>"

lemma server_of_idle: "idle others st \<Longrightarrow> server_of st = \<lparr>jobs = [], finished = answered st\<rparr>"
  by (simp add: server_of_def idle_def)

lemma server_of_busy:
  "busy others a cur st \<Longrightarrow> requests st cur = Some r \<Longrightarrow>
     server_of st = \<lparr>jobs = (tag st cur, if a = cur then work r else Suc (work (started r))) #
       map (waiting_job st) (ns_nvm_request_list st), finished = answered st\<rparr>"
  by (auto simp: server_of_def busy_def current_job_def split: if_splits)

lemma work_startable: "startable r \<Longrightarrow> 1 \<le> work (started r) \<and> work (started r) \<le> 3"
  by (auto simp: work_def startable_def started_def later_calls_def)

lemma work_at_least: "1 \<le> work r"
  by (simp add: work_def)

lemma waiting_jobs_same:
  "\<forall>x \<in> set xs. requests st' x = requests st x \<Longrightarrow> map (waiting_job st') xs = map (waiting_job st) xs"
  by (simp add: waiting_job_def tag_def)

lemma waiting_jobs_sized:
  "queue_ok others held bef st \<Longrightarrow> set xs \<subseteq> set (ns_nvm_request_list st) \<Longrightarrow> sized 3 (map (waiting_job st) xs)"
  using work_startable by (fastforce simp: queue_ok_def sized_def waiting_job_def)

lemmas protocol_defs = startable_def new_request_def start_call_def later_calls_def started_def

text \<open>The three calls have one shape: check the arguments, create a request, start it.\<close>

lemma api_cases:
  obtains (bad) "api_function env st c = finish (NS_NVM_ERROR, st)"
  | (good) cb key ctx buf len op where
      "api_function env st c = andthen (ns_nvm_create_request st cb ctx key buf len op)
        (\<lambda>(p, st). ns_nvm_operation_start env st p)"
      "api_tag c = (cb, ctx)" "startable (new_request cb ctx key buf len op)"
      "\<And>x. protocol env c x = start_call env (new_request cb ctx key buf len op) x #
         later_calls (started (new_request cb ctx key buf len op)) x"
proof (cases c)
  case (Key_delete cb key ctx)
  then show thesis
    using bad good [of cb ctx key NULL NULL NS_NVM_KEY_DELETE]
    by (cases "cb = NULL \<or> key = NULL") (auto simp: ns_nvm_key_delete_def protocol_defs)
next
  case (Data_read cb key buf len ctx)
  then show thesis
    using bad good [of cb ctx key buf len NS_NVM_KEY_READ]
    by (cases "cb = NULL \<or> key = NULL \<or> buf = NULL \<or> len = NULL")
      (auto simp: ns_nvm_data_read_def protocol_defs)
next
  case (Data_write cb key buf len ctx)
  then show thesis
    using bad good [of cb ctx key buf len NS_NVM_KEY_WRITE]
    by (cases "cb = NULL \<or> key = NULL \<or> buf = NULL \<or> len = NULL")
      (auto simp: ns_nvm_data_write_def protocol_defs)
qed

lemma status_neq [simp]:
  "NS_NVM_ERROR \<noteq> NS_NVM_OK" "NS_NVM_MEMORY \<noteq> NS_NVM_OK" "NS_NVM_OK \<noteq> NS_NVM_ERROR"
  by (simp_all add: NS_NVM_OK_def NS_NVM_ERROR_def NS_NVM_MEMORY_def)

text \<open>A new request in the book of requests: the tags of the others stay.\<close>

lemma queue_ok_heap:
  "queue_ok others held bef st \<Longrightarrow> holds_requests others (st\<lparr>default_book := book\<rparr>) (held \<union> set (ns_nvm_request_list st)) \<Longrightarrow>
     queue_ok others held bef (st\<lparr>default_book := book\<rparr>)"
  by (simp add: queue_ok_def tag_def)

lemma map_tag_new:
  "p \<notin> set xs \<Longrightarrow> map (tag (st\<lparr>default_book := book, requests := (requests st)(p \<mapsto> r)\<rparr>)) xs = map (tag st) xs"
  by (induction xs) (simp_all add: tag_def)

lemma api_enqueues:
  assumes q: "queue_ok others held bef st" and b: "ns_nvm_initialized st" "ns_nvm_operation_in_progress st"
  shows "\<exists>ret st'. api env st c = finish (ret, st') \<and> queue_ok others held bef st' \<and> keeps held st st' \<and>
    length (ns_nvm_request_list st') \<le> Suc (length (ns_nvm_request_list st))"
proof (cases rule: api_cases [of env st c])
  case bad
  then show ?thesis using q by (simp add: api_def)
next
  case (good cb key ctx buf len op)
  have h: "holds_requests others st (held \<union> set (ns_nvm_request_list st))" using q by (simp add: queue_ok_def)
  show ?thesis
  proof (cases rule: create_request_result [OF h, of cb ctx key buf len op])
    case (1 book)
    then show ?thesis
      using queue_ok_heap [OF q 1(2)] good by (simp add: api_def ns_nvm_operation_start_def keeps_def)
  next
    case (2 p book)
    let ?st = "st\<lparr>default_book := book, requests := (requests st)(p \<mapsto> new_request cb ctx key buf len op)\<rparr>"
    let ?st' = "?st\<lparr>ns_nvm_request_list := ns_nvm_request_list st @ [p], accepted := accepted st @ [(cb, ctx)]\<rparr>"
    have p: "p \<notin> held" "p \<notin> set (ns_nvm_request_list st)" using 2(2) by auto
    have "holds_requests others ?st' (held \<union> set (ns_nvm_request_list ?st'))"
      using 2(4) holds_requests_cong [of ?st' ?st others] by simp
    moreover have "accepted ?st' = bef @ map (tag ?st') (ns_nvm_request_list ?st')"
      using q map_tag_new [where st = st and book = book and r = "new_request cb ctx key buf len op", OF p(2)]
      by (simp add: queue_ok_def tag_def new_request_def)
    moreover have "\<forall>x \<in> set (ns_nvm_request_list ?st'). \<exists>r. requests ?st' x = Some r \<and> startable r"
      using q good(3) by (auto simp: queue_ok_def)
    ultimately have "queue_ok others held bef ?st'"
      using q p 2(1) unfolding queue_ok_def by simp
    moreover have "keeps held st ?st'" using p by (auto simp: keeps_def)
    moreover have "api env st c = finish (NS_NVM_OK, ?st')"
      using 2 good b by (simp add: api_def ns_nvm_operation_start_def)
    moreover have "length (ns_nvm_request_list ?st') \<le> Suc (length (ns_nvm_request_list st))" by simp
    ultimately show ?thesis by blast
  qed
qed

lemma api_all_enqueues:
  assumes "queue_ok others held bef st" "ns_nvm_initialized st" "ns_nvm_operation_in_progress st"
  shows "\<exists>st'. api_all env st cs = finish st' \<and> queue_ok others held bef st' \<and> keeps held st st'"
  using assms
proof (induction cs arbitrary: st)
  case Nil
  then show ?case by simp
next
  case (Cons c cs)
  obtain ret st1 where s1: "api env st c = finish (ret, st1)" "queue_ok others held bef st1" "keeps held st st1"
    using api_enqueues [OF Cons.prems] by blast
  then have "ns_nvm_initialized st1" "ns_nvm_operation_in_progress st1" using Cons.prems by (auto simp: keeps_def)
  from Cons.IH [OF s1(2) this] s1 show ?case by (auto intro: keeps_trans)
qed

subsection \<open>The end of an operation\<close>

lemma answer_result:
  assumes q: "queue_ok others {cur} (answered st @ [tag st cur]) st"
    and b: "ns_nvm_initialized st" "ns_nvm_operation_in_progress st"
    and r: "requests st cur = Some r" "callback r \<noteq> NULL"
  shows "\<exists>st'. answer env st cur ret = finish st' \<and> ns_nvm_initialized st' \<and> \<not> ns_nvm_operation_in_progress st' \<and>
    awaiting st' = awaiting st \<and> queue_ok others {} (answered st') st' \<and> answered st' = answered st @ [tag st cur] \<and>
    (\<exists>new. ns_nvm_request_list st' = ns_nvm_request_list st @ new) \<and>
    (\<forall>x \<in> set (ns_nvm_request_list st). requests st' x = requests st x)"
proof -
  let ?st1 = "st\<lparr>client_calls := client_calls st @ [(callback r, ret, client_context r)]\<rparr>"
  have a1: "answered ?st1 = answered st @ [tag st cur]" using r by (simp add: tag_def)
  have "queue_ok others {cur} (answered ?st1) ?st1"
    unfolding a1 by (rule queue_ok_cong [OF q]) simp_all
  then obtain st2 where s2: "api_all env ?st1 (client env (callback r) ret (client_context r)) = finish st2"
    "queue_ok others {cur} (answered ?st1) st2" "keeps {cur} ?st1 st2"
    using api_all_enqueues [of others "{cur}" "answered ?st1" ?st1] b by auto
  have k: "answered st2 = answered ?st1" "ns_nvm_initialized st2" "awaiting st2 = awaiting st"
    using s2(3) b by (simp_all add: keeps_def)
  have h: "holds_requests others st2 ({cur} \<union> set (ns_nvm_request_list st2))" using s2(2) by (simp add: queue_ok_def)
  obtain book where f: "free_request st2 cur = finish (st2\<lparr>default_book := book, requests := (requests st2)(cur := None)\<rparr>)"
    "holds_requests others (st2\<lparr>default_book := book, requests := (requests st2)(cur := None)\<rparr>)
      ({cur} \<union> set (ns_nvm_request_list st2) - {cur})"
    using free_request_result [OF h, of cur] by blast
  let ?st3 = "st2\<lparr>default_book := book, requests := (requests st2)(cur := None), ns_nvm_operation_in_progress := False\<rparr>"
  have c: "cur \<notin> set (ns_nvm_request_list st2)" using s2(2) by (simp add: queue_ok_def)
  have "map (tag ?st3) (ns_nvm_request_list st2) = map (tag st2) (ns_nvm_request_list st2)"
    using c by (auto simp: tag_def)
  moreover have "holds_requests others ?st3 (set (ns_nvm_request_list st2))"
    using f(2) c holds_requests_cong [of ?st3 "st2\<lparr>default_book := book, requests := (requests st2)(cur := None)\<rparr>" others]
    by simp
  ultimately have "queue_ok others {} (answered ?st3) ?st3"
    using s2(2) c k(1) unfolding queue_ok_def by auto
  moreover have "answer env st cur ret = finish ?st3"
    using r s2(1) f(1) by (simp add: answer_def request_at_def)
  moreover have "\<exists>new. ns_nvm_request_list ?st3 = ns_nvm_request_list st @ new"
    "\<forall>x \<in> set (ns_nvm_request_list st). requests ?st3 x = requests st x"
    using s2(3) c by (auto simp: keeps_def)
  ultimately show ?thesis using k a1 by (intro exI [of _ ?st3]) simp
qed

lemma set_same_requests: "st\<lparr>ns_nvm_operation_in_progress := b, requests := requests st, platform_calls := pc\<rparr> =
    st\<lparr>ns_nvm_operation_in_progress := b, platform_calls := pc\<rparr>"
  by (cases st) simp

lemma continue_result:
  assumes r: "requests st x = Some r" "startable r"
    and st1: "st1 = st\<lparr>ns_nvm_operation_in_progress := True, requests := (requests st)(x \<mapsto> started r),
       platform_calls := platform_calls st @ [start_call env r x]\<rparr>"
  shows "ns_nvm_operation_continue env st x free_it =
    (if platform env (platform_calls st) (start_call env r x) = PLATFORM_NVM_OK
     then finish (NS_NVM_OK, st1\<lparr>awaiting := awaiting st @ [x]\<rparr>)
     else andthen (if free_it then free_request st1 x else finish st1)
            (\<lambda>st. finish (NS_NVM_ERROR, st\<lparr>ns_nvm_operation_in_progress := False\<rparr>)))"
proof (cases "operation r = NS_NVM_KEY_WRITE")
  case True
  then show ?thesis
    using r by (simp add: ns_nvm_operation_continue_def request_at_def call_platform_def set_request_def
        started_def start_call_def Let_def st1)
next
  case False
  then have "(requests st)(x \<mapsto> started r) = requests st" using r(1) by (simp add: started_def fun_upd_idem)
  then have "st1 = st\<lparr>ns_nvm_operation_in_progress := True, platform_calls := platform_calls st @ [start_call env r x]\<rparr>"
    by (simp only: st1 set_same_requests)
  then show ?thesis
    using False r by (auto simp: ns_nvm_operation_continue_def request_at_def startable_def call_platform_def
        start_call_def Let_def)
qed

lemma continue_accepted:
  assumes "platform env (platform_calls st) (start_call env r x) = PLATFORM_NVM_OK" "requests st x = Some r" "startable r"
  shows "ns_nvm_operation_continue env st x free_it = finish (NS_NVM_OK,
    st\<lparr>ns_nvm_operation_in_progress := True, requests := (requests st)(x \<mapsto> started r),
       platform_calls := platform_calls st @ [start_call env r x], awaiting := awaiting st @ [x]\<rparr>)"
  using continue_result [OF assms(2,3) refl] assms(1) by simp

lemma busy_started:
  assumes q: "queue_ok others {x} (answered st @ [tag st x]) st" and i: "ns_nvm_initialized st"
    and aw: "awaiting st = []" and r: "requests st x = Some r" "startable r" "x \<noteq> NULL"
  shows "busy others x x (st\<lparr>ns_nvm_operation_in_progress := True, requests := (requests st)(x \<mapsto> started r),
       platform_calls := pc, awaiting := [x]\<rparr>)" (is "busy others x x ?st")
proof -
  have t: "tag ?st = tag st" using r by (auto simp: tag_def started_def fun_eq_iff)
  have x: "x \<notin> set (ns_nvm_request_list st)" using q by (simp add: queue_ok_def)
  have "holds_requests others ?st ({x} \<union> set (ns_nvm_request_list st))"
    using q r holds_requests_cong [of ?st st others] by (auto simp: queue_ok_def insert_absorb domI)
  then have "queue_ok others {x} (answered st @ [tag st x]) ?st"
    using q x t unfolding queue_ok_def by auto
  moreover have "callback (started r) \<noteq> NULL" "operation (started r) \<notin> {NS_NVM_NONE, NS_NVM_INIT}"
    using r(2) by (auto simp: startable_def started_def)
  ultimately show ?thesis using i r t by (simp add: busy_def)
qed

lemma start_next:
  assumes acc: "accepting env" and i: "ns_nvm_initialized st" "\<not> ns_nvm_operation_in_progress st" "awaiting st = []"
    and q: "queue_ok others {} (answered st) st"
  shows "\<exists>st'. pending_loop env st (list_first st) = finish st' \<and> nvm_inv others st' \<and>
    server_of st' = \<lparr>jobs = map (waiting_job st) (ns_nvm_request_list st), finished = answered st\<rparr>"
proof (cases "ns_nvm_request_list st")
  case Nil
  then have "idle others st" using i q by (simp add: idle_def)
  then show ?thesis
    using Nil server_of_idle [of others st] by (subst pending_loop.simps) (simp add: list_first_def nvm_inv_def)
next
  case (Cons x xs)
  let ?st1 = "st\<lparr>ns_nvm_request_list := xs\<rparr>"
  obtain r where r: "requests st x = Some r" "startable r" "x \<noteq> NULL" "x \<notin> set xs"
    using q Cons by (auto simp: queue_ok_def)
  have "tag ?st1 = tag st" by (auto simp: tag_def)
  moreover have "holds_requests others ?st1 ({x} \<union> set xs)"
    using q Cons holds_requests_cong [of ?st1 st others] by (simp add: queue_ok_def)
  ultimately have q1: "queue_ok others {x} (answered ?st1 @ [tag ?st1 x]) ?st1"
    using q Cons unfolding queue_ok_def by auto
  let ?call = "start_call env r x"
  have c: "ns_nvm_operation_continue env ?st1 x False = finish (NS_NVM_OK,
      ?st1\<lparr>ns_nvm_operation_in_progress := True, requests := (requests ?st1)(x \<mapsto> started r),
       platform_calls := platform_calls ?st1 @ [?call], awaiting := awaiting ?st1 @ [x]\<rparr>)"
    by (rule continue_accepted) (use r acc in \<open>simp_all add: accepting_def\<close>)
  have "pending_loop env st (list_first st) = finish
      (?st1\<lparr>ns_nvm_operation_in_progress := True, requests := (requests ?st1)(x \<mapsto> started r),
       platform_calls := platform_calls ?st1 @ [?call], awaiting := awaiting ?st1 @ [x]\<rparr>)"
    using Cons r c
    by (subst pending_loop.simps) (simp add: list_first_def list_next_def list_remove_def)
  moreover have b: "busy others x x (?st1\<lparr>ns_nvm_operation_in_progress := True, requests := (requests ?st1)(x \<mapsto> started r),
       platform_calls := platform_calls ?st1 @ [?call], awaiting := [x]\<rparr>)" (is "busy others x x ?st2")
    by (rule busy_started [OF q1]) (use i r in simp_all)
  moreover have "server_of ?st2 = \<lparr>jobs = map (waiting_job st) (ns_nvm_request_list st), finished = answered st\<rparr>"
  proof -
    have "map (waiting_job ?st2) xs = map (waiting_job st) xs" using r(4) by (intro waiting_jobs_same) auto
    moreover have "(tag ?st2 x, work (started r)) = waiting_job st x"
      using r(1) by (simp add: waiting_job_def tag_def started_def)
    ultimately show ?thesis using server_of_busy [OF b, of "started r"] Cons by simp
  qed
  ultimately show ?thesis using i by (auto simp: nvm_inv_def)
qed

lemma operation_end_inv:
  assumes "accepting env" "queue_ok others {cur} (answered st @ [tag st cur]) st"
    "ns_nvm_initialized st" "ns_nvm_operation_in_progress st" "awaiting st = []"
    "requests st cur = Some r" "callback r \<noteq> NULL"
  shows "\<exists>st' new. ns_nvm_operation_end env st cur ret = finish st' \<and> nvm_inv others st' \<and> sized 3 new \<and>
    server_of st' = \<lparr>jobs = map (waiting_job st) (ns_nvm_request_list st) @ new, finished = answered st @ [tag st cur]\<rparr>"
proof -
  obtain st1 new where a: "answer env st cur ret = finish st1" "ns_nvm_initialized st1" "\<not> ns_nvm_operation_in_progress st1"
    "awaiting st1 = []" "queue_ok others {} (answered st1) st1" "answered st1 = answered st @ [tag st cur]"
    "ns_nvm_request_list st1 = ns_nvm_request_list st @ new"
    "\<forall>x \<in> set (ns_nvm_request_list st). requests st1 x = requests st x"
    using answer_result [OF assms(2-4,6,7), of env ret] unfolding assms(5) by blast
  obtain st' where p: "pending_loop env st1 (list_first st1) = finish st'" "nvm_inv others st'"
    "server_of st' = \<lparr>jobs = map (waiting_job st1) (ns_nvm_request_list st1), finished = answered st1\<rparr>"
    using start_next [OF assms(1) a(2-5)] by blast
  have "server_of st' = \<lparr>jobs = map (waiting_job st) (ns_nvm_request_list st) @ map (waiting_job st1) new,
      finished = answered st @ [tag st cur]\<rparr>"
    unfolding p(3) a(6,7) using waiting_jobs_same [OF a(8)] by simp
  moreover have "sized 3 (map (waiting_job st1) new)" by (rule waiting_jobs_sized [OF a(5)]) (simp add: a(7))
  moreover have "ns_nvm_operation_end env st cur ret = finish st'" using a(1) p(1) by (simp add: ns_nvm_operation_end_def)
  ultimately show ?thesis using p(2) by blast
qed

subsection \<open>The callback of the platform\<close>

lemma call_accepted:
  "accepting env \<Longrightarrow> call_platform env st c =
     (PLATFORM_NVM_OK, st\<lparr>platform_calls := platform_calls st @ [c], awaiting := awaiting st @ [call_context c]\<rparr>)"
  by (simp add: call_platform_def accepting_def)

text \<open>The request in hand goes to its next stage.\<close>

lemma queue_ok_stage:
  assumes q: "queue_ok others {cur} (answered st @ [tag st cur]) st"
    and r: "requests st cur = Some r" "callback r' = callback r" "client_context r' = client_context r"
    and st': "st' = st\<lparr>requests := (requests st)(cur \<mapsto> r'), platform_calls := pc, awaiting := aw\<rparr>"
  shows "queue_ok others {cur} (answered st' @ [tag st' cur]) st'"
proof -
  have t: "tag st' = tag st" using r by (auto simp: tag_def st' fun_eq_iff)
  have "holds_requests others st' ({cur} \<union> set (ns_nvm_request_list st))"
    using q r holds_requests_cong [of st' st others] by (auto simp: queue_ok_def st' insert_absorb domI)
  then show ?thesis using q t unfolding queue_ok_def by (auto simp: st')
qed

lemma next_stage_busy:
  assumes acc: "accepting env" and q: "queue_ok others {cur} (answered st @ [tag st cur]) st" "awaiting st = []"
    and i: "ns_nvm_initialized st" "ns_nvm_operation_in_progress st" "cur \<noteq> NULL"
    and r: "requests st cur = Some r" "callback r \<noteq> NULL" and op: "op \<notin> {NS_NVM_NONE, NS_NVM_INIT}" "call_context c = cur"
  shows "busy others cur cur (snd (call_platform env (set_request st cur (r\<lparr>operation := op\<rparr>)) c))"
proof -
  let ?st = "st\<lparr>requests := (requests st)(cur \<mapsto> r\<lparr>operation := op\<rparr>), platform_calls := platform_calls st @ [c], awaiting := [cur]\<rparr>"
  have "queue_ok others {cur} (answered ?st @ [tag ?st cur]) ?st"
    by (rule queue_ok_stage [OF q(1) r(1)]) simp_all
  then have "busy others cur cur ?st" using i r op by (simp add: busy_def)
  moreover have "snd (call_platform env (set_request st cur (r\<lparr>operation := op\<rparr>)) c) = ?st"
    using op(2) q(2) by (simp add: call_accepted [OF acc] set_request_def)
  ultimately show ?thesis by simp
qed

text \<open>After the initialisation the original request is started and the request of the initialisation released.\<close>

lemma init_done_inv:
  assumes acc: "accepting env" and b: "busy others a cur st" and ne: "a \<noteq> cur"
  shows "\<exists>st'. platform_completes env st status a = finish st' \<and> nvm_inv others st' \<and>
    server_step (server_of st) Completion (server_of st')"
proof -
  let ?st0 = "st\<lparr>awaiting := []\<rparr>"
  obtain r i where r: "requests st cur = Some r" "startable r" "requests st a = Some i" "operation i = NS_NVM_INIT"
    "original_request i = Some cur" "cur \<noteq> NULL" "awaiting st = [a]" "ns_nvm_initialized st"
    using b ne by (auto simp: busy_def)
  have q: "queue_ok others {a, cur} (answered st @ [tag st cur]) st" using b by (simp add: busy_def)
  have q0: "queue_ok others {a, cur} (answered st @ [tag st cur]) ?st0" by (rule queue_ok_cong [OF q]) simp_all
  have c: "ns_nvm_operation_continue env ?st0 cur True = finish (NS_NVM_OK,
      ?st0\<lparr>ns_nvm_operation_in_progress := True, requests := (requests ?st0)(cur \<mapsto> started r),
       platform_calls := platform_calls ?st0 @ [start_call env r cur], awaiting := awaiting ?st0 @ [cur]\<rparr>)"
    (is "_ = finish (_, ?st1)")
    by (rule continue_accepted) (use r acc in \<open>simp_all add: accepting_def\<close>)
  have "dom (requests ?st1) = dom (requests st)" using r by (auto simp: insert_absorb domI)
  then have "holds_requests others ?st1 ({a, cur} \<union> set (ns_nvm_request_list st))"
    using q holds_requests_cong [of ?st1 st others] by (simp add: queue_ok_def)
  then obtain book where f: "free_request ?st1 a = finish (?st1\<lparr>default_book := book, requests := (requests ?st1)(a := None)\<rparr>)"
    "holds_requests others (?st1\<lparr>default_book := book, requests := (requests ?st1)(a := None)\<rparr>)
      ({a, cur} \<union> set (ns_nvm_request_list st) - {a})"
    using free_request_result [of others ?st1 "{a, cur} \<union> set (ns_nvm_request_list st)" a] by blast
  let ?st2 = "?st1\<lparr>default_book := book, requests := (requests ?st1)(a := None)\<rparr>"
  have d: "a \<notin> set (ns_nvm_request_list st)" "cur \<notin> set (ns_nvm_request_list st)" using q by (auto simp: queue_ok_def)
  have t: "map (tag ?st2) (ns_nvm_request_list st) = map (tag st) (ns_nvm_request_list st)" "tag ?st2 cur = tag st cur"
    using d ne r by (auto simp: tag_def started_def)
  have h: "holds_requests others ?st2 ({cur} \<union> set (ns_nvm_request_list st))"
    using f(2) d ne by (simp add: insert_Diff_if)
  have "queue_ok others {cur} (answered ?st2 @ [tag ?st2 cur]) ?st2"
    using q d h t unfolding queue_ok_def by auto
  moreover have "callback (started r) \<noteq> NULL" "operation (started r) \<notin> {NS_NVM_NONE, NS_NVM_INIT}"
    using r(2) by (auto simp: startable_def started_def)
  ultimately have b2: "busy others cur cur ?st2"
    using r ne by (simp add: busy_def)
  moreover have "platform_completes env st status a = finish ?st2"
    using r c f(1) by (simp add: platform_completes_def ns_nvm_callback_func_def request_at_def)
  moreover have "server_step (server_of st) Completion (server_of ?st2)"
  proof -
    have "map (waiting_job ?st2) (ns_nvm_request_list st) = map (waiting_job st) (ns_nvm_request_list st)"
      using d by (intro waiting_jobs_same) auto
    then have "server_of ?st2 = server_of st\<lparr>jobs := (tag st cur, work (started r)) #
        map (waiting_job st) (ns_nvm_request_list st)\<rparr>"
      using server_of_busy [OF b2, of "started r"] server_of_busy [OF b r(1)] ne t(2) by simp
    moreover have "jobs (server_of st) = (tag st cur, Suc (work (started r))) # map (waiting_job st) (ns_nvm_request_list st)"
      using server_of_busy [OF b r(1)] ne by simp
    ultimately show ?thesis using work_at_least by (simp add: server_step.progress)
  qed
  ultimately show ?thesis by (auto simp: nvm_inv_def)
qed

lemma next_stage_step:
  assumes acc: "accepting env" and b: "busy others cur cur st" and r: "requests st cur = Some r"
    and st': "busy others cur cur st'" "st' = snd (call_platform env (set_request (st\<lparr>awaiting := []\<rparr>) cur (r\<lparr>operation := op\<rparr>)) c)"
    and w: "work r = Suc (work (r\<lparr>operation := op\<rparr>))"
  shows "server_step (server_of st) Completion (server_of st')"
proof -
  have c: "cur \<notin> set (ns_nvm_request_list st)" using b by (auto simp: busy_def queue_ok_def)
  have e: "requests st' = (requests st)(cur \<mapsto> r\<lparr>operation := op\<rparr>)" "ns_nvm_request_list st' = ns_nvm_request_list st"
    "client_calls st' = client_calls st"
    by (simp_all add: st'(2) call_accepted [OF acc] set_request_def)
  have "map (waiting_job st') (ns_nvm_request_list st) = map (waiting_job st) (ns_nvm_request_list st)"
    using c by (intro waiting_jobs_same) (auto simp: e(1))
  moreover have "tag st' cur = tag st cur" using r by (simp add: tag_def e(1))
  ultimately have "server_of st' = server_of st\<lparr>jobs := (tag st cur, work (r\<lparr>operation := op\<rparr>)) #
      map (waiting_job st) (ns_nvm_request_list st)\<rparr>"
    using server_of_busy [OF st'(1), of "r\<lparr>operation := op\<rparr>"] server_of_busy [OF b r] e by simp
  moreover have "jobs (server_of st) = (tag st cur, Suc (work (r\<lparr>operation := op\<rparr>))) # map (waiting_job st) (ns_nvm_request_list st)"
    using server_of_busy [OF b r] w by simp
  ultimately show ?thesis using work_at_least by (simp add: server_step.progress)
qed

lemma callback_inv:
  assumes acc: "accepting env" and b: "busy others cur cur st"
  shows "\<exists>st'. platform_completes env st status cur = finish st' \<and> nvm_inv others st' \<and>
    server_step (server_of st) Completion (server_of st')"
proof -
  let ?st0 = "st\<lparr>awaiting := []\<rparr>"
  obtain r where r: "requests st cur = Some r" "callback r \<noteq> NULL" "operation r \<notin> {NS_NVM_NONE, NS_NVM_INIT}"
    "cur \<noteq> NULL" "awaiting st = [cur]" "ns_nvm_initialized st" "ns_nvm_operation_in_progress st"
    using b by (auto simp: busy_def)
  have "queue_ok others {cur} (answered st @ [tag st cur]) st" using b by (simp add: busy_def)
  then have q: "queue_ok others {cur} (answered ?st0 @ [tag ?st0 cur]) ?st0"
    using queue_ok_cong [of others "{cur}" "answered st @ [tag st cur]" st ?st0] by (simp add: tag_def)
  have e: "\<exists>st'. ns_nvm_operation_end env ?st0 cur ret = finish st' \<and> nvm_inv others st' \<and>
      server_step (server_of st) Completion (server_of st')" for ret
  proof -
    obtain st' new where o: "ns_nvm_operation_end env ?st0 cur ret = finish st'" "nvm_inv others st'" "sized 3 new"
      "server_of st' = \<lparr>jobs = map (waiting_job ?st0) (ns_nvm_request_list ?st0) @ new, finished = answered ?st0 @ [tag ?st0 cur]\<rparr>"
      using operation_end_inv [OF acc q, of r ret] r by auto
    have "map (waiting_job ?st0) (ns_nvm_request_list st) = map (waiting_job st) (ns_nvm_request_list st)"
      by (intro waiting_jobs_same) simp
    then have "server_of st' = \<lparr>jobs = map (waiting_job st) (ns_nvm_request_list st) @ new,
        finished = finished (server_of st) @ [tag st cur]\<rparr>"
      using o(4) server_of_busy [OF b r(1)] by (simp add: tag_def)
    moreover have "jobs (server_of st) = (tag st cur, work r) # map (waiting_job st) (ns_nvm_request_list st)"
      using server_of_busy [OF b r(1)] by simp
    ultimately have "server_step (server_of st) Completion (server_of st')"
      using server_step.answered_job [OF _ o(3)] by simp
    with o(1,2) show ?thesis by blast
  qed
  have n: "\<exists>st'. (let (_, st') = call_platform env (set_request ?st0 cur (r\<lparr>operation := op\<rparr>)) c in finish st') = finish st' \<and>
      nvm_inv others st' \<and> server_step (server_of st) Completion (server_of st')"
    if op: "op \<notin> {NS_NVM_NONE, NS_NVM_INIT}" "call_context c = cur" "work r = Suc (work (r\<lparr>operation := op\<rparr>))" for op c
  proof -
    let ?st' = "snd (call_platform env (set_request ?st0 cur (r\<lparr>operation := op\<rparr>)) c)"
    have b': "busy others cur cur ?st'"
      by (rule next_stage_busy [OF acc q]) (use r op in simp_all)
    then have "nvm_inv others ?st'" unfolding nvm_inv_def by blast
    moreover have "server_step (server_of st) Completion (server_of ?st')"
      by (rule next_stage_step [OF acc b r(1) b' refl op(3)])
    ultimately show ?thesis by (cases "call_platform env (set_request ?st0 cur (r\<lparr>operation := op\<rparr>)) c") simp
  qed
  show ?thesis
    using r(3) e n [of NS_NVM_KEY_WRITE "Platform_write (client_key_name r) (buffer r) (buffer_len r) cur"]
      n [of NS_NVM_FLUSH "Platform_flush cur"]
    by (cases "operation r"; cases "status = PLATFORM_NVM_OK")
      (simp_all add: platform_completes_def ns_nvm_callback_func_def request_at_def r(1,5) Let_def work_def later_calls_def)
qed

subsection \<open>A call while idle\<close>

lemma holds_one: "holds_requests others st D \<Longrightarrow> p \<in> D \<Longrightarrow> \<exists>r. requests st p = Some r"
  by (auto simp: holds_requests_def)

text \<open>Only the request \<open>p\<close> is allocated, and it is given up.\<close>

definition alone :: "addr set \<Rightarrow> addr \<Rightarrow> ns_nvm_request_t \<Rightarrow> nvm \<Rightarrow> bool" where
  "alone others p r st \<longleftrightarrow> ns_nvm_request_list st = [] \<and> awaiting st = [] \<and> accepted st = answered st \<and> p \<noteq> NULL \<and>
     holds_requests others st {p} \<and> requests st p = Some r"

lemma give_up:
  assumes "alone others p r st"
  obtains st' where "free_request st p = finish st'" "idle others (st'\<lparr>ns_nvm_operation_in_progress := False\<rparr>)"
    "client_calls st' = client_calls st" "ns_nvm_operation_in_progress st' = ns_nvm_operation_in_progress st"
    "requests st' = Map.empty"
proof -
  have h: "holds_requests others st {p}" using assms by (simp add: alone_def)
  obtain book where f: "free_request st p = finish (st\<lparr>default_book := book, requests := (requests st)(p := None)\<rparr>)"
    "holds_requests others (st\<lparr>default_book := book, requests := (requests st)(p := None)\<rparr>) ({p} - {p})"
    using free_request_result [OF h, of p] by blast
  let ?st = "st\<lparr>default_book := book, requests := (requests st)(p := None)\<rparr>"
  have e: "holds_requests others ?st {}" using f(2) by simp
  then have "holds_requests others (?st\<lparr>ns_nvm_operation_in_progress := False\<rparr>) {}"
    using holds_requests_cong [of "?st\<lparr>ns_nvm_operation_in_progress := False\<rparr>" ?st others] by simp
  then have "idle others (?st\<lparr>ns_nvm_operation_in_progress := False\<rparr>)"
    using assms by (simp add: idle_def queue_ok_def alone_def)
  then show thesis using f(1) holds_requests_empty [OF e] by (intro that [of ?st]) simp_all
qed

lemma idle_accepted: "idle others st \<Longrightarrow> accepted st = answered st"
  by (auto simp: idle_def queue_ok_def)

text \<open>The outcomes of a start: accepted, the platform has the request or the initialisation; or refused.\<close>

definition start_outcome :: "addr set \<Rightarrow> nvm_env \<Rightarrow> addr \<Rightarrow> ns_nvm_request_t \<Rightarrow> nvm \<Rightarrow> int \<Rightarrow> nvm \<Rightarrow> bool" where
  "start_outcome others env p r st ret st' \<longleftrightarrow> client_calls st' = client_calls st \<and> accepted st' = accepted st \<and>
     (if ret = NS_NVM_OK
      then \<exists>a. busy others a p (st'\<lparr>accepted := accepted st @ [(callback r, client_context r)]\<rparr>) \<and>
        (ns_nvm_initialized st \<longrightarrow> a = p \<and> platform_calls st' = platform_calls st @ [start_call env r p] \<and>
           requests st' p = Some (started r) \<and> ns_nvm_request_list st' = []) \<and>
        (\<not> ns_nvm_initialized st \<longrightarrow> a \<noteq> p \<and> platform_calls st' = platform_calls st @ [Platform_init a])
      else idle others st')"

lemma start_initialized:
  assumes al: "alone others p r st" and s: "startable r" and i: "ns_nvm_initialized st" "\<not> ns_nvm_operation_in_progress st"
  shows "\<exists>ret st'. ns_nvm_operation_start env st p = finish (ret, st') \<and> start_outcome others env p r st ret st'"
proof -
  have al': "requests st p = Some r" "startable r" "p \<noteq> NULL" using al s by (auto simp: alone_def)
  let ?st1 = "st\<lparr>ns_nvm_operation_in_progress := True, requests := (requests st)(p \<mapsto> started r),
       platform_calls := platform_calls st @ [start_call env r p]\<rparr>"
  have c: "ns_nvm_operation_start env st p =
    (if platform env (platform_calls st) (start_call env r p) = PLATFORM_NVM_OK
     then finish (NS_NVM_OK, ?st1\<lparr>awaiting := awaiting st @ [p]\<rparr>)
     else andthen (free_request ?st1 p) (\<lambda>st. finish (NS_NVM_ERROR, st\<lparr>ns_nvm_operation_in_progress := False\<rparr>)))"
    using al'(3) i continue_result [OF al'(1,2) refl, of env True] by (simp add: ns_nvm_operation_start_def)
  show ?thesis
  proof (cases "platform env (platform_calls st) (start_call env r p) = PLATFORM_NVM_OK")
    case True
    let ?sta = "st\<lparr>accepted := answered st @ [(callback r, client_context r)]\<rparr>"
    have "holds_requests others ?sta {p}" using al holds_requests_cong [of ?sta st others] by (simp add: alone_def)
    then have q: "queue_ok others {p} (answered ?sta @ [tag ?sta p]) ?sta"
      using al by (simp add: queue_ok_def tag_def alone_def)
    have b: "busy others p p (?sta\<lparr>ns_nvm_operation_in_progress := True, requests := (requests ?sta)(p \<mapsto> started r),
           platform_calls := platform_calls st @ [start_call env r p], awaiting := [p]\<rparr>)"
      by (rule busy_started [OF q]) (use i al s in \<open>simp_all add: alone_def\<close>)
    have e: "?sta\<lparr>ns_nvm_operation_in_progress := True, requests := (requests ?sta)(p \<mapsto> started r),
           platform_calls := platform_calls st @ [start_call env r p], awaiting := [p]\<rparr> =
        ?st1\<lparr>awaiting := [p], accepted := answered st @ [(callback r, client_context r)]\<rparr>"
      by (cases st) simp
    have "start_outcome others env p r st NS_NVM_OK (?st1\<lparr>awaiting := [p]\<rparr>)"
      using b [unfolded e] al i(1) by (auto simp: start_outcome_def alone_def)
    then show ?thesis using True c al by (auto simp: alone_def)
  next
    case False
    have "dom (requests ?st1) = dom (requests st)" using al'(1) by (simp add: insert_absorb domI)
    then have "alone others p (started r) ?st1"
      using al holds_requests_cong [of ?st1 st others] by (auto simp: alone_def)
    from give_up [OF this] obtain st2 where "free_request ?st1 p = finish st2"
      "idle others (st2\<lparr>ns_nvm_operation_in_progress := False\<rparr>)" "client_calls st2 = client_calls ?st1" .
    then show ?thesis
      using False c al idle_accepted [of others "st2\<lparr>ns_nvm_operation_in_progress := False\<rparr>"]
      by (auto simp: start_outcome_def alone_def)
  qed
qed

lemma start_uninitialized:
  assumes al: "alone others p r st" and s: "startable r" and i: "\<not> ns_nvm_initialized st" "\<not> ns_nvm_operation_in_progress st"
  shows "\<exists>ret st'. ns_nvm_operation_start env st p = finish (ret, st') \<and> start_outcome others env p r st ret st'"
proof -
  have h: "holds_requests others st {p}" "requests st p = Some r" "p \<noteq> NULL" using al by (auto simp: alone_def)
  show ?thesis
  proof (cases rule: create_request_result [OF h(1), of NULL NULL NULL NULL NULL NS_NVM_INIT])
    case (1 book)
    then have "alone others p r (st\<lparr>default_book := book\<rparr>)" using al by (simp add: alone_def)
    from give_up [OF this] obtain st2 where f: "free_request (st\<lparr>default_book := book\<rparr>) p = finish st2"
      "idle others (st2\<lparr>ns_nvm_operation_in_progress := False\<rparr>)" "client_calls st2 = client_calls st"
      "\<not> ns_nvm_operation_in_progress st2" "requests st2 = Map.empty"
      using i(2) by auto
    have same: "st2\<lparr>ns_nvm_operation_in_progress := False\<rparr> = st2" using f(4) by (cases st2) simp
    have "free_request st2 NULL = finish (st2\<lparr>requests := (requests st2)(NULL := None)\<rparr>)"
      by (simp add: free_request_def ns_dyn_mem_free_def)
    also have "st2\<lparr>requests := (requests st2)(NULL := None)\<rparr> = st2" using f(5) by (cases st2) (simp add: fun_upd_idem)
    finally show ?thesis
      using f(2,3) 1(1) h(3) i f(1) al idle_accepted [of others st2]
      by (simp add: same ns_nvm_operation_start_def start_outcome_def alone_def)
  next
    case (2 a book)
    let ?i = "new_request NULL NULL NULL NULL NULL NS_NVM_INIT"
    let ?st1 = "st\<lparr>default_book := book, requests := (requests st)(a \<mapsto> ?i)\<rparr>"
    let ?st2 = "?st1\<lparr>requests := (requests ?st1)(a \<mapsto> ?i\<lparr>original_request := Some p\<rparr>),
      platform_calls := platform_calls st @ [Platform_init a]\<rparr>"
    have ap: "a \<noteq> p" using 2(2) by simp
    have c: "ns_nvm_operation_start env st p =
      (if platform env (platform_calls st) (Platform_init a) = PLATFORM_NVM_OK
       then finish (NS_NVM_OK, ?st2\<lparr>awaiting := [a], ns_nvm_request_list := [], ns_nvm_initialized := True,
              ns_nvm_operation_in_progress := True\<rparr>)
       else andthen (free_request ?st2 p) (\<lambda>st. andthen (free_request st a) (\<lambda>st. finish (NS_NVM_ERROR, st))))"
      using 2(1,3) h(3) i al
      by (simp add: ns_nvm_operation_start_def request_at_def set_request_def call_platform_def Let_def alone_def)
    show ?thesis
    proof (cases "platform env (platform_calls st) (Platform_init a) = PLATFORM_NVM_OK")
      case True
      let ?st3 = "?st2\<lparr>awaiting := [a], ns_nvm_request_list := [], ns_nvm_initialized := True,
              ns_nvm_operation_in_progress := True\<rparr>"
      let ?st4 = "?st3\<lparr>accepted := accepted st @ [(callback r, client_context r)]\<rparr>"
      have "holds_requests others ?st4 {a, p}"
        using 2(4) holds_requests_cong [of ?st4 ?st1 others] by simp
      then have "queue_ok others {a, p} (answered ?st4 @ [tag ?st4 p]) ?st4"
        using ap al by (simp add: queue_ok_def tag_def alone_def)
      then have "busy others a p ?st4"
        using ap s h by (simp add: busy_def startable_def new_request_def)
      then have "start_outcome others env p r st NS_NVM_OK ?st3"
        using i ap by (auto simp: start_outcome_def)
      then show ?thesis using True c by auto
    next
      case False
      have "holds_requests others ?st2 (insert a {p})"
        using 2(4) holds_requests_cong [of ?st2 ?st1 others] by simp
      then obtain book3 where f: "free_request ?st2 p = finish (?st2\<lparr>default_book := book3, requests := (requests ?st2)(p := None)\<rparr>)"
        "holds_requests others (?st2\<lparr>default_book := book3, requests := (requests ?st2)(p := None)\<rparr>) (insert a {p} - {p})"
        using free_request_result [of others ?st2 "insert a {p}" p] by blast
      let ?st3 = "?st2\<lparr>default_book := book3, requests := (requests ?st2)(p := None)\<rparr>"
      have "holds_requests others ?st3 {a}" using f(2) ap by (simp add: insert_Diff_if)
      then have "alone others a (?i\<lparr>original_request := Some p\<rparr>) ?st3"
        using al 2(1) ap by (simp add: alone_def)
      from give_up [OF this] obtain st4 where f4: "free_request ?st3 a = finish st4"
        "idle others (st4\<lparr>ns_nvm_operation_in_progress := False\<rparr>)" "client_calls st4 = client_calls st"
        "\<not> ns_nvm_operation_in_progress st4"
        using i(2) by auto
      have same: "st4\<lparr>ns_nvm_operation_in_progress := False\<rparr> = st4" using f4(4) by (cases st4) simp
      show ?thesis
        using f4(2,3) False c f(1) f4(1) al idle_accepted [of others st4]
        by (simp add: same start_outcome_def alone_def)
    qed
  qed
qed

text \<open>A call while idle, whatever the platform answers: accepted and under way, or refused without a trace.\<close>

definition under_way :: "addr set \<Rightarrow> nvm_env \<Rightarrow> api_call \<Rightarrow> addr \<Rightarrow> nvm \<Rightarrow> nvm \<Rightarrow> bool" where
  "under_way others env c p st st' \<longleftrightarrow> (\<exists>r. busy others p p st' \<and> requests st' p = Some (started r) \<and>
     ns_nvm_request_list st' = [] \<and> platform_calls st' = platform_calls st @ [start_call env r p] \<and>
     api_tag c = (callback r, client_context r) \<and> protocol env c p = start_call env r p # later_calls (started r) p)"

lemma api_idle:
  assumes i: "idle others st"
  obtains (accepted_call) p st' where "api env st c = finish (NS_NVM_OK, st')" "\<exists>a. busy others a p st'"
      "client_calls st' = client_calls st" "accepted st' = accepted st @ [api_tag c]"
      "ns_nvm_initialized st \<longrightarrow> under_way others env c p st st'"
      "\<not> ns_nvm_initialized st \<longrightarrow> (\<exists>a. busy others a p st' \<and> a \<noteq> p \<and> platform_calls st' = platform_calls st @ [Platform_init a])"
  | (refused) ret st' where "api env st c = finish (ret, st')" "ret \<noteq> NS_NVM_OK" "idle others st'"
      "client_calls st' = client_calls st" "accepted st' = accepted st"
proof (cases rule: api_cases [of env st c])
  case bad
  then show thesis using i by (intro refused [of NS_NVM_ERROR st]) (simp_all add: api_def)
next
  case (good cb key ctx buf len op)
  have h: "holds_requests others st {}" and l: "ns_nvm_request_list st = []" "accepted st = answered st"
    "awaiting st = []" "\<not> ns_nvm_operation_in_progress st"
    using i by (auto simp: idle_def queue_ok_def)
  let ?r = "new_request cb ctx key buf len op"
  show thesis
  proof (cases rule: create_request_result [OF h, of cb ctx key buf len op])
    case (1 book)
    then have "idle others (st\<lparr>default_book := book\<rparr>)" using i l by (simp add: idle_def queue_ok_def)
    with 1 good show thesis
      by (intro refused [of NS_NVM_MEMORY "st\<lparr>default_book := book\<rparr>"])
        (simp_all add: api_def ns_nvm_operation_start_def)
  next
    case (2 p book)
    let ?st = "st\<lparr>default_book := book, requests := (requests st)(p \<mapsto> ?r)\<rparr>"
    have al: "alone others p ?r ?st" using 2 l by (simp add: alone_def)
    obtain ret st' where s: "ns_nvm_operation_start env ?st p = finish (ret, st')" "start_outcome others env p ?r ?st ret st'"
      using start_initialized [OF al good(3), of env] start_uninitialized [OF al good(3), of env] l(4) by auto
    have f: "api_function env st c = finish (ret, st')" using good(1) 2(3) s(1) by simp
    show thesis
    proof (cases "ret = NS_NVM_OK")
      case True
      let ?st' = "st'\<lparr>accepted := accepted st @ [api_tag c]\<rparr>"
      have t: "api_tag c = (callback ?r, client_context ?r)" using good(2) by (simp add: new_request_def)
      have o: "\<exists>a. busy others a p ?st' \<and> (ns_nvm_initialized st \<longrightarrow> a = p \<and>
          platform_calls ?st' = platform_calls st @ [start_call env ?r p] \<and> requests ?st' p = Some (started ?r) \<and>
          ns_nvm_request_list ?st' = []) \<and>
          (\<not> ns_nvm_initialized st \<longrightarrow> a \<noteq> p \<and> platform_calls ?st' = platform_calls st @ [Platform_init a])"
        using s(2) True t by (auto simp: start_outcome_def)
      then have "ns_nvm_initialized st \<longrightarrow> under_way others env c p st ?st'"
        unfolding under_way_def using good(4) t by blast
      then show thesis
        using s(2) f o True by (intro accepted_call [of ?st' p]) (auto simp: api_def start_outcome_def)
    next
      case False
      then show thesis using s(2) f by (intro refused [of ret st']) (simp_all add: api_def start_outcome_def)
    qed
  qed
qed

lemma api_idle_inv:
  assumes i: "idle others st"
  shows "\<exists>ret st'. api env st c = finish (ret, st') \<and> nvm_inv others st' \<and>
    server_step (server_of st) Request (server_of st')"
  using i
proof (cases rule: api_idle [of others st env c])
  case (refused ret st')
  then have "server_of st' = server_of st" using i by (simp add: server_of_idle)
  then show ?thesis using refused by (auto simp: nvm_inv_def intro: server_step.refused)
next
  case (accepted_call p st')
  then obtain a where b: "busy others a p st'" by blast
  then obtain r where r: "requests st' p = Some r" "accepted st' = answered st' @ [tag st' p] @ map (tag st') (ns_nvm_request_list st')"
    "a \<noteq> p \<longrightarrow> startable r"
    by (auto simp: busy_def queue_ok_def split: if_splits)
  have "length (accepted st') = Suc (length (answered st'))"
    using accepted_call(3,4) idle_accepted [OF i] by simp
  then have l: "ns_nvm_request_list st' = []" using r(2) by simp
  let ?n = "if a = p then work r else Suc (work (started r))"
  have "server_of st' = server_of st\<lparr>jobs := jobs (server_of st) @ [(tag st' p, ?n)]\<rparr>"
    using server_of_busy [OF b r(1)] server_of_idle [OF i] l accepted_call(3) by simp
  moreover have "sized 4 [(tag st' p, ?n)]"
    using work_startable [of r] r(3) by (auto simp: sized_def work_def later_calls_def split: nvm_operation.splits)
  ultimately have "server_step (server_of st) Request (server_of st')" by (simp only: server_step.accepted)
  then show ?thesis using accepted_call(1) b by (auto simp: nvm_inv_def)
qed

lemma api_busy:
  assumes b: "busy others a cur st"
  shows "\<exists>ret st'. api env st c = finish (ret, st') \<and> nvm_inv others st' \<and>
    server_step (server_of st) Request (server_of st')"
proof -
  have q: "queue_ok others {a, cur} (answered st @ [tag st cur]) st" and i: "ns_nvm_initialized st"
    "ns_nvm_operation_in_progress st"
    using b by (auto simp: busy_def)
  obtain ret st' where s: "api env st c = finish (ret, st')" "queue_ok others {a, cur} (answered st @ [tag st cur]) st'"
    "keeps {a, cur} st st'" "length (ns_nvm_request_list st') \<le> Suc (length (ns_nvm_request_list st))"
    using api_enqueues [OF q i] by blast
  have "answered st' @ [tag st' cur] = answered st @ [tag st cur]" using s(3) by (simp add: keeps_def tag_def)
  then have b': "busy others a cur st'" using b s unfolding busy_def keeps_def by auto
  obtain r where r: "requests st cur = Some r" using b by (auto simp: busy_def)
  have k: "requests st' cur = Some r" "answered st' = answered st" "tag st' cur = tag st cur"
    "map (waiting_job st') (ns_nvm_request_list st) = map (waiting_job st) (ns_nvm_request_list st)"
    using s(3) r waiting_jobs_same [of "ns_nvm_request_list st" st' st] by (simp_all add: keeps_def tag_def)
  obtain new where new: "ns_nvm_request_list st' = ns_nvm_request_list st @ new" using s(3) by (auto simp: keeps_def)
  have "server_of st' = server_of st\<lparr>jobs := jobs (server_of st) @ map (waiting_job st') new\<rparr>"
    using server_of_busy [OF b r] server_of_busy [OF b' k(1)] k new by simp
  moreover have z: "sized 3 (map (waiting_job st') new)" by (rule waiting_jobs_sized [OF s(2)]) (simp add: new)
  have "server_step (server_of st) Request (server_of st\<lparr>jobs := jobs (server_of st) @ map (waiting_job st') new\<rparr>)"
  proof (cases new)
    case Nil
    then show ?thesis by (simp add: server_step.refused)
  next
    case (Cons x xs)
    then have "new = [x]" using s(4) new by simp
    then show ?thesis using z by (auto simp: sized_def intro!: server_step.accepted)
  qed
  ultimately show ?thesis using s(1) b' by (auto simp: nvm_inv_def)
qed

text \<open>
  The events of the server: a completion counts when there can be an operation to complete, of which there is one at
  most.
\<close>

fun server_events :: "nvm_event \<Rightarrow> server_event list" where
  "server_events (Call c) = [Request]"
| "server_events (Complete 0 status) = [Completion]"
| "server_events (Complete (Suc i) status) = []"

lemma event_inv:
  assumes acc: "accepting env" and inv: "nvm_inv others st"
  shows "\<exists>st'. nvm_event_step env st e = finish st' \<and> nvm_inv others st' \<and>
    server_run (server_of st) (server_events e) (server_of st')"
proof (cases e)
  case (Call c)
  obtain ret st' where "api env st c = finish (ret, st')" "nvm_inv others st'"
    "server_step (server_of st) Request (server_of st')"
    using inv api_busy api_idle_inv unfolding nvm_inv_def [of others st] by blast
  then show ?thesis using Call by (auto intro: server_run_one)
next
  case (Complete i status)
  have "idle others st \<or> (\<exists>a cur. busy others a cur st)" using inv by (simp add: nvm_inv_def)
  then show ?thesis
  proof (elim disjE exE)
    assume "idle others st"
    then show ?thesis
      using Complete inv server_of_idle [of others st] server_step.nothing [of "server_of st"]
      by (cases i) (auto simp: idle_def intro: run_nil server_run_one)
  next
    fix a cur assume b: "busy others a cur st"
    show ?thesis
    proof (cases i)
      case 0
      have "\<exists>st'. platform_completes env st status a = finish st' \<and> nvm_inv others st' \<and>
          server_step (server_of st) Completion (server_of st')"
        using init_done_inv [OF acc b] callback_inv [OF acc, of others cur st] b by (cases "a = cur") auto
      moreover have "awaiting st = [a]" using b by (simp add: busy_def)
      ultimately show ?thesis using Complete 0 by (auto intro: server_run_one)
    next
      case (Suc k)
      then show ?thesis using Complete inv b by (auto simp: busy_def intro: run_nil)
    qed
  qed
qed

lemma run_inv:
  assumes "accepting env" "nvm_inv others st"
  shows "\<exists>st'. nvm_run env st es = finish st' \<and> nvm_inv others st' \<and>
    server_run (server_of st) (concat (map server_events es)) (server_of st')"
  using assms(2)
proof (induction es arbitrary: st)
  case (Cons e es)
  obtain st1 where "nvm_event_step env st e = finish st1" "nvm_inv others st1"
    "server_run (server_of st) (server_events e) (server_of st1)"
    using event_inv [OF assms(1) Cons.prems] by blast
  then show ?case using Cons.IH [of st1] by (auto intro: server_run_append)
qed (auto intro: run_nil)

end
