(* ===== verification/NvmProps.thy ===== *)
theory NvmProps
  imports NvmInv
begin

text \<open>
  The properties of the NVM helper: what it guarantees with a platform that starts every operation, and what
  becomes of a request when the platform refuses to start one.
\<close>

section \<open>A concrete helper\<close>

text \<open>For the witnesses: a heap of 600 bytes and an environment that accepts everything and does not call back.\<close>

definition nvm_book :: ns_mem_book where
  "nvm_book = ns_mem_init (\<lambda>_. 0) 4096 600 True"

definition silent :: "addr \<Rightarrow> int \<Rightarrow> addr \<Rightarrow> api_call list" where
  "silent cb ret ctx = []"

definition willing :: nvm_env where
  "willing = \<lparr>platform = \<lambda>calls c. PLATFORM_NVM_OK, client = silent, client_len = \<lambda>_. 16\<rparr>"

lemma nvm_book_ok: "\<exists>R. heap_ok nvm_book R \<and> heap_faults nvm_book = []"
proof -
  have "70 \<le> uint (600 :: u32)" "uint (4096 :: u32) + uint (600 :: u32) \<le> 2 ^ 32" by simp_all
  from ns_mem_init_ok [OF this] obtain R where "heap_ok nvm_book R"
    unfolding fresh_heap_def nvm_book_def heap_ok_def by blast
  moreover have "heap_faults nvm_book = []" by code_simp
  ultimately show ?thesis by blast
qed

lemma willing_accepts: "accepting willing"
  by (simp add: accepting_def willing_def)

lemma idle_start:
  assumes "heap_ok book R" "heap_faults book = []"
  shows "idle (fst ` live_blocks R) (nvm_start book)"
proof -
  have "holds_requests (fst ` live_blocks R) (nvm_start book) {}"
    using assms by (intro holds_requestsI [of _ book R]) (simp_all add: nvm_start_def)
  then show ?thesis by (simp add: idle_def queue_ok_def nvm_start_def)
qed

lemma idle_start_ok: "\<exists>others. idle others (nvm_start nvm_book)"
  using nvm_book_ok idle_start by blast

section \<open>When the platform starts every operation\<close>

text \<open>
  C2. With a platform that starts every operation it is asked for, and for every sequence of client calls
  (also from within callbacks) and of completions with any status: no call reads a released request or
  fails to return, at most one operation is with the platform, the accepted requests are answered each once
  and in the order of their acceptance, and when none is outstanding all their memory has been returned to
  the heap, which has reported no fault.
\<close>

theorem nvm_requests_answered_in_order:
  assumes "accepting env" "heap_ok book R" "heap_faults book = []"
  shows "\<exists>st. nvm_run env (nvm_start book) events = finish st \<and> length (awaiting st) \<le> 1 \<and>
    (\<exists>out. accepted st = answered st @ out \<and> (out = [] \<longleftrightarrow> awaiting st = []) \<and>
       (out = [] \<longrightarrow> (\<exists>book' R'. default_book st = Some book' \<and> heap_ok book' R' \<and> heap_faults book' = [] \<and>
          fst ` live_blocks R' = fst ` live_blocks R)))"
proof -
  obtain st where st: "nvm_run env (nvm_start book) events = finish st" "nvm_inv (fst ` live_blocks R) st"
    using run_inv [OF assms(1)] idle_start [OF assms(2,3)] unfolding nvm_inv_def by blast
  from st(2) show ?thesis
    unfolding nvm_inv_def
  proof (elim disjE exE)
    assume i: "idle (fst ` live_blocks R) st"
    then have "holds_requests (fst ` live_blocks R) st ({} \<union> set (ns_nvm_request_list st))" "ns_nvm_request_list st = []"
      unfolding idle_def queue_ok_def by blast+
    then have "holds_requests (fst ` live_blocks R) st {}" by simp
    then show ?thesis
      using st(1) i unfolding holds_requests_def by (auto simp: idle_def queue_ok_def)
  next
    fix a cur assume b: "busy (fst ` live_blocks R) a cur st"
    then have "accepted st = answered st @ tag st cur # map (tag st) (ns_nvm_request_list st)"
      by (simp add: busy_def queue_ok_def)
    then show ?thesis using st(1) b by (auto simp: busy_def)
  qed
qed

theorem nvm_requests_answered_in_order_witness:
  "\<exists>st out. nvm_run willing (nvm_start nvm_book)
      [Call (Data_write 1 2 3 4 5), Call (Key_delete 6 7 8), Complete 0 PLATFORM_NVM_OK] = finish st \<and>
    length (awaiting st) \<le> 1 \<and> accepted st = answered st @ out"
  using nvm_requests_answered_in_order [OF willing_accepts] nvm_book_ok by blast

text \<open>
  C15. A client call while the helper is idle, with any platform: it is accepted, and then one operation is with
  the platform; or it returns an error, and then nothing is left of it: no request and no memory is held,
  nothing waits, the next call starts afresh, and the client is not called back.
\<close>

theorem nvm_call_while_idle:
  assumes "idle others st"
  shows "\<exists>ret st'. api env st c = finish (ret, st') \<and> client_calls st' = client_calls st \<and>
    (if ret = NS_NVM_OK
     then length (awaiting st') = 1 \<and> ns_nvm_operation_in_progress st' \<and> accepted st' = accepted st @ [api_tag c]
     else awaiting st' = [] \<and> \<not> ns_nvm_operation_in_progress st' \<and> requests st' = Map.empty \<and>
       accepted st' = accepted st \<and> idle others st')"
  using assms
proof (cases rule: api_idle [of others st env c])
  case (accepted_call p st')
  then have "length (awaiting st') = 1" "ns_nvm_operation_in_progress st'" by (auto simp: busy_def)
  with accepted_call show ?thesis by (intro exI [of _ NS_NVM_OK] exI [of _ st']) simp
next
  case (refused ret st')
  have l: "ns_nvm_request_list st' = []" and q: "queue_ok others {} (answered st') st'"
    using refused(3) by (auto simp: idle_def)
  have "requests st' = Map.empty"
    by (rule holds_requests_empty [of others]) (use q l in \<open>simp add: queue_ok_def\<close>)
  with refused show ?thesis by (auto simp: idle_def)
qed

theorem nvm_call_while_idle_witness:
  "\<exists>others ret st'. api (willing\<lparr>platform := \<lambda>_ _. PLATFORM_NVM_ERROR\<rparr>) (nvm_start nvm_book) (Key_delete 1 2 3) =
      finish (ret, st') \<and> client_calls st' = [] \<and> (ret \<noteq> NS_NVM_OK \<longrightarrow> idle others st')"
proof -
  obtain others where "idle others (nvm_start nvm_book)" using idle_start_ok by blast
  from nvm_call_while_idle [OF this, of "willing\<lparr>platform := \<lambda>_ _. PLATFORM_NVM_ERROR\<rparr>" "Key_delete 1 2 3"]
  show ?thesis unfolding nvm_start_def by (auto intro!: exI [of _ others])
qed

section \<open>The stages of an operation\<close>

definition client_status :: "platform_nvm_status \<Rightarrow> int" where
  "client_status s = (case s of PLATFORM_NVM_OK \<Rightarrow> NS_NVM_OK | PLATFORM_NVM_KEY_NOT_FOUND \<Rightarrow> NS_NVM_DATA_NOT_FOUND
     | PLATFORM_NVM_ERROR \<Rightarrow> NS_NVM_ERROR)"

lemma end_silent:
  assumes q: "queue_ok others {x} (answered st @ [tag st x]) st" and l: "ns_nvm_request_list st = []" "awaiting st = []"
    and r: "requests st x = Some r" "callback r \<noteq> NULL" and s: "client env = silent"
  shows "\<exists>st'. ns_nvm_operation_end env st x ret = finish st' \<and> idle others st' \<and>
    platform_calls st' = platform_calls st \<and> client_calls st' = client_calls st @ [(callback r, ret, client_context r)]"
proof -
  let ?st1 = "st\<lparr>client_calls := client_calls st @ [(callback r, ret, client_context r)]\<rparr>"
  have h: "holds_requests others ?st1 {x}"
    using q l holds_requests_cong [of ?st1 st others] by (simp add: queue_ok_def)
  obtain book where f: "free_request ?st1 x = finish (?st1\<lparr>default_book := book, requests := (requests ?st1)(x := None)\<rparr>)"
    "holds_requests others (?st1\<lparr>default_book := book, requests := (requests ?st1)(x := None)\<rparr>) ({x} - {x})"
    using free_request_result [OF h, of x] by blast
  let ?st2 = "?st1\<lparr>default_book := book, requests := (requests ?st1)(x := None)\<rparr>"
  let ?st3 = "?st2\<lparr>ns_nvm_operation_in_progress := False\<rparr>"
  have "holds_requests others ?st3 {}" using f(2) holds_requests_cong [of ?st3 ?st2 others] by simp
  then have "idle others ?st3" using l q r by (simp add: idle_def queue_ok_def tag_def)
  moreover have "answer env st x ret = finish ?st3"
    using r s f(1) by (simp add: answer_def request_at_def silent_def)
  ultimately show ?thesis
    using l(1) by (simp add: ns_nvm_operation_end_def list_first_def pending_loop.simps [of _ _ NULL])
qed

lemma busy_here:
  assumes b: "busy others x x st" and r: "requests st x = Some r" and st0: "st0 = st\<lparr>awaiting := []\<rparr>"
  shows "queue_ok others {x} (answered st0 @ [tag st0 x]) st0" "callback r \<noteq> NULL"
    "operation r \<notin> {NS_NVM_NONE, NS_NVM_INIT}" "x \<noteq> NULL" "awaiting st = [x]" "requests st0 x = Some r"
    "ns_nvm_initialized st0" "ns_nvm_operation_in_progress st0" "awaiting st0 = []"
    "client_calls st0 = client_calls st" "platform_calls st0 = platform_calls st"
    "ns_nvm_request_list st0 = ns_nvm_request_list st"
proof -
  have "queue_ok others {x} (answered st @ [tag st x]) st" using b by (simp add: busy_def)
  then show "queue_ok others {x} (answered st0 @ [tag st0 x]) st0"
    using queue_ok_cong [of others "{x}" "answered st @ [tag st x]" st st0] by (simp add: tag_def st0)
qed (use b r in \<open>auto simp: busy_def st0\<close>)

text \<open>What a completion does: the next call of the operation, or its end.\<close>

lemma completes_end:
  assumes "requests st x = Some r" "operation r \<notin> {NS_NVM_NONE, NS_NVM_INIT}" "awaiting st = [x]"
    "s \<noteq> PLATFORM_NVM_OK \<or> later_calls r x = []"
  shows "platform_completes env st s x = ns_nvm_operation_end env (st\<lparr>awaiting := []\<rparr>) x (client_status s)"
  using assms
  by (cases "operation r"; cases s)
    (auto simp: platform_completes_def ns_nvm_callback_func_def request_at_def later_calls_def client_status_def Let_def)

lemma completes_next:
  assumes "requests st x = Some r" "awaiting st = [x]" "later_calls r x = c # cs"
  obtains op where "platform_completes env st PLATFORM_NVM_OK x =
      finish (snd (call_platform env (set_request (st\<lparr>awaiting := []\<rparr>) x (r\<lparr>operation := op\<rparr>)) c))"
    "op \<notin> {NS_NVM_NONE, NS_NVM_INIT}" "call_context c = x" "later_calls (r\<lparr>operation := op\<rparr>) x = cs"
proof (cases "operation r")
  case NS_NVM_KEY_CREATE
  with assms show thesis
    by (intro that [of NS_NVM_KEY_WRITE])
      (auto simp: platform_completes_def ns_nvm_callback_func_def request_at_def later_calls_def Let_def case_prod_beta)
next
  case NS_NVM_KEY_WRITE
  with assms show thesis
    by (intro that [of NS_NVM_FLUSH])
      (auto simp: platform_completes_def ns_nvm_callback_func_def request_at_def later_calls_def Let_def case_prod_beta)
next
  case NS_NVM_KEY_DELETE
  with assms show thesis
    by (intro that [of NS_NVM_FLUSH])
      (auto simp: platform_completes_def ns_nvm_callback_func_def request_at_def later_calls_def Let_def case_prod_beta)
qed (use assms(3) in \<open>simp_all add: later_calls_def\<close>)

lemma stages_run:
  assumes "accepting env" "client env = silent" "busy others x x st" "ns_nvm_request_list st = []"
    "requests st x = Some r" "k \<le> length (later_calls r x)" "s \<noteq> PLATFORM_NVM_OK \<or> k = length (later_calls r x)"
  shows "\<exists>st'. nvm_run env st (replicate k (Complete 0 PLATFORM_NVM_OK) @ [Complete 0 s]) = finish st' \<and>
    idle others st' \<and> platform_calls st' = platform_calls st @ take k (later_calls r x) \<and>
    client_calls st' = client_calls st @ [(callback r, client_status s, client_context r)]"
  using assms(3-7)
proof (induction k arbitrary: st r)
  case 0
  note b = busy_here [OF 0(1,3) refl]
  have "platform_completes env st s x = ns_nvm_operation_end env (st\<lparr>awaiting := []\<rparr>) x (client_status s)"
    by (rule completes_end) (use 0 b in auto)
  moreover obtain st' where "ns_nvm_operation_end env (st\<lparr>awaiting := []\<rparr>) x (client_status s) = finish st'"
    "idle others st'" "platform_calls st' = platform_calls st"
    "client_calls st' = client_calls st @ [(callback r, client_status s, client_context r)]"
    using end_silent [OF b(1) _ b(9) b(6,2) assms(2), of "client_status s"] 0(2) by auto
  ultimately show ?case using b(5) by simp
next
  case (Suc k)
  note b = busy_here [OF Suc.prems(1,3) refl]
  obtain c cs where c: "later_calls r x = c # cs" using Suc.prems(4) by (cases "later_calls r x") auto
  obtain op where op: "platform_completes env st PLATFORM_NVM_OK x =
      finish (snd (call_platform env (set_request (st\<lparr>awaiting := []\<rparr>) x (r\<lparr>operation := op\<rparr>)) c))"
    "op \<notin> {NS_NVM_NONE, NS_NVM_INIT}" "call_context c = x" "later_calls (r\<lparr>operation := op\<rparr>) x = cs"
    using completes_next [OF Suc.prems(3) b(5) c] .
  let ?st1 = "snd (call_platform env (set_request (st\<lparr>awaiting := []\<rparr>) x (r\<lparr>operation := op\<rparr>)) c)"
  have b1: "busy others x x ?st1"
    by (rule next_stage_busy [OF assms(1) b(1,9,7,8,4,6,2) op(2,3)])
  have f: "ns_nvm_request_list ?st1 = []" "requests ?st1 x = Some (r\<lparr>operation := op\<rparr>)"
    "platform_calls ?st1 = platform_calls st @ [c]" "client_calls ?st1 = client_calls st"
    using Suc.prems(2) by (simp_all add: call_accepted [OF assms(1)] set_request_def)
  have "k \<le> length (later_calls (r\<lparr>operation := op\<rparr>) x)"
    "s \<noteq> PLATFORM_NVM_OK \<or> k = length (later_calls (r\<lparr>operation := op\<rparr>) x)"
    using Suc.prems(4,5) c op(4) by auto
  from Suc.IH [OF b1 f(1,2) this] show ?case using op(1,4) b(5) c f(3,4) by simp
qed

text \<open>
  C14. The stages of an accepted call, with a platform that starts every operation: deleting is a delete and a
  flush, reading one call, writing the creation of the key, the write and a flush. Each call is made when the
  one before has completed well; the first failure ends the operation at once, the client is told the status
  of the last completion, once, and the helper is idle again.
\<close>

theorem nvm_operation_protocol:
  assumes "accepting env" "client env = silent" "idle others st" "ns_nvm_initialized st"
    "api env st c = finish (NS_NVM_OK, st1)" "k < length (protocol env c NULL)"
    "s \<noteq> PLATFORM_NVM_OK \<or> Suc k = length (protocol env c NULL)"
  shows "\<exists>x st2. nvm_run env st1 (replicate k (Complete 0 PLATFORM_NVM_OK) @ [Complete 0 s]) = finish st2 \<and>
    platform_calls st2 = platform_calls st @ take (Suc k) (protocol env c x) \<and>
    client_calls st2 = client_calls st @ [(fst (api_tag c), client_status s, snd (api_tag c))] \<and> idle others st2"
  using assms(3)
proof (cases rule: api_idle [of others st env c])
  case (accepted_call x st')
  have "st' = st1" using accepted_call(1) assms(5) by simp
  then obtain r where r: "busy others x x st1" "requests st1 x = Some (started r)" "ns_nvm_request_list st1 = []"
    "platform_calls st1 = platform_calls st @ [start_call env r x]" "api_tag c = (callback r, client_context r)"
    "protocol env c x = start_call env r x # later_calls (started r) x"
    using accepted_call(5) assms(4) unfolding under_way_def by blast
  have "length (protocol env c NULL) = length (protocol env c x)" by (cases c) simp_all
  then have "k \<le> length (later_calls (started r) x)" "s \<noteq> PLATFORM_NVM_OK \<or> k = length (later_calls (started r) x)"
    using assms(6,7) r(6) by auto
  from stages_run [OF assms(1,2) r(1,3,2) this] show ?thesis
    using r(4-6) accepted_call(3) \<open>st' = st1\<close> by (intro exI [of _ x]) (auto simp: started_def)
next
  case (refused ret st')
  then show ?thesis using assms(5) by simp
qed

definition nvm_ready :: nvm where
  "nvm_ready = (nvm_start nvm_book)\<lparr>ns_nvm_initialized := True\<rparr>"

lemma ready_idle: "\<exists>others. idle others nvm_ready"
proof -
  obtain others where i: "idle others (nvm_start nvm_book)" using idle_start_ok by blast
  then have "queue_ok others {} (answered (nvm_start nvm_book)) (nvm_start nvm_book)" unfolding idle_def by blast
  then have "queue_ok others {} (answered (nvm_start nvm_book)) nvm_ready"
    by (rule queue_ok_cong) (simp_all add: nvm_ready_def)
  with i have "idle others nvm_ready" by (simp add: idle_def nvm_ready_def)
  then show ?thesis ..
qed

definition returned :: "(int \<times> nvm) outcome \<Rightarrow> int option" where
  "returned a = (case a of Some (Inr (ret, st)) \<Rightarrow> Some ret | _ \<Rightarrow> None)"

lemma returnedD: "returned a = Some ret \<Longrightarrow> \<exists>st. a = finish (ret, st)"
  by (auto simp: returned_def finish_def split: option.splits sum.splits)

lemma ready_write: "\<exists>st1. api willing nvm_ready (Data_write 1 2 3 4 5) = finish (NS_NVM_OK, st1)"
  by (rule returnedD) code_simp

theorem nvm_operation_protocol_witness:
  "\<exists>st1 x st2. nvm_run willing st1 [Complete 0 PLATFORM_NVM_OK, Complete 0 PLATFORM_NVM_ERROR] = finish st2 \<and>
    platform_calls st2 = [Platform_key_create 2 16 x, Platform_write 2 3 4 x] \<and> client_calls st2 = [(1, -2, 5)]"
proof -
  obtain others where i: "idle others nvm_ready" using ready_idle by blast
  obtain st1 where s: "api willing nvm_ready (Data_write 1 2 3 4 5) = finish (NS_NVM_OK, st1)"
    using ready_write by blast
  have c: "client willing = silent" by (simp add: willing_def)
  have "ns_nvm_initialized nvm_ready" by (simp add: nvm_ready_def)
  from nvm_operation_protocol [OF willing_accepts c i this s, of 1 PLATFORM_NVM_ERROR] show ?thesis
    by (auto simp: nvm_ready_def nvm_start_def willing_def client_status_def NS_NVM_ERROR_def intro!: exI [of _ st1])
qed

section \<open>When the platform refuses\<close>

text \<open>
  C17. The first request waits for the initialisation of the platform, and the call that made it has returned
  success. When the initialisation completes, with whatever status, the request is started; if the platform
  refuses, the request is released and its client is never called, and the requests that wait behind it
  are not started: nothing is with the platform any more.
\<close>

theorem nvm_first_request_lost:
  assumes "busy others a cur st" "a \<noteq> cur" "requests st cur = Some r"
    "platform env (platform_calls st) (start_call env r cur) \<noteq> PLATFORM_NVM_OK"
  shows "\<exists>st'. platform_completes env st status a = finish st' \<and> requests st' cur = None \<and>
    client_calls st' = client_calls st \<and> accepted st' = accepted st \<and> awaiting st' = [] \<and>
    \<not> ns_nvm_operation_in_progress st' \<and> ns_nvm_request_list st' = ns_nvm_request_list st"
proof -
  let ?st0 = "st\<lparr>awaiting := []\<rparr>"
  obtain i where r: "startable r" "requests st a = Some i" "operation i = NS_NVM_INIT" "original_request i = Some cur"
    "awaiting st = [a]"
    using assms(1-3) by (auto simp: busy_def)
  let ?st1 = "?st0\<lparr>ns_nvm_operation_in_progress := True, requests := (requests st)(cur \<mapsto> started r),
       platform_calls := platform_calls st @ [start_call env r cur]\<rparr>"
  have c: "ns_nvm_operation_continue env ?st0 cur True =
      andthen (free_request ?st1 cur) (\<lambda>st. finish (NS_NVM_ERROR, st\<lparr>ns_nvm_operation_in_progress := False\<rparr>))"
    using continue_result [of ?st0 cur r, OF _ r(1) refl, of env True] assms(3,4) by simp
  let ?D = "{a, cur} \<union> set (ns_nvm_request_list st)"
  have "holds_requests others st ?D" using assms(1) by (simp add: busy_def queue_ok_def)
  moreover have "dom (requests ?st1) = dom (requests st)" using assms(3) by (simp add: insert_absorb domI)
  ultimately have h: "holds_requests others ?st1 ?D" using holds_requests_cong [of ?st1 st others] by simp
  obtain book where f: "free_request ?st1 cur = finish (?st1\<lparr>default_book := book, requests := (requests ?st1)(cur := None)\<rparr>)"
    "holds_requests others (?st1\<lparr>default_book := book, requests := (requests ?st1)(cur := None)\<rparr>) (?D - {cur})"
    using free_request_result [OF h, of cur] by blast
  let ?st2 = "?st1\<lparr>default_book := book, requests := (requests ?st1)(cur := None), ns_nvm_operation_in_progress := False\<rparr>"
  have "holds_requests others ?st2 (?D - {cur})"
    using f(2) holds_requests_cong [of ?st2 "?st1\<lparr>default_book := book, requests := (requests ?st1)(cur := None)\<rparr>" others]
    by simp
  from free_request_result [OF this, of a] obtain book3 where
    "free_request ?st2 a = finish (?st2\<lparr>default_book := book3, requests := (requests ?st2)(a := None)\<rparr>)"
    using assms(2) by blast
  then have "platform_completes env st status a = finish (?st2\<lparr>default_book := book3, requests := (requests ?st2)(a := None)\<rparr>)"
    using r c f(1) by (simp add: platform_completes_def ns_nvm_callback_func_def request_at_def)
  then show ?thesis by simp
qed

definition refusing :: "(platform_call \<Rightarrow> bool) \<Rightarrow> nvm_env" where
  "refusing P = willing\<lparr>platform := \<lambda>calls c. if P c then PLATFORM_NVM_ERROR else PLATFORM_NVM_OK\<rparr>"

definition not_init :: "platform_call \<Rightarrow> bool" where
  "not_init c = (case c of Platform_init r \<Rightarrow> False | _ \<Rightarrow> True)"

definition is_delete :: "platform_call \<Rightarrow> bool" where
  "is_delete c = (case c of Platform_key_delete key r \<Rightarrow> True | _ \<Rightarrow> False)"

definition is_write :: "platform_call \<Rightarrow> bool" where
  "is_write c = (case c of Platform_write key buf len r \<Rightarrow> True | _ \<Rightarrow> False)"

lemma first_delete: "\<exists>st1. api (refusing not_init) (nvm_start nvm_book) (Key_delete 1 2 3) = finish (NS_NVM_OK, st1)"
  by (rule returnedD) code_simp

theorem nvm_first_request_lost_witness:
  "\<exists>st1 a st2. api (refusing not_init) (nvm_start nvm_book) (Key_delete 1 2 3) = finish (NS_NVM_OK, st1) \<and>
    platform_completes (refusing not_init) st1 PLATFORM_NVM_OK a = finish st2 \<and> client_calls st2 = [] \<and>
    awaiting st2 = []"
proof -
  obtain others where i: "idle others (nvm_start nvm_book)" using idle_start_ok by blast
  obtain st1 where st1: "api (refusing not_init) (nvm_start nvm_book) (Key_delete 1 2 3) = finish (NS_NVM_OK, st1)"
    using first_delete by blast
  obtain a p where b: "busy others a p st1" "a \<noteq> p" "client_calls st1 = []"
    using i
  proof (cases rule: api_idle [of others _ "refusing not_init" "Key_delete 1 2 3"])
    case (accepted_call p st')
    then show thesis using st1 that [of _ p] by (auto simp: nvm_start_def)
  qed (use st1 in simp)
  then obtain r where r: "requests st1 p = Some r" "startable r" by (auto simp: busy_def)
  have "platform (refusing not_init) (platform_calls st1) (start_call (refusing not_init) r p) \<noteq> PLATFORM_NVM_OK"
    by (simp add: refusing_def not_init_def start_call_def)
  from nvm_first_request_lost [OF b(1,2) r(1) this, of PLATFORM_NVM_OK] obtain st2 where
    "platform_completes (refusing not_init) st1 PLATFORM_NVM_OK a = finish st2" "client_calls st2 = []" "awaiting st2 = []"
    using b(3) by auto
  with st1 show ?thesis by blast
qed

text \<open>Nothing ever ends the operation that is marked as being in progress.\<close>

lemma blocked_run:
  assumes "queue_ok others held bef st" "ns_nvm_initialized st" "ns_nvm_operation_in_progress st" "awaiting st = []"
  shows "\<exists>st'. nvm_run env st events = finish st' \<and> keeps held st st'"
  using assms
proof (induction events arbitrary: st)
  case (Cons e es)
  obtain st1 where s: "nvm_event_step env st e = finish st1" "queue_ok others held bef st1" "keeps held st st1"
  proof (cases e)
    case (Call c)
    obtain ret st1 where "api env st c = finish (ret, st1)" "queue_ok others held bef st1" "keeps held st st1"
      using api_enqueues [OF Cons.prems(1-3)] by blast
    then show thesis using Call by (intro that [of st1]) simp_all
  next
    case (Complete i status)
    then show thesis using Cons.prems by (intro that [of st]) simp_all
  qed
  then have "ns_nvm_initialized st1" "ns_nvm_operation_in_progress st1" "awaiting st1 = []"
    using Cons.prems by (auto simp: keeps_def)
  from Cons.IH [OF s(2) this] s show ?case by (auto intro: keeps_trans)
qed simp

text \<open>
  C16. The status of \<open>platform_nvm_write\<close> and \<open>platform_nvm_flush\<close> is not looked at. When the platform refuses to
  start one of them, the request stays allocated, the helper stays busy for ever, and whatever happens
  afterwards no client is called back and nothing is asked of the platform again.
\<close>

theorem nvm_refused_stage_blocks_forever:
  assumes "busy others x x st" "requests st x = Some r" "later_calls r x = c # cs"
    "platform env (platform_calls st) c \<noteq> PLATFORM_NVM_OK"
  shows "\<exists>st'. nvm_run env st (Complete 0 PLATFORM_NVM_OK # events) = finish st' \<and>
    ns_nvm_operation_in_progress st' \<and> awaiting st' = [] \<and> requests st' x \<noteq> None \<and>
    client_calls st' = client_calls st \<and> platform_calls st' = platform_calls st @ [c]"
proof -
  note b = busy_here [OF assms(1,2) refl]
  obtain op where op: "platform_completes env st PLATFORM_NVM_OK x =
      finish (snd (call_platform env (set_request (st\<lparr>awaiting := []\<rparr>) x (r\<lparr>operation := op\<rparr>)) c))"
    using completes_next [OF assms(2) b(5) assms(3)] .
  let ?st1 = "st\<lparr>requests := (requests st)(x \<mapsto> r\<lparr>operation := op\<rparr>), platform_calls := platform_calls st @ [c], awaiting := []\<rparr>"
  have "snd (call_platform env (set_request (st\<lparr>awaiting := []\<rparr>) x (r\<lparr>operation := op\<rparr>)) c) = ?st1"
    using assms(4) by (cases st) (simp add: call_platform_def set_request_def)
  with op have s: "platform_completes env st PLATFORM_NVM_OK x = finish ?st1" by simp
  have "queue_ok others {x} (answered st @ [tag st x]) st" using assms(1) by (simp add: busy_def)
  then have "queue_ok others {x} (answered ?st1 @ [tag ?st1 x]) ?st1"
    by (rule queue_ok_stage [OF _ assms(2)]) simp_all
  then obtain st' where "nvm_run env ?st1 events = finish st'" "keeps {x} ?st1 st'"
    using blocked_run [of others "{x}" _ ?st1 env events] b(7,8) by auto
  then show ?thesis using s b(5,8) by (auto simp: keeps_def)
qed

lemma ready_write_refusing: "\<exists>st1. api (refusing is_write) nvm_ready (Data_write 1 2 3 4 5) = finish (NS_NVM_OK, st1)"
  by (rule returnedD) code_simp

theorem nvm_refused_stage_blocks_forever_witness:
  "\<exists>st1 st2. api (refusing is_write) nvm_ready (Data_write 1 2 3 4 5) = finish (NS_NVM_OK, st1) \<and>
    nvm_run (refusing is_write) st1 [Complete 0 PLATFORM_NVM_OK, Call (Data_read 6 7 8 9 10), Complete 0 PLATFORM_NVM_OK]
      = finish st2 \<and> ns_nvm_operation_in_progress st2 \<and> awaiting st2 = [] \<and> client_calls st2 = []"
proof -
  obtain others where i: "idle others nvm_ready" using ready_idle by blast
  obtain st1 where st1: "api (refusing is_write) nvm_ready (Data_write 1 2 3 4 5) = finish (NS_NVM_OK, st1)"
    using ready_write_refusing by blast
  have ready: "ns_nvm_initialized nvm_ready" "client_calls nvm_ready = []" by (simp_all add: nvm_ready_def nvm_start_def)
  obtain p where p: "under_way others (refusing is_write) (Data_write 1 2 3 4 5) p nvm_ready st1" "client_calls st1 = []"
    using i
  proof (cases rule: api_idle [of others _ "refusing is_write" "Data_write 1 2 3 4 5"])
    case (accepted_call p st')
    then show thesis using st1 that [of p] ready by auto
  qed (use st1 in simp)
  then obtain r where r: "busy others p p st1" "requests st1 p = Some (started r)"
    "later_calls (started r) p = [Platform_write 2 3 4 p, Platform_flush p]"
    unfolding under_way_def by auto
  have "platform (refusing is_write) (platform_calls st1) (Platform_write 2 3 4 p) \<noteq> PLATFORM_NVM_OK"
    by (simp add: refusing_def is_write_def)
  from nvm_refused_stage_blocks_forever [OF r this, of "[Call (Data_read 6 7 8 9 10), Complete 0 PLATFORM_NVM_OK]"]
  obtain st2 where "nvm_run (refusing is_write) st1 [Complete 0 PLATFORM_NVM_OK, Call (Data_read 6 7 8 9 10),
      Complete 0 PLATFORM_NVM_OK] = finish st2"
    "ns_nvm_operation_in_progress st2" "awaiting st2 = []" "client_calls st2 = []"
    using p(2) by metis
  with st1 show ?thesis by blast
qed

text \<open>The end of a run: the fault it ends with, or the callbacks it has made.\<close>

definition run_end :: "nvm outcome \<Rightarrow> (nvm_fault + (addr \<times> int \<times> addr) list) option" where
  "run_end a = map_option (map_sum id client_calls) a"

text \<open>
  The loop over the waiting requests keeps the next entry while the end of a refused request calls the
  same function again, which takes the next entry off the list as well. With two requests waiting, the first
  of them refused, the outer loop goes on with an entry that has been released (when the second is refused
  too), or that is off the list and still in use, and removes it through its poisoned link. With one
  waiting request all is well: its client is told of the error.
\<close>

lemma nvm_pending_loop_revisits_entry:
  "run_end (nvm_run (refusing is_delete) (nvm_start nvm_book)
     [Call (Data_read 1 2 3 4 5), Call (Key_delete 6 2 7),
      Complete 0 PLATFORM_NVM_OK, Complete 0 PLATFORM_NVM_OK]) = Some (Inr [(1, NS_NVM_OK, 5), (6, NS_NVM_ERROR, 7)]) \<and>
   run_end (nvm_run (refusing is_delete) (nvm_start nvm_book)
     [Call (Data_read 1 2 3 4 5), Call (Key_delete 6 2 7), Call (Key_delete 8 2 9),
      Complete 0 PLATFORM_NVM_OK, Complete 0 PLATFORM_NVM_OK]) = Some (Inl (Dangling 1070)) \<and>
   run_end (nvm_run (refusing is_delete) (nvm_start nvm_book)
     [Call (Data_read 1 2 3 4 5), Call (Key_delete 6 2 7), Call (Data_read 8 2 3 4 9),
      Complete 0 PLATFORM_NVM_OK, Complete 0 PLATFORM_NVM_OK]) = Some (Inl (Unlinked 1070))"
proof (intro conjI)
  show "run_end (nvm_run (refusing is_delete) (nvm_start nvm_book)
     [Call (Data_read 1 2 3 4 5), Call (Key_delete 6 2 7),
      Complete 0 PLATFORM_NVM_OK, Complete 0 PLATFORM_NVM_OK]) = Some (Inr [(1, NS_NVM_OK, 5), (6, NS_NVM_ERROR, 7)])"
    by code_simp
  show "run_end (nvm_run (refusing is_delete) (nvm_start nvm_book)
     [Call (Data_read 1 2 3 4 5), Call (Key_delete 6 2 7), Call (Key_delete 8 2 9),
      Complete 0 PLATFORM_NVM_OK, Complete 0 PLATFORM_NVM_OK]) = Some (Inl (Dangling 1070))"
    by code_simp
  show "run_end (nvm_run (refusing is_delete) (nvm_start nvm_book)
     [Call (Data_read 1 2 3 4 5), Call (Key_delete 6 2 7), Call (Data_read 8 2 3 4 9),
      Complete 0 PLATFORM_NVM_OK, Complete 0 PLATFORM_NVM_OK]) = Some (Inl (Unlinked 1070))"
    by code_simp
qed

end
