(* ===== verification/NvmLive.thy ===== *)
theory NvmLive
  imports NvmProps
begin

text \<open>
  The NVM helper refines its server, so no accepted request waits for ever.
\<close>

section \<open>The helper and its server\<close>

lemma served_accepted:
  assumes "nvm_inv others st"
  shows "accepted st = finished (server_of st) @ map fst (jobs (server_of st))"
    and "awaiting st = [] \<longleftrightarrow> jobs (server_of st) = []" and "finished (server_of st) = answered st"
    and "sized 4 (jobs (server_of st))"
proof -
  have "accepted st = finished (server_of st) @ map fst (jobs (server_of st)) \<and>
    (awaiting st = [] \<longleftrightarrow> jobs (server_of st) = []) \<and> finished (server_of st) = answered st \<and> sized 4 (jobs (server_of st))"
    using assms unfolding nvm_inv_def
  proof (elim disjE exE)
    assume i: "idle others st"
    then show ?thesis using server_of_idle [OF i] idle_accepted [OF i] by (simp add: idle_def sized_def)
  next
    fix a cur assume b: "busy others a cur st"
    then obtain r where r: "requests st cur = Some r" "a \<noteq> cur \<longrightarrow> startable r"
      and q: "queue_ok others {a, cur} (answered st @ [tag st cur]) st" "awaiting st = [a]"
      by (auto simp: busy_def split: if_splits)
    have "sized 3 (map (waiting_job st) (ns_nvm_request_list st))" by (rule waiting_jobs_sized [OF q(1)]) simp
    moreover have "1 \<le> work r" "work r \<le> 4" "a \<noteq> cur \<longrightarrow> work (started r) \<le> 3"
      using work_startable [of r] r(2) by (auto simp: work_def later_calls_def split: nvm_operation.split)
    ultimately show ?thesis
      using server_of_busy [OF b r(1)] q by (auto simp: queue_ok_def sized_def waiting_job_def)
  qed
  then show "accepted st = finished (server_of st) @ map fst (jobs (server_of st))"
    "awaiting st = [] \<longleftrightarrow> jobs (server_of st) = []" "finished (server_of st) = answered st"
    "sized 4 (jobs (server_of st))" by blast+
qed

lemma start_inv:
  "heap_ok book R \<Longrightarrow> heap_faults book = [] \<Longrightarrow> nvm_inv (fst ` live_blocks R) (nvm_start book) \<and>
     server_of (nvm_start book) = \<lparr>jobs = [], finished = []\<rparr>"
  using idle_start [of book R] server_of_idle [of "fst ` live_blocks R" "nvm_start book"]
  by (simp add: nvm_inv_def nvm_start_def)

text \<open>
  C3. The helper is a first-come first-served server. With a platform that starts every operation it is asked for,
  every sequence of client calls and completions is a run of the abstract server: what is accepted is what has been
  answered followed by the queue of the server, in this order; an operation is with the platform exactly when the
  queue is not empty.
\<close>

theorem nvm_refines_server:
  assumes "accepting env" "heap_ok book R" "heap_faults book = []"
  shows "\<exists>st. nvm_run env (nvm_start book) events = finish st \<and>
    server_run \<lparr>jobs = [], finished = []\<rparr> (concat (map server_events events)) (server_of st) \<and>
    accepted st = answered st @ map fst (jobs (server_of st)) \<and> (awaiting st = [] \<longleftrightarrow> jobs (server_of st) = [])"
proof -
  note s = start_inv [OF assms(2,3)]
  obtain st where st: "nvm_run env (nvm_start book) events = finish st" "nvm_inv (fst ` live_blocks R) st"
    "server_run (server_of (nvm_start book)) (concat (map server_events events)) (server_of st)"
    using run_inv [OF assms(1) conjunct1 [OF s], of events] by blast
  have "server_run \<lparr>jobs = [], finished = []\<rparr> (concat (map server_events events)) (server_of st)"
    using st(3) s by simp
  with st(1) served_accepted [OF st(2)] show ?thesis by auto
qed

theorem nvm_refines_server_witness:
  "\<exists>st. nvm_run willing (nvm_start nvm_book) [Call (Data_write 1 2 3 4 5), Complete 0 PLATFORM_NVM_OK] = finish st \<and>
    server_run \<lparr>jobs = [], finished = []\<rparr> [Request, Completion] (server_of st) \<and>
    (awaiting st = [] \<longleftrightarrow> jobs (server_of st) = [])"
proof -
  obtain R where R: "heap_ok nvm_book R" "heap_faults nvm_book = []" using nvm_book_ok by blast
  from nvm_refines_server [OF willing_accepts this, of "[Call (Data_write 1 2 3 4 5), Complete 0 PLATFORM_NVM_OK]"]
  show ?thesis by auto
qed

text \<open>
  C4. No accepted request waits for ever. With such a platform, once it has completed four operations for each
  accepted request that had no answer, all of them have been answered, in the order of their acceptance, whatever
  the clients have requested meanwhile and whatever the completions reported.
\<close>

theorem nvm_every_request_answered:
  assumes "accepting env" "heap_ok book R" "heap_faults book = []" "nvm_run env (nvm_start book) before = finish st"
    "4 * (length (accepted st) - length (answered st)) \<le> length (filter (\<lambda>e. server_events e = [Completion]) after)"
  shows "\<exists>st'. nvm_run env st after = finish st' \<and> prefix (accepted st) (answered st')"
proof -
  obtain st0 where "nvm_run env (nvm_start book) before = finish st0" "nvm_inv (fst ` live_blocks R) st0"
    using run_inv [OF assms(1) conjunct1 [OF start_inv [OF assms(2,3)]], of before] by blast
  then have inv: "nvm_inv (fst ` live_blocks R) st" using assms(4) by simp
  obtain st' where st': "nvm_run env st after = finish st'" "nvm_inv (fst ` live_blocks R) st'"
    "server_run (server_of st) (concat (map server_events after)) (server_of st')"
    using run_inv [OF assms(1) inv, of after] by blast
  note v = served_accepted [OF inv]
  have "sum_list (map snd (jobs (server_of st))) \<le> 4 * length (jobs (server_of st))"
    using v(4) sum_list_mono [of "jobs (server_of st)" snd "\<lambda>_. 4"] by (simp add: sized_def sum_list_triv)
  also have "\<dots> \<le> length (filter (\<lambda>e. server_events e = [Completion]) after)"
    using assms(5) v(1,3) by simp
  also have "\<dots> = length (filter (\<lambda>e. e = Completion) (concat (map server_events after)))"
  proof (induction after)
    case (Cons e es)
    then show ?case by (cases e rule: server_events.cases) auto
  qed simp
  finally have "prefix (finished (server_of st) @ map fst (jobs (server_of st))) (finished (server_of st'))"
    using server_run_serves [OF st'(3), of "jobs (server_of st)" "[]"] v(4) by (simp add: sized_def)
  then show ?thesis using st'(1) v(1) served_accepted(3) [OF st'(2)] by auto
qed

definition two_requests :: "nvm_event list" where
  "two_requests = [Call (Data_write 1 2 3 4 5), Call (Key_delete 6 7 8)]"

lemma two_requests_accepted:
  "map_option (map_sum id (\<lambda>st. (accepted st, answered st))) (nvm_run willing (nvm_start nvm_book) two_requests) =
     Some (Inr ([(1, 5), (6, 8)], []))"
  by code_simp

theorem nvm_every_request_answered_witness:
  "\<exists>st st'. nvm_run willing (nvm_start nvm_book) two_requests = finish st \<and>
    nvm_run willing st (Call (Data_read 1 1 1 1 1) # replicate 8 (Complete 0 PLATFORM_NVM_ERROR)) = finish st' \<and>
    prefix [(1, 5), (6, 8)] (answered st')"
proof -
  obtain R where R: "heap_ok nvm_book R" "heap_faults nvm_book = []" using nvm_book_ok by blast
  obtain z where z: "nvm_run willing (nvm_start nvm_book) two_requests = Some z"
    "map_sum id (\<lambda>st. (accepted st, answered st)) z = Inr ([(1, 5), (6, 8)], [])"
    using two_requests_accepted by auto
  then obtain st where st: "nvm_run willing (nvm_start nvm_book) two_requests = finish st"
    "accepted st = [(1, 5), (6, 8)]" "answered st = []"
    by (cases z) (auto simp: finish_def)
  have n: "4 * (length (accepted st) - length (answered st)) \<le>
      length (filter (\<lambda>e. server_events e = [Completion]) (Call (Data_read 1 1 1 1 1) # replicate 8 (Complete 0 PLATFORM_NVM_ERROR)))"
    unfolding st(2,3) by simp
  from nvm_every_request_answered [OF willing_accepts R st(1) n] show ?thesis using st(1,2) by auto
qed

end
