(* ===== verification/CommonFunctions.thy ===== *)
theory CommonFunctions
  imports Prelude
begin

text \<open>
  The byte and bit helpers of \<open>common_functions.h\<close> and \<open>libBits/common_functions.c\<close>: byte order
  conversion, bit counting, serial numbers of RFC 1982, and bit strings. A byte buffer is a list of
  bytes and a pointer into it an offset; a write returns the buffer and the advanced pointer.
\<close>

section \<open>Byte order\<close>

text \<open>\<open>*ptr++ = b\<close> and \<open>*ptr++\<close> in an expression.\<close>

definition put :: "u8 \<Rightarrow> u8 list \<times> nat \<Rightarrow> u8 list \<times> nat" where
  "put b bp = ((fst bp)[snd bp := b], snd bp + 1)"

definition common_write_64_bit :: "u64 \<Rightarrow> u8 list \<times> nat \<Rightarrow> u8 list \<times> nat" where
  "common_write_64_bit value ptr =
     (let ptr = put (ucast (drop_bit 56 value)) ptr;
          ptr = put (ucast (drop_bit 48 value)) ptr;
          ptr = put (ucast (drop_bit 40 value)) ptr;
          ptr = put (ucast (drop_bit 32 value)) ptr;
          ptr = put (ucast (drop_bit 24 value)) ptr;
          ptr = put (ucast (drop_bit 16 value)) ptr;
          ptr = put (ucast (drop_bit 8 value)) ptr
      in put (ucast value) ptr)"

definition common_read_64_bit :: "u8 list \<Rightarrow> nat \<Rightarrow> u64" where
  "common_read_64_bit buf p =
     (let temp_64 = push_bit 56 (ucast (buf ! p));
          temp_64 = temp_64 + push_bit 48 (ucast (buf ! (p + 1)));
          temp_64 = temp_64 + push_bit 40 (ucast (buf ! (p + 2)));
          temp_64 = temp_64 + push_bit 32 (ucast (buf ! (p + 3)));
          temp_64 = temp_64 + push_bit 24 (ucast (buf ! (p + 4)));
          temp_64 = temp_64 + push_bit 16 (ucast (buf ! (p + 5)));
          temp_64 = temp_64 + push_bit 8 (ucast (buf ! (p + 6)))
      in temp_64 + ucast (buf ! (p + 7)))"

definition common_write_32_bit :: "u32 \<Rightarrow> u8 list \<times> nat \<Rightarrow> u8 list \<times> nat" where
  "common_write_32_bit value ptr =
     (let ptr = put (ucast (drop_bit 24 value)) ptr;
          ptr = put (ucast (drop_bit 16 value)) ptr;
          ptr = put (ucast (drop_bit 8 value)) ptr
      in put (ucast value) ptr)"

definition common_read_32_bit :: "u8 list \<Rightarrow> nat \<Rightarrow> u32" where
  "common_read_32_bit buf p =
     (let temp_32 = push_bit 24 (ucast (buf ! p));
          temp_32 = temp_32 + push_bit 16 (ucast (buf ! (p + 1)));
          temp_32 = temp_32 + push_bit 8 (ucast (buf ! (p + 2)))
      in temp_32 + ucast (buf ! (p + 3)))"

definition common_write_32_bit_inverse :: "u32 \<Rightarrow> u8 list \<times> nat \<Rightarrow> u8 list \<times> nat" where
  "common_write_32_bit_inverse value ptr =
     (let ptr = put (ucast value) ptr;
          ptr = put (ucast (drop_bit 8 value)) ptr;
          ptr = put (ucast (drop_bit 16 value)) ptr
      in put (ucast (drop_bit 24 value)) ptr)"

definition common_read_32_bit_inverse :: "u8 list \<Rightarrow> nat \<Rightarrow> u32" where
  "common_read_32_bit_inverse buf p =
     (let temp_32 = ucast (buf ! p);
          temp_32 = temp_32 + push_bit 8 (ucast (buf ! (p + 1)));
          temp_32 = temp_32 + push_bit 16 (ucast (buf ! (p + 2)))
      in temp_32 + push_bit 24 (ucast (buf ! (p + 3))))"

text \<open>\<open>uint_fast24_t\<close> is a 32-bit type.\<close>

definition common_write_24_bit :: "u32 \<Rightarrow> u8 list \<times> nat \<Rightarrow> u8 list \<times> nat" where
  "common_write_24_bit value ptr =
     (let ptr = put (ucast (drop_bit 16 value)) ptr;
          ptr = put (ucast (drop_bit 8 value)) ptr
      in put (ucast value) ptr)"

definition common_read_24_bit :: "u8 list \<Rightarrow> nat \<Rightarrow> u32" where
  "common_read_24_bit buf p =
     (let temp_24 = push_bit 16 (ucast (buf ! p));
          temp_24 = temp_24 + push_bit 8 (ucast (buf ! (p + 1)))
      in temp_24 + ucast (buf ! (p + 2)))"

definition common_write_24_bit_inverse :: "u32 \<Rightarrow> u8 list \<times> nat \<Rightarrow> u8 list \<times> nat" where
  "common_write_24_bit_inverse value ptr =
     (let ptr = put (ucast value) ptr;
          ptr = put (ucast (drop_bit 8 value)) ptr
      in put (ucast (drop_bit 16 value)) ptr)"

definition common_read_24_bit_inverse :: "u8 list \<Rightarrow> nat \<Rightarrow> u32" where
  "common_read_24_bit_inverse buf p =
     (let temp_24 = ucast (buf ! p);
          temp_24 = temp_24 + push_bit 8 (ucast (buf ! (p + 1)))
      in temp_24 + push_bit 16 (ucast (buf ! (p + 2))))"

definition common_write_16_bit :: "u16 \<Rightarrow> u8 list \<times> nat \<Rightarrow> u8 list \<times> nat" where
  "common_write_16_bit value ptr = put (ucast value) (put (ucast (drop_bit 8 value)) ptr)"

definition common_read_16_bit :: "u8 list \<Rightarrow> nat \<Rightarrow> u16" where
  "common_read_16_bit buf p =
     (let temp_16 = push_bit 8 (ucast (buf ! p)) in temp_16 + ucast (buf ! (p + 1)))"

definition common_write_16_bit_inverse :: "u16 \<Rightarrow> u8 list \<times> nat \<Rightarrow> u8 list \<times> nat" where
  "common_write_16_bit_inverse value ptr = put (ucast (drop_bit 8 value)) (put (ucast value) ptr)"

definition common_read_16_bit_inverse :: "u8 list \<Rightarrow> nat \<Rightarrow> u16" where
  "common_read_16_bit_inverse buf p =
     (let temp_16 = ucast (buf ! p) in temp_16 + push_bit 8 (ucast (buf ! (p + 1))))"

subsection \<open>Reference: big-endian digits\<close>

text \<open>A number as \<open>n\<close> bytes, most significant first, and the number of a list of bytes (Horner).\<close>

fun to_bytes :: "nat \<Rightarrow> 'a::len word \<Rightarrow> u8 list" where
  "to_bytes 0 v = []"
| "to_bytes (Suc n) v = to_bytes n (drop_bit 8 v) @ [ucast v]"

definition of_bytes :: "u8 list \<Rightarrow> 'a::len word" where
  "of_bytes bs = foldl (\<lambda>acc b. push_bit 8 acc + ucast b) 0 bs"

lemma length_to_bytes [simp]: "length (to_bytes n v) = n"
  by (induction n arbitrary: v) auto

lemma of_bytes_snoc [simp]: "of_bytes (bs @ [b]) = push_bit 8 (of_bytes bs) + ucast b"
  by (simp add: of_bytes_def)

lemma of_bytes_Nil [simp]: "of_bytes [] = 0"
  by (simp add: of_bytes_def)

lemma ucast_byte: "8 \<le> LENGTH('a) \<Longrightarrow> ucast (ucast (v :: 'a::len word) :: u8) = take_bit 8 v"
  by (rule bit_word_eqI) (simp add: bit_ucast_iff bit_take_bit_iff)

lemma of_bytes_to_bytes:
  fixes v :: "'a::len word"
  assumes "8 \<le> LENGTH('a)"
  shows "of_bytes (to_bytes n v) = take_bit (8 * n) v"
proof (induction n arbitrary: v)
  case (Suc n)
  let ?w = "take_bit (8 * Suc n) v"
  have "push_bit 8 (take_bit (8 * n) (drop_bit 8 v)) + take_bit 8 v = push_bit 8 (drop_bit 8 ?w) + take_bit 8 ?w"
    by (simp add: drop_bit_take_bit)
  also have "\<dots> = ?w" by (rule bits_ident)
  finally show ?case using Suc ucast_byte [OF assms] by simp
qed simp


text \<open>What \<open>n\<close> writes through an advancing pointer leave in the buffer.\<close>

definition put_all :: "u8 list \<Rightarrow> u8 list \<times> nat \<Rightarrow> u8 list \<times> nat" where
  "put_all bs bp = foldl (\<lambda>bp b. put b bp) bp bs"

lemma put_all_simps [simp]:
  "put_all [] bp = bp" "put_all (b # bs) bp = put_all bs (put b bp)"
  by (simp_all add: put_all_def)

lemma put_all_result:
  "p + length bs \<le> length buf \<Longrightarrow>
     put_all bs (buf, p) = (take p buf @ bs @ drop (p + length bs) buf, p + length bs)"
proof (induction bs arbitrary: buf p)
  case (Cons b bs)
  then have "put_all bs (buf[p := b], p + 1) =
      (take (p + 1) (buf[p := b]) @ bs @ drop (p + 1 + length bs) (buf[p := b]), p + 1 + length bs)"
    by (intro Cons.IH) simp
  then show ?case using Cons.prems by (simp add: put_def take_Suc_conv_app_nth)
qed simp

lemma to_bytes_numeral:
  "to_bytes (numeral k) v = to_bytes (pred_numeral k) (drop_bit 8 v) @ [ucast v]"
  by (simp add: numeral_eq_Suc)

lemmas to_bytes_eval = to_bytes_numeral pred_numeral_simps drop_bit_drop_bit

lemma write_be:
  "common_write_64_bit v64 bp = put_all (to_bytes 8 v64) bp"
  "common_write_32_bit v32 bp = put_all (to_bytes 4 v32) bp"
  "common_write_24_bit v32 bp = put_all (to_bytes 3 v32) bp"
  "common_write_16_bit v16 bp = put_all (to_bytes 2 v16) bp"
  by (simp_all add: common_write_64_bit_def common_write_32_bit_def common_write_24_bit_def
      common_write_16_bit_def to_bytes_eval Let_def)

lemma write_le:
  "common_write_32_bit_inverse v32 bp = put_all (rev (to_bytes 4 v32)) bp"
  "common_write_24_bit_inverse v32 bp = put_all (rev (to_bytes 3 v32)) bp"
  "common_write_16_bit_inverse v16 bp = put_all (rev (to_bytes 2 v16)) bp"
  by (simp_all add: common_write_32_bit_inverse_def common_write_24_bit_inverse_def
      common_write_16_bit_inverse_def to_bytes_eval Let_def)

lemma take_numeral_drop:
  "p + numeral k \<le> length xs \<Longrightarrow>
     take (numeral k) (drop p xs) = take (pred_numeral k) (drop p xs) @ [xs ! (p + pred_numeral k)]"
  by (simp add: numeral_eq_Suc take_Suc_conv_app_nth)

lemma take_one_drop: "p < length xs \<Longrightarrow> take (Suc 0) (drop p xs) = [xs ! p]"
  by (simp add: take_Suc_conv_app_nth)

lemmas read_simps = take_numeral_drop take_one_drop pred_numeral_simps push_bit_add Let_def of_bytes_def

lemma read_be:
  "p + 8 \<le> length buf \<Longrightarrow> common_read_64_bit buf p = of_bytes (take 8 (drop p buf))"
  "p + 4 \<le> length buf \<Longrightarrow> common_read_32_bit buf p = of_bytes (take 4 (drop p buf))"
  "p + 3 \<le> length buf \<Longrightarrow> common_read_24_bit buf p = of_bytes (take 3 (drop p buf))"
  "p + 2 \<le> length buf \<Longrightarrow> common_read_16_bit buf p = of_bytes (take 2 (drop p buf))"
  by (simp_all add: common_read_64_bit_def common_read_32_bit_def common_read_24_bit_def
      common_read_16_bit_def read_simps)

lemma read_le:
  "p + 4 \<le> length buf \<Longrightarrow> common_read_32_bit_inverse buf p = of_bytes (rev (take 4 (drop p buf)))"
  "p + 3 \<le> length buf \<Longrightarrow> common_read_24_bit_inverse buf p = of_bytes (rev (take 3 (drop p buf)))"
  "p + 2 \<le> length buf \<Longrightarrow> common_read_16_bit_inverse buf p = of_bytes (rev (take 2 (drop p buf)))"
  by (simp_all add: common_read_32_bit_inverse_def common_read_24_bit_inverse_def
      common_read_16_bit_inverse_def read_simps ac_simps)

lemma written_bytes:
  assumes "p + length bs \<le> length buf" "put_all bs (buf, p) = (buf', p')"
  shows "p' = p + length bs" "length buf' = length buf" "take (length bs) (drop p buf') = bs"
    "take p buf' = take p buf" "drop p' buf' = drop p' buf"
  using assms by (auto simp: put_all_result)

text \<open>
  C26. What is written can be read back: each write function stores the number in \<open>n\<close> bytes at the pointer,
  most significant byte first (last for the \<open>_inverse\<close> functions), leaves the rest of the buffer alone and
  returns the pointer advanced by \<open>n\<close>; reading there with the matching function gives the number, for 24
  bits its low 24 bits.
\<close>

theorem byte_order_roundtrip:
  assumes "p + 8 \<le> length buf"
  shows "let w64 = common_write_64_bit v64 (buf, p);
      w32 = common_write_32_bit v32 (buf, p); w32i = common_write_32_bit_inverse v32 (buf, p);
      w24 = common_write_24_bit v32 (buf, p); w24i = common_write_24_bit_inverse v32 (buf, p);
      w16 = common_write_16_bit v16 (buf, p); w16i = common_write_16_bit_inverse v16 (buf, p)
    in common_read_64_bit (fst w64) p = v64 \<and> w64 = (take p buf @ to_bytes 8 v64 @ drop (p + 8) buf, p + 8) \<and>
      common_read_32_bit (fst w32) p = v32 \<and> w32 = (take p buf @ to_bytes 4 v32 @ drop (p + 4) buf, p + 4) \<and>
      common_read_32_bit_inverse (fst w32i) p = v32 \<and>
        w32i = (take p buf @ rev (to_bytes 4 v32) @ drop (p + 4) buf, p + 4) \<and>
      common_read_24_bit (fst w24) p = take_bit 24 v32 \<and>
        w24 = (take p buf @ to_bytes 3 v32 @ drop (p + 3) buf, p + 3) \<and>
      common_read_24_bit_inverse (fst w24i) p = take_bit 24 v32 \<and>
        w24i = (take p buf @ rev (to_bytes 3 v32) @ drop (p + 3) buf, p + 3) \<and>
      common_read_16_bit (fst w16) p = v16 \<and> w16 = (take p buf @ to_bytes 2 v16 @ drop (p + 2) buf, p + 2) \<and>
      common_read_16_bit_inverse (fst w16i) p = v16 \<and>
        w16i = (take p buf @ rev (to_bytes 2 v16) @ drop (p + 2) buf, p + 2)"
proof -
  have r: "take (length bs) (drop p (take p buf @ bs @ rest)) = bs" for bs rest :: "u8 list"
    using assms by simp
  show ?thesis
    using assms r [of "to_bytes 8 v64"] r [of "to_bytes 4 v32"] r [of "rev (to_bytes 4 v32)"]
      r [of "to_bytes 3 v32"] r [of "rev (to_bytes 3 v32)"] r [of "to_bytes 2 v16"] r [of "rev (to_bytes 2 v16)"]
    unfolding Let_def write_be write_le
    using take_bit_length_eq [of v64] take_bit_length_eq [of v32] take_bit_length_eq [of v16]
    by (simp add: put_all_result read_be read_le of_bytes_to_bytes)
qed

theorem byte_order_roundtrip_witness:
  "common_read_32_bit (fst (common_write_32_bit 0x01020304 (replicate 9 0, 1))) 1 = 0x01020304"
proof -
  have "1 + 8 \<le> length (replicate 9 (0 :: u8))" by simp
  from byte_order_roundtrip [OF this, of 0 "0x01020304" 0, unfolded Let_def] show ?thesis by blast
qed


section \<open>Counting bits\<close>

definition common_count_bits :: "u8 \<Rightarrow> u8" where
  "common_count_bits value =
     (let count = value - (drop_bit 1 value AND 0x55);
          count = (count AND 0x33) + (drop_bit 2 count AND 0x33);
          count = drop_bit 4 count + (count AND 0x0F)
      in count)"

text \<open>The portable branches, for compilers without \<open>__builtin_clz\<close>.\<close>

definition common_count_leading_zeros_8 :: "u8 \<Rightarrow> u8" where
  "common_count_leading_zeros_8 value =
     (if value = 0 then 8 else
      let cnt = 0;
          (value, cnt) = (if value AND 0xF0 = 0 then (push_bit 4 value, cnt + 4) else (value, cnt));
          (value, cnt) = (if value AND 0xC0 = 0 then (push_bit 2 value, cnt + 2) else (value, cnt))
      in if value AND 0x80 = 0 then cnt + 1 else cnt)"

definition common_count_leading_zeros :: "u8 \<Rightarrow> u8" where
  "common_count_leading_zeros value = common_count_leading_zeros_8 value"

definition common_count_leading_zeros_16 :: "u16 \<Rightarrow> u8" where
  "common_count_leading_zeros_16 value =
     (if value = 0 then 16 else
      let cnt = 0;
          (value, cnt) = (if value AND 0xFF00 = 0 then (push_bit 8 value, cnt + 8) else (value, cnt));
          (value, cnt) = (if value AND 0xF000 = 0 then (push_bit 4 value, cnt + 4) else (value, cnt));
          (value, cnt) = (if value AND 0xC000 = 0 then (push_bit 2 value, cnt + 2) else (value, cnt))
      in if value AND 0x8000 = 0 then cnt + 1 else cnt)"

definition common_count_leading_zeros_32 :: "u32 \<Rightarrow> u8" where
  "common_count_leading_zeros_32 value =
     (if value = 0 then 32 else
      let cnt = 0;
          (value, cnt) = (if value AND 0xFFFF0000 = 0 then (push_bit 16 value, cnt + 16) else (value, cnt));
          (value, cnt) = (if value AND 0xFF000000 = 0 then (push_bit 8 value, cnt + 8) else (value, cnt));
          (value, cnt) = (if value AND 0xF0000000 = 0 then (push_bit 4 value, cnt + 4) else (value, cnt));
          (value, cnt) = (if value AND 0xC0000000 = 0 then (push_bit 2 value, cnt + 2) else (value, cnt))
      in if value AND 0x80000000 = 0 then cnt + 1 else cnt)"

text \<open>\<open>c\<close> is the number of leading zeros of \<open>w\<close>: the top \<open>c\<close> bits are clear and the next is set.\<close>

definition leads :: "'a::len word \<Rightarrow> nat \<Rightarrow> bool" where
  "leads w c \<longleftrightarrow> c \<le> LENGTH('a) \<and> (\<forall>i. LENGTH('a) - c \<le> i \<longrightarrow> \<not> bit w i) \<and>
     (c < LENGTH('a) \<longrightarrow> bit w (LENGTH('a) - Suc c))"

text \<open>The top \<open>k\<close> bits.\<close>

definition top_mask :: "nat \<Rightarrow> 'a::len word" where
  "top_mask k = push_bit (LENGTH('a) - k) (mask k)"

lemma bit_top_mask: "k \<le> LENGTH('a) \<Longrightarrow> bit (top_mask k :: 'a::len word) i \<longleftrightarrow> LENGTH('a) - k \<le> i \<and> i < LENGTH('a)"
  by (auto simp: top_mask_def bit_push_bit_iff bit_mask_iff)

lemma top_clear:
  fixes w :: "'a::len word"
  assumes "k \<le> LENGTH('a)"
  shows "w AND top_mask k = 0 \<longleftrightarrow> (\<forall>i. LENGTH('a) - k \<le> i \<longrightarrow> \<not> bit w i)"
proof
  assume "w AND top_mask k = 0"
  then have "\<not> bit (w AND top_mask k) i" for i by simp
  then show "\<forall>i. LENGTH('a) - k \<le> i \<longrightarrow> \<not> bit w i"
    using assms by (auto simp: bit_and_iff bit_top_mask dest: bit_imp_le_length)
next
  assume "\<forall>i. LENGTH('a) - k \<le> i \<longrightarrow> \<not> bit w i"
  then show "w AND top_mask k = 0"
    using assms by (intro bit_word_eqI) (auto simp: bit_and_iff bit_top_mask)
qed

lemma leads_shift:
  fixes w :: "'a::len word"
  assumes k: "k < LENGTH('a)" and z: "w AND top_mask k = 0" and nz: "w \<noteq> 0" and l: "leads (push_bit k w) d"
  shows "leads w (d + k)"
proof -
  let ?L = "LENGTH('a)"
  have top: "\<not> bit w i" if "?L - k \<le> i" for i using z k that by (simp add: top_clear)
  have low: "\<not> bit w i" if "?L - d \<le> i + k" "i + k < ?L" for i
    using l that by (auto simp: leads_def bit_push_bit_iff)
  have none: "\<not> bit w i" if "?L - (d + k) \<le> i" for i
    using top [of i] low [of i] that by (cases "?L - k \<le> i") auto
  have "d < ?L"
  proof (rule ccontr)
    assume "\<not> d < ?L"
    then have "\<not> bit w i" for i using none [of i] by simp
    then show False using nz by (simp add: bit_word_eqI)
  qed
  then have "bit (push_bit k w) (?L - Suc d)" using l by (simp add: leads_def)
  then have "k \<le> ?L - Suc d" "bit w (?L - Suc d - k)" by (auto simp: bit_push_bit_iff)
  then show ?thesis using none \<open>d < ?L\<close> by (auto simp: leads_def)
qed

text \<open>One step of the binary search for the top bit.\<close>

definition clz_step :: "'a::len word \<Rightarrow> nat \<Rightarrow> 'a word \<times> u8 \<Rightarrow> 'a word \<times> u8" where
  "clz_step m k vc = (if fst vc AND m = 0 then (push_bit k (fst vc), snd vc + of_nat k) else vc)"

definition clz_inv :: "'a::len word \<Rightarrow> nat \<Rightarrow> 'a word \<times> u8 \<Rightarrow> bool" where
  "clz_inv w k vc \<longleftrightarrow> fst vc AND top_mask k \<noteq> 0 \<and> unat (snd vc) + k \<le> LENGTH('a) \<and>
     (\<forall>d. leads (fst vc) d \<longrightarrow> leads w (d + unat (snd vc)))"

lemma clz_step_inv:
  fixes w :: "'a::len word"
  assumes inv: "clz_inv w (2 * k) vc" and k: "2 * k \<le> LENGTH('a)" "LENGTH('a) < 256" "0 < k"
  shows "clz_inv w k (clz_step (top_mask k) k vc)"
proof (cases "fst vc AND top_mask k = 0")
  case True
  let ?v = "fst vc" and ?c = "snd vc" and ?L = "LENGTH('a)"
  have "?v AND top_mask (2 * k) \<noteq> 0" using inv by (simp add: clz_inv_def)
  then obtain i where "?L - 2 * k \<le> i" "bit ?v i" using top_clear [of "2 * k" ?v] k(1) by auto
  moreover have "\<not> ?L - k \<le> i" using True top_clear [of k ?v] k(1) calculation by auto
  ultimately have "bit (push_bit k ?v) (i + k)" "?L - k \<le> i + k"
    using k by (auto simp: bit_push_bit_iff)
  then have "push_bit k ?v AND top_mask k \<noteq> 0" using top_clear [of k "push_bit k ?v"] k(1) by auto
  moreover have "unat ?c + 2 * k \<le> ?L" using inv by (simp add: clz_inv_def)
  then have "unat (?c + of_nat k) = unat ?c + k" using k(2)
    by (subst unat_add_lem [THEN iffD1]) (auto simp: unat_of_nat take_bit_nat_eq_self)
  moreover have "leads w (d + (unat ?c + k))" if "leads (push_bit k ?v) d" for d
  proof -
    have "?v \<noteq> 0" using \<open>bit ?v i\<close> by auto
    then have "leads ?v (d + k)" using True that k by (intro leads_shift) auto
    then show ?thesis using inv by (auto simp: clz_inv_def add.assoc add.commute)
  qed
  ultimately show ?thesis
    using True inv k by (simp add: clz_step_def clz_inv_def)
next
  case False
  then show ?thesis using inv by (simp add: clz_step_def clz_inv_def)
qed

lemma clz_start:
  fixes w :: "'a::len word"
  assumes "w \<noteq> 0"
  shows "clz_inv w (LENGTH('a)) (w, 0)"
proof -
  have "top_mask (LENGTH('a)) = (-1 :: 'a word)" by (rule bit_word_eqI) (simp add: bit_top_mask)
  then show ?thesis using assms by (simp add: clz_inv_def)
qed

lemma clz_finish:
  fixes w :: "'a::len word"
  assumes inv: "clz_inv w 1 vc" and L: "LENGTH('a) < 256"
  shows "leads w (unat (snd vc))"
proof -
  have "bit (fst vc) (LENGTH('a) - Suc 0)"
  proof -
    have "\<not> (fst vc AND top_mask 1 = 0)" using inv by (simp add: clz_inv_def)
    then obtain i where "LENGTH('a) - Suc 0 \<le> i" "bit (fst vc) i"
      using top_clear [of 1 "fst vc"] len_gt_0 [where 'a = 'a] by (auto simp: Suc_le_eq)
    moreover have "i < LENGTH('a)" using \<open>bit (fst vc) i\<close> by (rule bit_imp_le_length)
    ultimately have "i = LENGTH('a) - Suc 0" by simp
    with \<open>bit (fst vc) i\<close> show ?thesis by simp
  qed
  then have "leads (fst vc) 0" by (auto simp: leads_def dest: bit_imp_le_length)
  then show ?thesis using inv by (auto simp: clz_inv_def)
qed


lemma top_mask_8: "top_mask 1 = (0x80 :: u8)" "top_mask 2 = (0xC0 :: u8)" "top_mask 4 = (0xF0 :: u8)"
  by (simp_all add: top_mask_def mask_eq_exp_minus_1)

lemma top_mask_16: "top_mask 1 = (0x8000 :: u16)" "top_mask 2 = (0xC000 :: u16)"
  "top_mask 4 = (0xF000 :: u16)" "top_mask 8 = (0xFF00 :: u16)"
  by (simp_all add: top_mask_def mask_eq_exp_minus_1)

lemma top_mask_32: "top_mask 1 = (0x80000000 :: u32)" "top_mask 2 = (0xC0000000 :: u32)"
  "top_mask 4 = (0xF0000000 :: u32)" "top_mask 8 = (0xFF000000 :: u32)" "top_mask 16 = (0xFFFF0000 :: u32)"
  by code_simp+

lemma clz_step_let:
  "(if v AND m = 0 then (push_bit (numeral k) v, 0 + numeral k) else (v, 0)) = clz_step m (numeral k) (v, 0)"
  "(if fst x AND m = 0 then (push_bit (numeral k) (fst x), snd x + numeral k) else x) = clz_step m (numeral k) x"
  "(if fst x AND m = 0 then snd x + 1 else snd x) = snd (clz_step m 1 x)"
  by (simp_all add: clz_step_def)

lemma clz_steps:
  "value \<noteq> 0 \<Longrightarrow> common_count_leading_zeros_8 value =
     snd (clz_step 0x80 1 (clz_step 0xC0 2 (clz_step 0xF0 4 (value, 0))))"
  "v16 \<noteq> 0 \<Longrightarrow> common_count_leading_zeros_16 v16 =
     snd (clz_step 0x8000 1 (clz_step 0xC000 2 (clz_step 0xF000 4 (clz_step 0xFF00 8 (v16, 0)))))"
  "v32 \<noteq> 0 \<Longrightarrow> common_count_leading_zeros_32 v32 =
     snd (clz_step 0x80000000 1 (clz_step 0xC0000000 2 (clz_step 0xF0000000 4
       (clz_step 0xFF000000 8 (clz_step 0xFFFF0000 16 (v32, 0))))))"
  by (simp_all only: common_count_leading_zeros_8_def common_count_leading_zeros_16_def
      common_count_leading_zeros_32_def if_False Let_def [of "0 :: u8"] case_prod_beta'
      prod.collapse clz_step_let Let_def [of "clz_step m k x" for m k x])

lemma leads_zero: "leads (0 :: 'a::len word) (LENGTH('a))"
  by (simp add: leads_def)

text \<open>
  The three functions count the leading zeros: the top that many bits are clear and the next one is
  set, and for 0 the count is the width.
\<close>

theorem count_leading_zeros_correct:
  "leads v8 (unat (common_count_leading_zeros_8 v8)) \<and>
   leads v16 (unat (common_count_leading_zeros_16 v16)) \<and>
   leads v32 (unat (common_count_leading_zeros_32 v32))"
proof (intro conjI)
  show "leads v8 (unat (common_count_leading_zeros_8 v8))"
  proof (cases "v8 = 0")
    case True
    then show ?thesis using leads_zero [where 'a = 8] by (simp add: common_count_leading_zeros_8_def)
  next
    case False
    have "clz_inv v8 4 (clz_step 0xF0 4 (v8, 0))"
      using clz_step_inv [of v8 4] clz_start [OF False] by (simp add: top_mask_8)
    from clz_step_inv [of v8 2, OF _ _ _ _] this
    have "clz_inv v8 2 (clz_step 0xC0 2 (clz_step 0xF0 4 (v8, 0)))" by (simp add: top_mask_8)
    then have "clz_inv v8 1 (clz_step 0x80 1 (clz_step 0xC0 2 (clz_step 0xF0 4 (v8, 0))))"
      using clz_step_inv [of v8 1] by (simp add: top_mask_8 [simplified])
    from clz_finish [OF this] show ?thesis by (simp add: clz_steps(1) [OF False])
  qed
  show "leads v16 (unat (common_count_leading_zeros_16 v16))"
  proof (cases "v16 = 0")
    case True
    then show ?thesis using leads_zero [where 'a = 16] by (simp add: common_count_leading_zeros_16_def)
  next
    case False
    have "clz_inv v16 8 (clz_step 0xFF00 8 (v16, 0))"
      using clz_step_inv [of v16 8] clz_start [OF False] by (simp add: top_mask_16)
    then have "clz_inv v16 4 (clz_step 0xF000 4 (clz_step 0xFF00 8 (v16, 0)))"
      using clz_step_inv [of v16 4] by (simp add: top_mask_16)
    then have "clz_inv v16 2 (clz_step 0xC000 2 (clz_step 0xF000 4 (clz_step 0xFF00 8 (v16, 0))))"
      using clz_step_inv [of v16 2] by (simp add: top_mask_16)
    then have "clz_inv v16 1 (clz_step 0x8000 1 (clz_step 0xC000 2 (clz_step 0xF000 4 (clz_step 0xFF00 8 (v16, 0)))))"
      using clz_step_inv [of v16 1] by (simp add: top_mask_16 [simplified])
    from clz_finish [OF this] show ?thesis by (simp add: clz_steps(2) [OF False])
  qed
  show "leads v32 (unat (common_count_leading_zeros_32 v32))"
  proof (cases "v32 = 0")
    case True
    then show ?thesis using leads_zero [where 'a = 32] by (simp add: common_count_leading_zeros_32_def)
  next
    case False
    let ?s1 = "clz_step 0xFFFF0000 16 (v32, 0)"
    let ?s2 = "clz_step 0xFF000000 8 ?s1"
    let ?s3 = "clz_step 0xF0000000 4 ?s2"
    let ?s4 = "clz_step 0xC0000000 2 ?s3"
    have "clz_inv v32 16 ?s1" using clz_step_inv [of v32 16] clz_start [OF False] by (simp add: top_mask_32)
    then have "clz_inv v32 8 ?s2" using clz_step_inv [of v32 8] by (simp add: top_mask_32)
    then have "clz_inv v32 4 ?s3" using clz_step_inv [of v32 4] by (simp add: top_mask_32)
    then have "clz_inv v32 2 ?s4" using clz_step_inv [of v32 2] by (simp add: top_mask_32)
    then have "clz_inv v32 1 (clz_step 0x80000000 1 ?s4)"
      using clz_step_inv [of v32 1] by (simp add: top_mask_32 [simplified])
    from clz_finish [OF this] show ?thesis by (simp add: clz_steps(3) [OF False])
  qed
qed

text \<open>
  \<open>common_count_bits\<close> counts the set bits of a byte.
\<close>

theorem count_bits_correct:
  "unat (common_count_bits v) = length (filter (\<lambda>i. bit v i) [0..<8])"
proof -
  have "\<forall>v \<in> set (map (of_nat :: nat \<Rightarrow> u8) [0..<256]).
    unat (common_count_bits v) = length (filter (\<lambda>i. bit v i) [0..<8])"
    by code_simp
  moreover have "v \<in> set (map (of_nat :: nat \<Rightarrow> u8) [0..<256])"
    using unsigned_less [of v] by (auto simp: image_iff intro!: bexI [of _ "unat v"])
  ultimately show ?thesis by blast
qed

end
