(* ===== verification/CommonBits.thy ===== *)
theory CommonBits
  imports CommonFunctions
begin

text \<open>
  The serial numbers and the bit strings of \<open>common_functions.h\<close> and \<open>libBits/common_functions.c\<close>. A bit
  string is related to the list of its bits, most significant bit of the first byte first.
\<close>

section \<open>Serial numbers\<close>

text \<open>
  The comparisons of RFC 1982. The 8 and 16 bit differences are computed in \<open>int\<close>, the 32 bit ones in
  \<open>uint32_t\<close>.
\<close>

definition common_serial_number_greater_8 :: "u8 \<Rightarrow> u8 \<Rightarrow> bool" where
  "common_serial_number_greater_8 s1 s2 \<longleftrightarrow>
     s1 > s2 \<and> uint s1 - uint s2 < 0x80 \<or> s1 < s2 \<and> uint s2 - uint s1 > 0x80"

definition common_serial_number_greater_16 :: "u16 \<Rightarrow> u16 \<Rightarrow> bool" where
  "common_serial_number_greater_16 s1 s2 \<longleftrightarrow>
     s1 > s2 \<and> uint s1 - uint s2 < 0x8000 \<or> s1 < s2 \<and> uint s2 - uint s1 > 0x8000"

definition common_serial_number_greater_32 :: "u32 \<Rightarrow> u32 \<Rightarrow> bool" where
  "common_serial_number_greater_32 s1 s2 \<longleftrightarrow>
     s1 > s2 \<and> s1 - s2 < 0x80000000 \<or> s1 < s2 \<and> s2 - s1 > 0x80000000"

lemma half_window:
  fixes A B h :: int
  assumes "0 \<le> A" "A < 2 * h" "0 \<le> B" "B < 2 * h"
  shows "A > B \<and> A - B < h \<or> A < B \<and> B - A > h \<longleftrightarrow>
    0 < (if B \<le> A then A - B else A - B + 2 * h) \<and> (if B \<le> A then A - B else A - B + 2 * h) < h"
  using assms by auto

lemma advance_ex: "(\<exists>n. 0 < n \<and> n < h \<and> x = y + n) \<longleftrightarrow> 0 < x - y \<and> x - y < h"
  for h x y :: "'a::len word"
  by (auto simp: algebra_simps)

lemma uint_range: "0 \<le> uint w" "uint (w :: 'a::len word) < 2 ^ LENGTH('a)"
  by (simp_all add: uint_lt2p)

text \<open>
  C27. Serial number \<open>s1\<close> is greater than \<open>s2\<close> when it is \<open>s2\<close> advanced by less than half the number space,
  going around the end if need be: the three functions compute the same relation on their widths.
\<close>

theorem serial_number_greater_rfc1982:
  "(common_serial_number_greater_8 a b \<longleftrightarrow> (\<exists>n. 0 < n \<and> n < 0x80 \<and> a = b + n)) \<and>
   (common_serial_number_greater_16 c d \<longleftrightarrow> (\<exists>n. 0 < n \<and> n < 0x8000 \<and> c = d + n)) \<and>
   (common_serial_number_greater_32 e f \<longleftrightarrow> (\<exists>n. 0 < n \<and> n < 0x80000000 \<and> e = f + n))"
proof (intro conjI)
  show "common_serial_number_greater_8 a b \<longleftrightarrow> (\<exists>n. 0 < n \<and> n < 0x80 \<and> a = b + n)"
    unfolding advance_ex unfolding common_serial_number_greater_8_def word_less_def uint_sub_if'
    using half_window [of "uint a" "0x80" "uint b"] uint_range [of a] uint_range [of b] by simp
  show "common_serial_number_greater_16 c d \<longleftrightarrow> (\<exists>n. 0 < n \<and> n < 0x8000 \<and> c = d + n)"
    unfolding advance_ex unfolding common_serial_number_greater_16_def word_less_def uint_sub_if'
    using half_window [of "uint c" "0x8000" "uint d"] uint_range [of c] uint_range [of d] by simp
  show "common_serial_number_greater_32 e f \<longleftrightarrow> (\<exists>n. 0 < n \<and> n < 0x80000000 \<and> e = f + n)"
    unfolding advance_ex unfolding common_serial_number_greater_32_def word_less_def uint_sub_if'
    using half_window [of "uint e" "0x80000000" "uint f"] uint_range [of e] uint_range [of f] by auto
qed

section \<open>Bit strings\<close>

definition bit_test :: "u8 list \<Rightarrow> u8 \<Rightarrow> bool" where
  "bit_test bitset b \<longleftrightarrow> bitset ! unat (drop_bit 3 b) AND drop_bit (unat (b AND 7)) 0x80 \<noteq> 0"

definition bit_set :: "u8 list \<Rightarrow> u8 \<Rightarrow> u8 list" where
  "bit_set bitset b =
     bitset[unat (drop_bit 3 b) := bitset ! unat (drop_bit 3 b) OR drop_bit (unat (b AND 7)) 0x80]"

definition bit_clear :: "u8 list \<Rightarrow> u8 \<Rightarrow> u8 list" where
  "bit_clear bitset b =
     bitset[unat (drop_bit 3 b) := bitset ! unat (drop_bit 3 b) AND NOT (drop_bit (unat (b AND 7)) 0x80)]"

text \<open>The expression is computed in \<open>unsigned int\<close> and then cut to a byte.\<close>

definition context_split_mask :: "u8 \<Rightarrow> u8" where
  "context_split_mask split_value = ucast (- drop_bit (unat split_value) (0x100 :: u32))"

definition bitsequal :: "u8 list \<Rightarrow> u8 list \<Rightarrow> u8 \<Rightarrow> bool" where
  "bitsequal a b bits =
     (let bytes = unat (bits div 8); bits = bits mod 8
      in if bytes \<noteq> 0 \<and> take bytes a \<noteq> take bytes b then False
         else if bits \<noteq> 0 then
           (let split_bit = context_split_mask bits
            in if a ! bytes AND split_bit \<noteq> b ! bytes AND split_bit then False else True)
         else True)"

text \<open>The destination buffer after the copy, and the offset of the pointer that is returned.\<close>

definition bitcopy :: "u8 list \<Rightarrow> u8 list \<Rightarrow> u8 \<Rightarrow> u8 list \<times> nat" where
  "bitcopy dst src bits =
     (let bytes = unat (bits div 8); bits = bits mod 8;
          (buf, p) = (if bytes \<noteq> 0 then (take bytes src @ drop bytes dst, bytes) else (dst, 0));
          buf = (if bits \<noteq> 0 then
                   let split_bit = context_split_mask bits
                   in buf[p := (src ! p AND split_bit) OR (buf ! p AND NOT split_bit)]
                 else buf)
      in (buf, p))"

definition bitcopy0 :: "u8 list \<Rightarrow> u8 list \<Rightarrow> u8 \<Rightarrow> u8 list \<times> nat" where
  "bitcopy0 dst src bits =
     (let bytes = unat (bits div 8); bits = bits mod 8;
          (buf, p) = (if bytes \<noteq> 0 then (take bytes src @ drop bytes dst, bytes) else (dst, 0));
          buf = (if bits \<noteq> 0 then
                   let split_bit = context_split_mask bits in buf[p := src ! p AND split_bit]
                 else buf)
      in (buf, p))"

text \<open>A byte string as bits, most significant bit of the first byte first.\<close>

definition byte_bits :: "u8 \<Rightarrow> bool list" where
  "byte_bits b = map (\<lambda>i. bit b (7 - i)) [0..<8]"

definition bits_of :: "u8 list \<Rightarrow> bool list" where
  "bits_of bs = concat (map byte_bits bs)"

lemma length_byte_bits [simp]: "length (byte_bits b) = 8"
  by (simp add: byte_bits_def)

lemma bits_of_simps [simp]:
  "bits_of [] = []" "bits_of (b # bs) = byte_bits b @ bits_of bs" "bits_of (xs @ ys) = bits_of xs @ bits_of ys"
  by (simp_all add: bits_of_def)

lemma length_bits_of [simp]: "length (bits_of bs) = 8 * length bs"
  by (induction bs) auto

lemma byte_bits_inject [simp]: "byte_bits a = byte_bits b \<longleftrightarrow> a = b"
proof
  assume "byte_bits a = byte_bits b"
  then have *: "bit a (7 - i) = bit b (7 - i)" if "i < 8" for i
    using arg_cong [of _ _ "\<lambda>l. l ! i"] that by (force simp: byte_bits_def)
  have "bit a j = bit b j" if "j < 8" for j using * [of "7 - j"] that by simp
  then show "a = b" by (intro bit_word_eqI) simp
qed simp

lemma bits_of_inject [simp]: "length a = length b \<Longrightarrow> bits_of a = bits_of b \<longleftrightarrow> a = b"
  by (induction a b rule: list_induct2) auto

lemma byte_bits_nth: "i < 8 \<Longrightarrow> byte_bits b ! i = bit b (7 - i)"
  by (simp add: byte_bits_def)

lemma bits_of_nth: "i < 8 * length bs \<Longrightarrow> bits_of bs ! i = bit (bs ! (i div 8)) (7 - i mod 8)"
proof (induction bs arbitrary: i)
  case (Cons b bs)
  then show ?case by (cases "i < 8") (auto simp: nth_append byte_bits_nth le_div_geq le_mod_geq)
qed simp


lemma bits_of_take: "bits_of (take n bs) = take (8 * n) (bits_of bs)"
  by (induction bs arbitrary: n) (auto simp: take_Cons split: nat.split)

lemma bits_of_drop: "bits_of (drop n bs) = drop (8 * n) (bits_of bs)"
  by (induction bs arbitrary: n) (auto simp: drop_Cons split: nat.split)

lemma bits_of_update:
  "q < length bs \<Longrightarrow> bits_of (bs[q := v]) = take (8 * q) (bits_of bs) @ byte_bits v @ drop (8 * Suc q) (bits_of bs)"
  by (simp add: upd_conv_take_nth_drop bits_of_take bits_of_drop)

lemma bits_of_split:
  "q < length bs \<Longrightarrow> bits_of bs = take (8 * q) (bits_of bs) @ byte_bits (bs ! q) @ drop (8 * Suc q) (bits_of bs)"
  using bits_of_update [of q bs "bs ! q"] by simp

subsection \<open>Single bits\<close>

lemma bit_index: "unat (drop_bit 3 b) = unat b div 8" "unat (b AND 7) = unat b mod 8" for b :: u8
proof -
  show "unat (drop_bit 3 b) = unat b div 8" by (simp add: drop_bit_eq_div unat_div_distrib)
  have "b AND 7 = take_bit 3 b" by (simp add: take_bit_eq_mask mask_eq_exp_minus_1)
  then show "unat (b AND 7) = unat b mod 8" by (simp add: take_bit_eq_mod unat_mod_distrib)
qed

lemma bit_mask_byte:
  assumes "k < 8"
  shows "bit (drop_bit k (0x80 :: u8)) i \<longleftrightarrow> i = 7 - k"
proof -
  have "k \<in> set [0..<8]" using assms by simp
  moreover have "\<forall>k \<in> set [0..<8]. drop_bit k (0x80 :: u8) = push_bit (7 - k) 1" by code_simp
  ultimately have "drop_bit k (0x80 :: u8) = push_bit (7 - k) 1" by blast
  then show ?thesis using assms by (auto simp only: bit_push_bit_iff bit_1_iff) auto
qed

lemma byte_bits_upd:
  assumes k: "k < 8"
  shows "byte_bits (v OR drop_bit k 0x80) = (byte_bits v)[k := True]"
    "byte_bits (v AND NOT (drop_bit k 0x80)) = (byte_bits v)[k := False]"
proof -
  have e: "7 - i = 7 - k \<longleftrightarrow> i = k" if "i < 8" for i using that k by arith
  show "byte_bits (v OR drop_bit k 0x80) = (byte_bits v)[k := True]"
    "byte_bits (v AND NOT (drop_bit k 0x80)) = (byte_bits v)[k := False]"
    by (rule nth_equalityI,
        simp_all add: byte_bits_nth bit_or_iff bit_and_iff bit_not_iff bit_mask_byte [OF k] nth_list_update e k
          less_imp_diff_less)+
qed

lemma byte_and_mask:
  fixes v :: u8
  assumes k: "k < 8"
  shows "v AND drop_bit k 0x80 \<noteq> 0 \<longleftrightarrow> bit v (7 - k)"
proof
  assume "v AND drop_bit k 0x80 \<noteq> 0"
  then obtain i where "bit (v AND drop_bit k 0x80) i" by (metis bit_0_eq bot_apply bot_bool_def bit_word_eqI)
  then show "bit v (7 - k)" by (auto simp: bit_and_iff bit_mask_byte [OF k])
next
  assume "bit v (7 - k)"
  then have "bit (v AND drop_bit k 0x80) (7 - k)" by (simp add: bit_and_iff bit_mask_byte [OF k])
  then show "v AND drop_bit k 0x80 \<noteq> 0" by auto
qed

lemma list_update_middle:
  "length xs = n \<Longrightarrow> r < length ys \<Longrightarrow> (xs @ ys @ zs)[n + r := v] = xs @ ys[r := v] @ zs"
  by (simp add: list_update_append)

text \<open>
  The bit array functions see the array as one string of bits, first the most significant bit of the
  first byte: \<open>bit_test\<close> reads bit \<open>b\<close>, \<open>bit_set\<close> and \<open>bit_clear\<close> change that bit and no other.
\<close>

theorem bit_array_functions:
  assumes "unat b < 8 * length bitset"
  shows "bit_test bitset b = bits_of bitset ! unat b \<and>
    bits_of (bit_set bitset b) = (bits_of bitset)[unat b := True] \<and>
    bits_of (bit_clear bitset b) = (bits_of bitset)[unat b := False]"
proof -
  let ?q = "unat b div 8" and ?r = "unat b mod 8"
  have q: "?q < length bitset" using assms by auto
  have i: "8 * ?q + ?r = unat b" by simp
  have len: "length (take (8 * ?q) (bits_of bitset)) = 8 * ?q" using q by simp
  have "(bits_of bitset)[unat b := v] =
      take (8 * ?q) (bits_of bitset) @ (byte_bits (bitset ! ?q))[?r := v] @ drop (8 * Suc ?q) (bits_of bitset)" for v
    using list_update_middle [OF len, of ?r "byte_bits (bitset ! ?q)" "drop (8 * Suc ?q) (bits_of bitset)" v]
    unfolding bits_of_split [OF q, symmetric] i by simp
  with q assms show ?thesis
    by (simp add: bit_test_def bit_set_def bit_clear_def bit_index byte_and_mask bits_of_nth
        bits_of_update byte_bits_upd)
qed

theorem bit_array_functions_witness:
  "bit_test [0x00, 0x40] 9 \<and> bit_set [0, 0] 9 = [0, 0x40]"
proof -
  have h: "unat (9 :: u8) < 8 * length [0x00 :: u8, 0x40]" by simp
  from bit_array_functions [OF h] have "bit_test [0x00, 0x40] 9 = bits_of [0x00, 0x40] ! 9" by simp
  then show ?thesis by (simp add: bits_of_def byte_bits_def bit_set_def) code_simp
qed


subsection \<open>Strings of bits\<close>

text \<open>Rounding a number of bits to bytes.\<close>

lemma partial_byte: "n \<le> 8 * k \<Longrightarrow> n mod 8 \<noteq> 0 \<Longrightarrow> n div 8 < k" for n k :: nat
proof (rule ccontr)
  assume a: "n \<le> 8 * k" "n mod 8 \<noteq> 0" "\<not> n div 8 < k"
  then have "8 * k \<le> 8 * (n div 8)" by simp
  moreover have "n = 8 * (n div 8) + n mod 8" by simp
  ultimately show False using a(1,2) by linarith
qed

lemma round_up_byte:
  "n mod 8 = 0 \<Longrightarrow> (n + 7) div 8 = n div 8"
  "n mod 8 \<noteq> 0 \<Longrightarrow> (n + 7) div 8 = n div 8 + 1" for n :: nat
proof -
  have "(n mod 8 + 7 + 8 * (n div 8)) div 8 = n div 8 + (n mod 8 + 7) div 8" by (rule div_mult_self2) simp
  moreover have "n mod 8 + 7 + 8 * (n div 8) = n + 7" using mult_div_mod_eq [of 8 n] by linarith
  ultimately have e: "(n + 7) div 8 = n div 8 + (n mod 8 + 7) div 8" by simp
  show "n mod 8 = 0 \<Longrightarrow> (n + 7) div 8 = n div 8" using e by simp
  assume "n mod 8 \<noteq> 0"
  moreover have "n mod 8 < 8" by simp
  ultimately have "(n mod 8 + 7) div 8 = 1" by (intro div_nat_eqI) simp_all
  with e show "(n + 7) div 8 = n div 8 + 1" by simp
qed

lemma context_split_mask_bit:
  assumes "k < 8"
  shows "bit (context_split_mask (of_nat k)) i \<longleftrightarrow> 8 - k \<le> i \<and> i < 8"
proof -
  have "k \<in> set [0..<8]" using assms by simp
  moreover have "\<forall>k \<in> set [0..<8]. context_split_mask (of_nat k) = push_bit (8 - k) (mask k)" by code_simp
  ultimately have "context_split_mask (of_nat k) = push_bit (8 - k) (mask k)" by blast
  then show ?thesis using assms by (auto simp: bit_push_bit_iff bit_mask_iff dest: bit_imp_le_length)
qed

lemma byte_bits_cong: "byte_bits a = map (\<lambda>i. bit a (7 - i)) [0..<8]"
  by (rule byte_bits_def)

lemma byte_bits_copy:
  assumes k: "k < 8"
  shows "byte_bits ((s AND context_split_mask (of_nat k)) OR (d AND NOT (context_split_mask (of_nat k)))) =
      take k (byte_bits s) @ drop k (byte_bits d)"
    "byte_bits (s AND context_split_mask (of_nat k)) = take k (byte_bits s) @ replicate (8 - k) False"
proof -
  have m: "8 - k \<le> 7 - i \<longleftrightarrow> i < k" if "i < 8" for i using that k by arith
  show "byte_bits ((s AND context_split_mask (of_nat k)) OR (d AND NOT (context_split_mask (of_nat k)))) =
      take k (byte_bits s) @ drop k (byte_bits d)"
    "byte_bits (s AND context_split_mask (of_nat k)) = take k (byte_bits s) @ replicate (8 - k) False"
    by (rule nth_equalityI, use k in simp,
        simp add: byte_bits_nth bit_or_iff bit_and_iff bit_not_iff context_split_mask_bit [OF k] nth_append
          less_imp_diff_less m k)+
qed

lemma byte_bits_eq_prefix:
  assumes k: "k < 8"
  shows "a AND context_split_mask (of_nat k) = b AND context_split_mask (of_nat k) \<longleftrightarrow>
    take k (byte_bits a) = take k (byte_bits b)"
  using byte_bits_inject [of "a AND context_split_mask (of_nat k)" "b AND context_split_mask (of_nat k)"]
  by (simp add: byte_bits_copy [OF k])

lemma bits_parts:
  fixes n :: u8
  shows "unat (n div 8) = unat n div 8" "n mod 8 = of_nat (unat n mod 8)" "n mod 8 = 0 \<longleftrightarrow> unat n mod 8 = 0"
    "(of_nat (unat n mod 8) :: u8) = 0 \<longleftrightarrow> unat n mod 8 = 0"
proof -
  show "unat (n div 8) = unat n div 8" by (simp add: unat_div_distrib)
  have m: "unat (n mod 8) = unat n mod 8" by (simp add: unat_mod_distrib)
  then show e: "n mod 8 = of_nat (unat n mod 8)" by (metis word_of_nat_eq_iff ucast_id of_nat_unat)
  show z: "n mod 8 = 0 \<longleftrightarrow> unat n mod 8 = 0" using m by (simp add: unat_eq_0 [symmetric])
  show "(of_nat (unat n mod 8) :: u8) = 0 \<longleftrightarrow> unat n mod 8 = 0" using z unfolding e .
qed

lemma take_bits_split:
  assumes "q * 8 + r \<le> 8 * length bs" "r < 8" "r \<noteq> 0"
  shows "take (8 * q + r) (bits_of bs) = bits_of (take q bs) @ take r (byte_bits (bs ! q))"
proof -
  have q: "q < length bs" using assms by auto
  then have len: "length (take (8 * q) (bits_of bs)) = 8 * q" by simp
  show ?thesis
    by (subst bits_of_split [OF q]) (use assms(2) len in \<open>simp add: bits_of_take take_add\<close>)
qed

text \<open>
  C28. \<open>bitsequal\<close> compares exactly the first \<open>n\<close> bits of the two strings.
\<close>

theorem bitsequal_correct:
  assumes "unat n \<le> 8 * length a" "unat n \<le> 8 * length b"
  shows "bitsequal a b n \<longleftrightarrow> take (unat n) (bits_of a) = take (unat n) (bits_of b)"
proof -
  let ?q = "unat n div 8" and ?r = "unat n mod 8"
  have n: "unat n = 8 * ?q + ?r" by simp
  have head: "(?q = 0 \<or> take ?q a = take ?q b) \<longleftrightarrow> bits_of (take ?q a) = bits_of (take ?q b)"
    using assms by (cases "?q = 0") (auto simp: bits_of_inject)
  show ?thesis
  proof (cases "?r = 0")
    case True
    then have "take (unat n) (bits_of x) = bits_of (take ?q x)" for x by (subst n) (simp add: bits_of_take)
    moreover have "bitsequal a b n \<longleftrightarrow> ?q = 0 \<or> take ?q a = take ?q b"
      using True by (simp add: bitsequal_def Let_def bits_parts)
    ultimately show ?thesis using head by simp
  next
    case False
    have s: "take (unat n) (bits_of x) = bits_of (take ?q x) @ take ?r (byte_bits (x ! ?q))"
      if "unat n \<le> 8 * length x" for x
      using take_bits_split [of ?q ?r x] that False by simp
    have "length (bits_of (take ?q a)) = length (bits_of (take ?q b))" using assms by simp
    then have "take (unat n) (bits_of a) = take (unat n) (bits_of b) \<longleftrightarrow>
        bits_of (take ?q a) = bits_of (take ?q b) \<and> take ?r (byte_bits (a ! ?q)) = take ?r (byte_bits (b ! ?q))"
      by (simp add: s assms)
    moreover have "bitsequal a b n \<longleftrightarrow> (?q = 0 \<or> take ?q a = take ?q b) \<and>
        take ?r (byte_bits (a ! ?q)) = take ?r (byte_bits (b ! ?q))"
      using False by (auto simp: bitsequal_def Let_def bits_parts byte_bits_eq_prefix)
    ultimately show ?thesis using head by blast
  qed
qed

theorem bitsequal_correct_witness:
  "bitsequal [0xAB, 0xC0] [0xAB, 0xDF] 11"
proof -
  have h: "unat (11 :: u8) \<le> 8 * length [0xAB :: u8, 0xC0]" "unat (11 :: u8) \<le> 8 * length [0xAB :: u8, 0xDF]"
    by simp_all
  show ?thesis unfolding bitsequal_correct [OF h] by code_simp
qed

lemma copied_bytes:
  assumes "q \<le> length src" "q \<le> length dst"
  shows "(if q \<noteq> 0 then (take q src @ drop q dst, q) else (dst, 0)) = (take q src @ drop q dst, q)"
  by simp

lemma bits_of_copied:
  assumes q: "q < length src" "q < length dst" and r: "r < 8" and b: "length (byte_bits v) = 8"
  shows "bits_of ((take q src @ drop q dst)[q := v]) = take (8 * q) (bits_of src) @ byte_bits v @ drop (8 * q + 8) (bits_of dst)"
proof -
  have "drop q dst = dst ! q # drop (Suc q) dst" using q(2) by (rule Cons_nth_drop_Suc [symmetric])
  then have "(take q src @ drop q dst)[q := v] = take q src @ v # drop (Suc q) dst"
    using q by (simp add: list_update_append)
  then show ?thesis by (simp add: bits_of_take bits_of_drop add.commute)
qed

lemma drop_bits_split:
  assumes "q < length bs" "r < 8"
  shows "drop (8 * q + r) (bits_of bs) = drop r (byte_bits (bs ! q)) @ drop (8 * q + 8) (bits_of bs)"
proof -
  have len: "length (take (8 * q) (bits_of bs)) = 8 * q" using assms by simp
  show ?thesis by (subst bits_of_split [OF assms(1)]) (use assms(2) len in \<open>simp add: add.commute\<close>)
qed

lemma bitcopy_result:
  assumes "unat n \<le> 8 * length dst" "unat n \<le> 8 * length src"
  shows "bits_of (fst (bitcopy dst src n)) = take (unat n) (bits_of src) @ drop (unat n) (bits_of dst) \<and>
    length (fst (bitcopy dst src n)) = length dst \<and> snd (bitcopy dst src n) = unat n div 8"
proof -
  let ?q = "unat n div 8" and ?r = "unat n mod 8"
  have n: "unat n = 8 * ?q + ?r" by simp
  have q: "?q \<le> length src" "?q \<le> length dst" using assms by auto
  show ?thesis
  proof (cases "?r = 0")
    case True
    have "take (unat n) (bits_of src) = bits_of (take ?q src)" "drop (unat n) (bits_of dst) = bits_of (drop ?q dst)"
      using True by (subst n, simp add: bits_of_take bits_of_drop)+
    then show ?thesis
      using True q by (simp add: bitcopy_def Let_def bits_parts split_def)
  next
    case False
    have q': "?q < length src" "?q < length dst" using assms False by (simp_all add: partial_byte)
    let ?m = "context_split_mask (of_nat ?r)"
    have b: "byte_bits ((src ! ?q AND ?m) OR ((take ?q src @ drop ?q dst) ! ?q AND NOT ?m)) =
        take ?r (byte_bits (src ! ?q)) @ drop ?r (byte_bits (dst ! ?q))"
      using q' by (simp add: byte_bits_copy nth_append)
    have "bitcopy dst src n =
        ((take ?q src @ drop ?q dst)[?q := (src ! ?q AND ?m) OR ((take ?q src @ drop ?q dst) ! ?q AND NOT ?m)], ?q)"
      using False unfolding bitcopy_def Let_def bits_parts copied_bytes [OF q] by simp
    moreover have "take (unat n) (bits_of src) = take (8 * ?q) (bits_of src) @ take ?r (byte_bits (src ! ?q))"
      using take_bits_split [of ?q ?r src] assms(2) False by (simp add: bits_of_take)
    moreover have "drop (unat n) (bits_of dst) = drop ?r (byte_bits (dst ! ?q)) @ drop (8 * ?q + 8) (bits_of dst)"
      using drop_bits_split [OF q'(2), of ?r] by simp
    ultimately show ?thesis
      using bits_of_copied [OF q', of ?r] b q' by simp
  qed
qed

text \<open>
  C29. \<open>bitcopy\<close> replaces exactly the first \<open>n\<close> bits of the destination by those of the source, and
  returns the pointer advanced past the whole bytes copied.
\<close>

theorem bitcopy_correct:
  assumes "unat n \<le> 8 * length dst" "unat n \<le> 8 * length src"
  shows "bits_of (fst (bitcopy dst src n)) = take (unat n) (bits_of src) @ drop (unat n) (bits_of dst) \<and>
    length (fst (bitcopy dst src n)) = length dst \<and> snd (bitcopy dst src n) = unat n div 8"
  using bitcopy_result [OF assms] .

theorem bitcopy_correct_witness:
  "bits_of (fst (bitcopy [0xFF, 0xFF] [0xA0, 0x00] 4)) = bits_of [0xAF, 0xFF]"
proof -
  have h: "unat (4 :: u8) \<le> 8 * length [0xFF :: u8, 0xFF]" "unat (4 :: u8) \<le> 8 * length [0xA0 :: u8, 0x00]"
    by simp_all
  show ?thesis unfolding bitcopy_correct [OF h, THEN conjunct1] by code_simp
qed

text \<open>
  \<open>bitcopy0\<close> copies the first \<open>n\<close> bits and clears the rest of the last byte it writes; the bytes after
  that one stay.
\<close>

theorem bitcopy0_correct:
  assumes "unat n \<le> 8 * length dst" "unat n \<le> 8 * length src"
  shows "bits_of (fst (bitcopy0 dst src n)) = take (unat n) (bits_of src) @
      replicate (8 * ((unat n + 7) div 8) - unat n) False @ drop (8 * ((unat n + 7) div 8)) (bits_of dst) \<and>
    length (fst (bitcopy0 dst src n)) = length dst \<and> snd (bitcopy0 dst src n) = unat n div 8"
proof -
  let ?q = "unat n div 8" and ?r = "unat n mod 8"
  have n: "unat n = 8 * ?q + ?r" by simp
  have q: "?q \<le> length src" "?q \<le> length dst" using assms by auto
  show ?thesis
  proof (cases "?r = 0")
    case True
    then have "(unat n + 7) div 8 = ?q" "8 * ?q = unat n" using n by (simp_all add: round_up_byte(1))
    moreover have "take (unat n) (bits_of src) = bits_of (take ?q src)" "drop (unat n) (bits_of dst) = bits_of (drop ?q dst)"
      using True by (subst n, simp add: bits_of_take bits_of_drop)+
    ultimately show ?thesis
      using True q by (simp add: bitcopy0_def Let_def bits_parts split_def)
  next
    case False
    have q': "?q < length src" "?q < length dst" using assms False by (simp_all add: partial_byte)
    let ?m = "context_split_mask (of_nat ?r)"
    have up: "8 * ((unat n + 7) div 8) = 8 * ?q + 8" using round_up_byte(2) [OF False] by simp
    then have pad: "8 * ((unat n + 7) div 8) - unat n = 8 - ?r" using n by linarith
    have b: "byte_bits (src ! ?q AND ?m) = take ?r (byte_bits (src ! ?q)) @ replicate (8 - ?r) False"
      by (simp add: byte_bits_copy)
    have "bitcopy0 dst src n = ((take ?q src @ drop ?q dst)[?q := src ! ?q AND ?m], ?q)"
      using False unfolding bitcopy0_def Let_def bits_parts copied_bytes [OF q] by simp
    moreover have "take (unat n) (bits_of src) = take (8 * ?q) (bits_of src) @ take ?r (byte_bits (src ! ?q))"
      using take_bits_split [of ?q ?r src] assms(2) False by (simp add: bits_of_take)
    ultimately show ?thesis
      using bits_of_copied [OF q', of ?r] b q' unfolding up pad [unfolded up] by simp
  qed
qed

theorem bitcopy0_correct_witness:
  "bits_of (fst (bitcopy0 [0xFF, 0xFF] [0xAB, 0x00] 4)) = bits_of [0xA0, 0xFF]"
proof -
  have h: "unat (4 :: u8) \<le> 8 * length [0xFF :: u8, 0xFF]" "unat (4 :: u8) \<le> 8 * length [0xAB :: u8, 0x00]"
    by simp_all
  show ?thesis unfolding bitcopy0_correct [OF h, THEN conjunct1] by code_simp
qed

end
