(* ===== verification/Checksum.thy ===== *)
theory Checksum
  imports Prelude
begin

text \<open>
  The Internet checksum of \<open>IPv6_fcf_lib/ip_fsc.c\<close>. A gather list is a list of byte strings, one per
  \<open>ns_iovec_t\<close>; the accumulator is 32 bits wide.
\<close>

section \<open>The code\<close>

text \<open>The inner loop over pairs of bytes: the accumulator and what is left, at most one byte.\<close>

fun fcf_pairs :: "u32 \<Rightarrow> u8 list \<Rightarrow> u32 \<times> u8 list" where
  "fcf_pairs acc32 (d0 # d1 # data) = fcf_pairs (acc32 + (push_bit 8 (ucast d0) OR ucast d1)) data"
| "fcf_pairs acc32 data = (acc32, data)"

definition fcf_segment :: "u32 \<times> bool \<Rightarrow> u8 list \<Rightarrow> u32 \<times> bool" where
  "fcf_segment s data =
     (let (acc32, odd) = s;
          (acc32, odd, data) =
            (if odd \<and> data \<noteq> [] then (acc32 + ucast (hd data), False, tl data) else (acc32, odd, data));
          (acc32, data) = fcf_pairs acc32 data
      in if data \<noteq> [] then (acc32 + push_bit 8 (ucast (hd data)), True) else (acc32, odd))"

definition fcf_fold :: "u32 \<Rightarrow> u16" where
  "fcf_fold acc32 =
     (let acc32 = drop_bit 16 acc32 + (acc32 AND 0xffff);
          sum16 = (ucast (drop_bit 16 acc32 + (acc32 AND 0xffff)) :: u16)
      in NOT sum16)"

definition ip_fcf_v :: "u8 list list \<Rightarrow> u16" where
  "ip_fcf_v vec = fcf_fold (fst (foldl fcf_segment (0, False) vec))"

definition ipv6_fcf :: "u8 list \<Rightarrow> u8 list \<Rightarrow> u16 \<Rightarrow> u8 list \<Rightarrow> u8 \<Rightarrow> u16" where
  "ipv6_fcf src_address dest_address data_length data_ptr next_protocol =
     (let hdr_data = [ucast (drop_bit 8 data_length), ucast data_length, 0, next_protocol];
          vec = [take 16 src_address, take 16 dest_address, hdr_data, take (unat data_length) data_ptr]
      in ip_fcf_v vec)"

section \<open>Reference: the sum of 16-bit words\<close>

text \<open>The sum of the big-endian 16-bit words of a byte string, padded with a zero byte.\<close>

fun word_sum :: "u8 list \<Rightarrow> nat" where
  "word_sum (d0 # d1 # data) = 256 * unat d0 + unat d1 + word_sum data"
| "word_sum [d0] = 256 * unat d0"
| "word_sum [] = 0"

text \<open>The one's complement sum: carries out of 16 bits are added back in.\<close>

definition ones_sum :: "nat \<Rightarrow> nat" where
  "ones_sum n = (if n = 0 then 0 else (n - 1) mod 65535 + 1)"

lemma word_sum_append_even: "even (length xs) \<Longrightarrow> word_sum (xs @ ys) = word_sum xs + word_sum ys"
  by (induction xs rule: word_sum.induct) auto

lemma word_sum_append_odd:
  "odd (length xs) \<Longrightarrow> word_sum (xs @ y # ys) = word_sum xs + unat y + word_sum ys"
  by (induction xs rule: word_sum.induct) auto

lemma pair_value: "push_bit 8 (ucast d0) OR ucast d1 = (of_nat (256 * unat d0 + unat d1) :: u32)" for d0 d1 :: u8
proof -
  have "push_bit 8 (ucast d0) OR ucast d1 = push_bit 8 (ucast d0) + (ucast d1 :: u32)"
    by (rule disjunctive_add [symmetric]) (auto simp: bit_push_bit_iff bit_ucast_iff dest: bit_imp_le_length)
  also have "\<dots> = of_nat (256 * unat d0 + unat d1)"
    by (simp add: push_bit_eq_mult)
  finally show ?thesis .
qed

lemma high_value: "push_bit 8 (ucast d0) = (of_nat (256 * unat d0) :: u32)" for d0 :: u8
  by (simp add: push_bit_eq_mult)

lemma fcf_pairs_result:
  "fcf_pairs acc data = (acc', rest) \<Longrightarrow>
     (rest = [] \<and> even (length data) \<and> acc' = acc + of_nat (word_sum data)) \<or>
     (\<exists>d. rest = [d] \<and> odd (length data) \<and> acc' + push_bit 8 (ucast d) = acc + of_nat (word_sum data))"
proof (induction acc data arbitrary: acc' rest rule: fcf_pairs.induct)
  case (1 acc d0 d1 data)
  then show ?case by (fastforce simp: pair_value algebra_simps)
qed (auto simp: high_value)

lemma fcf_segment_result:
  assumes "acc = of_nat (word_sum xs)"
  shows "fcf_segment (acc, odd (length xs)) data = (of_nat (word_sum (xs @ data)), odd (length (xs @ data)))"
proof (cases "odd (length xs) \<and> data \<noteq> []")
  case True
  then obtain d ds where d: "data = d # ds" by (cases data) auto
  obtain acc' rest where p: "fcf_pairs (acc + ucast d) ds = (acc', rest)" by (metis surj_pair)
  have "acc + ucast d + of_nat (word_sum ds) = of_nat (word_sum (xs @ d # ds))"
    using True assms by (simp add: word_sum_append_odd)
  with fcf_pairs_result [OF p] True d p show ?thesis
    by (auto simp: fcf_segment_def Let_def)
next
  case False
  obtain acc' rest where p: "fcf_pairs acc data = (acc', rest)" by (metis surj_pair)
  show ?thesis
  proof (cases "data = []")
    case True
    with assms show ?thesis by (simp add: fcf_segment_def)
  next
    case data: False
    then have even: "even (length xs)" using False by simp
    then have "acc + of_nat (word_sum data) = of_nat (word_sum (xs @ data))"
      using assms by (simp add: word_sum_append_even)
    with fcf_pairs_result [OF p] even p show ?thesis
      by (auto simp: fcf_segment_def Let_def)
  qed
qed

lemma fcf_segments_result:
  "foldl fcf_segment (of_nat (word_sum xs), odd (length xs)) vec =
     (of_nat (word_sum (xs @ concat vec)), odd (length (xs @ concat vec)))"
proof (induction vec arbitrary: xs)
  case (Cons data vec)
  then show ?case using fcf_segment_result [of _ xs data] Cons.IH [of "xs @ data"] by simp
qed simp

lemma ip_fcf_v_sum: "ip_fcf_v vec = fcf_fold (of_nat (word_sum (concat vec)))"
  using fcf_segments_result [of "[]" vec] by (simp add: ip_fcf_v_def)

lemma ones_sum_bound: "ones_sum n \<le> 65535"
  using mod_less_divisor [of 65535 "n - 1"] by (simp add: ones_sum_def del: mod_less_divisor)

lemma ones_sum_unique:
  assumes "0 < n" "0 < m" "m \<le> 65535" "m mod 65535 = n mod 65535"
  shows "ones_sum n = m"
proof (cases "m = 65535")
  case True
  then obtain j where j: "n = 65535 * j" using assms(4) by (auto simp: mod_eq_0_iff_dvd dvd_def)
  then have "n - 1 = 65534 + 65535 * (j - 1)" using assms(1) by (cases j) auto
  then have "(n - 1) mod 65535 = 65534" by (simp only: mod_mult_self2) simp
  then show ?thesis using True assms(1) by (simp add: ones_sum_def)
next
  case False
  then have "n mod 65535 = m" using assms by simp
  then have "n - 1 = (m - 1) + 65535 * (n div 65535)"
    using assms(2) mult_div_mod_eq [of 65535 n] by linarith
  then have "(n - 1) mod 65535 = (m - 1) mod 65535" by (simp only: mod_mult_self2)
  also have "\<dots> = m - 1" using False assms(2,3) by simp
  finally show ?thesis using assms(1,2) by (simp add: ones_sum_def)
qed

lemma fold_mod: "(n div 65536 + n mod 65536) mod 65535 = n mod (65535 :: nat)"
proof -
  have "n = (n div 65536 + n mod 65536) + 65535 * (n div 65536)"
    using mult_div_mod_eq [of 65536 n] by linarith
  then show ?thesis by (metis mod_mult_self2)
qed

lemma unat_high: "unat (drop_bit 16 w) = unat w div 65536" for w :: u32
  by (simp add: drop_bit_eq_div unat_div_distrib)

lemma unat_low: "unat (w AND 0xffff) = unat w mod 65536" for w :: u32
proof -
  have "w AND 0xffff = take_bit 16 w" by (simp add: take_bit_eq_mask mask_eq_exp_minus_1)
  then show ?thesis by (simp add: take_bit_eq_mod unat_mod_distrib)
qed

lemma unat_fold: "unat (drop_bit 16 w + (w AND 0xffff)) = unat w div 65536 + unat w mod 65536" for w :: u32
proof -
  have "unat w < 65536 * 65536" using unsigned_less [of w, where 'a = nat] by simp
  then have "unat w div 65536 < 65536" by (simp add: less_mult_imp_div_less)
  then have "unat w div 65536 + unat w mod 65536 < 131072" using mod_less_divisor [of 65536 "unat w"] by linarith
  then show ?thesis by (subst unat_add_lem [THEN iffD1]) (simp_all add: unat_high unat_low)
qed

lemma one_carry: "x < 131071 \<Longrightarrow> x div 65536 + x mod 65536 < (65536 :: nat)"
  by (cases "x < 65536") (simp_all add: le_div_geq le_mod_geq)

lemma fcf_fold_ones_sum:
  assumes "n < 2 ^ 32"
  shows "unat (NOT (fcf_fold (of_nat n))) = ones_sum n"
proof -
  let ?w = "of_nat n :: u32"
  let ?m = "n div 65536 + n mod 65536"
  let ?k = "?m div 65536 + ?m mod 65536"
  let ?w1 = "drop_bit 16 ?w + (?w AND 0xffff)"
  have w: "unat ?w = n" using assms by (simp add: unat_of_nat)
  have w1: "unat ?w1 = ?m" by (simp only: unat_fold w)
  have w2: "unat (drop_bit 16 ?w1 + (?w1 AND 0xffff)) = ?k" using unat_fold [of ?w1] unfolding w1 .
  have "n div 65536 < 65536" using assms by (simp add: less_mult_imp_div_less)
  then have m: "?m < 131071" using mod_less_divisor [of 65536 n] by linarith
  have k: "?k < 65536" using m by (rule one_carry)
  have "unat (ucast (drop_bit 16 ?w1 + (?w1 AND 0xffff)) :: u16) = ?k"
    unfolding unsigned_ucast_eq w2 using k by (simp add: take_bit_nat_eq_self)
  then have "unat (NOT (fcf_fold ?w)) = ?k" by (simp add: fcf_fold_def Let_def)
  moreover have "?k = ones_sum n"
  proof (cases "n = 0")
    case False
    have "0 < ?m" using False mult_div_mod_eq [of 65536 n] by (cases "n div 65536 = 0") auto
    then have "0 < ?k" using mult_div_mod_eq [of 65536 ?m] by (cases "?m div 65536 = 0") auto
    then show ?thesis
      using ones_sum_unique [of n ?k] False k fold_mod [of ?m] fold_mod [of n] by simp
  qed (simp add: ones_sum_def)
  ultimately show ?thesis by simp
qed

text \<open>
  C30. The checksum does not depend on how the data is cut into pieces, whatever their lengths, empty and odd
  ones included: it is the checksum of the concatenation.
\<close>

theorem ip_fcf_v_gather: "ip_fcf_v vec = ip_fcf_v [concat vec]"
  by (simp add: ip_fcf_v_sum)

lemma unat_not_16: "unat (NOT w) = 65535 - unat w" for w :: u16
proof -
  have "(-1 :: u16) = 65535" by code_simp
  then have e: "NOT w = 65535 - w" by (simp add: not_eq_complement)
  have "uint w < 65536" using uint_lt2p [of w] by simp
  then have "uint (NOT w) = 65535 - uint w" unfolding e uint_sub_if' by simp
  then have "int (unat (NOT w)) = 65535 - int (unat w)" by (simp only: uint_nat)
  then show ?thesis by linarith
qed

lemma ip_fcf_v_value:
  assumes "word_sum (concat vec) < 2 ^ 32"
  shows "unat (ip_fcf_v vec) = 65535 - ones_sum (word_sum (concat vec))"
  using fcf_fold_ones_sum [OF assms] unat_not_16 [of "NOT (ip_fcf_v vec)"] by (simp add: ip_fcf_v_sum)


text \<open>
  C31. For less than \<open>2 ^ 32\<close> in the sum of its words (64K words and more), the checksum is the complement
  of the one's complement sum of the 16-bit words, with an odd last byte padded by zero.
\<close>

theorem ip_fcf_v_ones_complement:
  assumes "word_sum (concat vec) < 2 ^ 32"
  shows "unat (ip_fcf_v vec) = 65535 - ones_sum (word_sum (concat vec))"
  using assms by (rule ip_fcf_v_value)

theorem ip_fcf_v_ones_complement_witness:
  "unat (ip_fcf_v [[0x45], [0x00, 0xFF], [0xFF, 0x01]]) = 65535 - ones_sum (0x4500 + 0xFFFF + 0x0100)"
proof -
  have h: "word_sum (concat [[0x45], [0x00, 0xFF], [0xFF, 0x01 :: u8]]) < 2 ^ 32" by simp
  from ip_fcf_v_ones_complement [OF h] show ?thesis by simp
qed

text \<open>
  A checksum verifies: put at an even offset into the data it was computed over (with its field zero),
  the checksum of the whole is 0.
\<close>

theorem ip_fcf_v_verifies:
  assumes "even (length xs)" "concat vec = xs @ [0, 0] @ ys" "c = ip_fcf_v vec"
    "concat vec' = xs @ [ucast (drop_bit 8 c), ucast c] @ ys" "word_sum xs + word_sum ys + 65535 < 2 ^ 32"
  shows "ip_fcf_v vec' = 0"
proof -
  let ?n = "word_sum xs + word_sum ys"
  have n: "word_sum (concat vec) = ?n" using assms(1,2) by (simp add: word_sum_append_even)
  have c: "unat c = 65535 - ones_sum ?n" using ip_fcf_v_value [of vec] n assms(3,5) by simp
  have hi: "unat (ucast (drop_bit 8 c) :: u8) = unat c div 256"
  proof -
    have "unat c < 65536" using unsigned_less [of c, where 'a = nat] by simp
    then have "unat c div 256 < 256" by (simp add: less_mult_imp_div_less)
    then show ?thesis by (simp add: unsigned_ucast_eq drop_bit_eq_div unat_div_distrib take_bit_nat_eq_self)
  qed
  have lo: "unat (ucast c :: u8) = unat c mod 256" by (simp add: unsigned_ucast_eq take_bit_eq_mod)
  have "word_sum (concat vec') = ?n + unat c"
    using assms(1,4) hi lo by (simp add: word_sum_append_even)
  moreover have "ones_sum (?n + unat c) = 65535"
  proof (cases "?n = 0")
    case True
    then have "unat c = 65535" using c by (simp add: ones_sum_def)
    then show ?thesis using True by (simp add: ones_sum_def)
  next
    case False
    let ?r = "(?n - 1) mod 65535"
    have r: "?r < 65535" by simp
    have "unat c = 65534 - ?r" using False c by (simp add: ones_sum_def)
    then have "?n + unat c = (?n - 1 - ?r) + 65535" using False r mod_less_eq_dividend [of "?n - 1" 65535] by linarith
    also have "?n - 1 - ?r = 65535 * ((?n - 1) div 65535)" by (simp add: minus_mod_eq_mult_div)
    finally have "(?n + unat c) mod 65535 = 65535 mod 65535" by simp
    then show ?thesis using False by (intro ones_sum_unique) auto
  qed
  moreover have "?n + unat c < 2 ^ 32" using assms(5) c by linarith
  ultimately have "unat (ip_fcf_v vec') = 0" using ip_fcf_v_value [of vec'] by simp
  then show ?thesis by (simp add: unat_eq_0)
qed

theorem ip_fcf_v_verifies_witness:
  "ip_fcf_v [[0x12, 0x34], [0xED, 0xCB]] = 0"
  by (rule ip_fcf_v_verifies [of "[0x12, 0x34]" "[[0x12, 0x34, 0, 0]]" "[]" "0xEDCB"])
     (simp_all, code_simp+)

text \<open>
  The compact pseudo-header that \<open>ipv6_fcf\<close> builds (the 16-bit length, a zero byte, the next header) has
  the same checksum as the one of RFC 2460, with a 32-bit length and three zero bytes.
\<close>

theorem ipv6_fcf_pseudo_header:
  assumes "length src = 16" "length dst = 16" "length data = unat len"
  shows "ipv6_fcf src dst len data nh =
    ip_fcf_v [src @ dst @ [0, 0, ucast (drop_bit 8 len), ucast len] @ [0, 0, 0, nh] @ data]"
proof -
  have "even (length src)" "even (length dst)" using assms by simp_all
  then have "word_sum (src @ dst @ [ucast (drop_bit 8 len), ucast len, 0, nh] @ data) =
      word_sum (src @ dst @ [0, 0, ucast (drop_bit 8 len), ucast len] @ [0, 0, 0, nh] @ data)"
    by (simp add: word_sum_append_even)
  then show ?thesis using assms by (simp add: ipv6_fcf_def Let_def ip_fcf_v_sum)
qed

theorem ipv6_fcf_pseudo_header_witness:
  "ipv6_fcf (replicate 16 1) (replicate 16 2) 3 [7, 8, 9] 0x11 =
    ip_fcf_v [replicate 16 1 @ replicate 16 2 @ [0, 0, 0, 3] @ [0, 0, 0, 0x11] @ [7, 8, 9]]"
  proof -
  have h: "length (replicate 16 (1 :: u8)) = 16" "length (replicate 16 (2 :: u8)) = 16"
    "length [7, 8, 9 :: u8] = unat (3 :: u16)" by simp_all
  from ipv6_fcf_pseudo_header [OF h, of "0x11"] show ?thesis by simp
qed

end
