(* ===== verification/TextModel.thy ===== *)
theory TextModel
  imports Prelude
begin

text \<open>
  Text as the C code sees it: characters in memory, a function of the offset, ended by a null character;
  the output of \<open>sprintf\<close> for the formats the library uses, and what a reader finds at an offset.
\<close>

section \<open>Characters\<close>

abbreviation code :: "char \<Rightarrow> nat" where
  "code c \<equiv> of_char c"

abbreviation NUL :: char where
  "NUL \<equiv> CHR 0x00"

definition is_digit :: "char \<Rightarrow> bool" where
  "is_digit c \<longleftrightarrow> 48 \<le> code c \<and> code c \<le> 57"

definition digit_char :: "nat \<Rightarrow> char" where
  "digit_char d = char_of (48 + d)"

lemma code_digit_char: "d < 10 \<Longrightarrow> code (digit_char d) = 48 + d"
  by (simp add: digit_char_def take_bit_nat_eq_self)

lemma is_digit_char: "d < 10 \<Longrightarrow> is_digit (digit_char d)"
  by (simp add: is_digit_def code_digit_char)

lemma not_digit: "\<not> is_digit NUL" "\<not> is_digit (CHR ''.'')" "\<not> is_digit (CHR '':'')" "\<not> is_digit (CHR ''/'')"
  by (simp_all add: is_digit_def)

section \<open>Numbers as text\<close>

text \<open>Decimal digits without leading zeros, as \<open>%u\<close> prints them.\<close>

function dec :: "nat \<Rightarrow> string" where
  "dec n = (if n < 10 then [digit_char n] else dec (n div 10) @ [digit_char (n mod 10)])"
  by pat_completeness auto
termination by (relation "measure (\<lambda>n. n)") auto

declare dec.simps [simp del]

lemma dec_cases:
  assumes "n < 1000"
  shows "n < 10 \<and> dec n = [digit_char n] \<or>
    10 \<le> n \<and> n < 100 \<and> dec n = [digit_char (n div 10), digit_char (n mod 10)] \<or>
    100 \<le> n \<and> dec n = [digit_char (n div 100), digit_char (n div 10 mod 10), digit_char (n mod 10)]"
proof -
  consider "n < 10" | "10 \<le> n" "n < 100" | "100 \<le> n" by linarith
  then show ?thesis
  proof cases
    case 1
    then show ?thesis by (subst (1) dec.simps) simp
  next
    case 2
    then have "dec n = [digit_char (n div 10), digit_char (n mod 10)]"
      by (subst dec.simps, subst dec.simps) auto
    with 2 show ?thesis by simp
  next
    case 3
    have "n div 10 div 10 = n div 100" by (simp add: div_mult2_eq [symmetric])
    with 3 assms have "dec n = [digit_char (n div 100), digit_char (n div 10 mod 10), digit_char (n mod 10)]"
      by (subst dec.simps, subst dec.simps, subst dec.simps) auto
    with 3 show ?thesis by simp
  qed
qed

lemma dec_digits: "c \<in> set (dec n) \<Longrightarrow> is_digit c"
proof (induction n rule: dec.induct)
  case (1 n)
  then show ?case by (subst (asm) (2) dec.simps) (auto simp: is_digit_char split: if_splits)
qed

lemma NUL_notin_dec: "NUL \<notin> set (dec n)"
  using dec_digits not_digit(1) by blast

lemma dec_length: "n < 1000 \<Longrightarrow> 1 \<le> length (dec n) \<and> length (dec n) \<le> 3"
  using dec_cases [of n] by auto

lemma byte_dec_length: "1 \<le> length (dec (unat (b :: u8)))" "length (dec (unat b)) \<le> 3"
proof -
  have "unat b < 1000" using unsigned_less [of b, where 'a = nat] by simp
  from dec_length [OF this] show "1 \<le> length (dec (unat b))" "length (dec (unat b)) \<le> 3" by auto
qed

text \<open>Lower case hexadecimal digits without leading zeros, as \<open>%x\<close> prints them.\<close>

definition hex_digit_char :: "nat \<Rightarrow> char" where
  "hex_digit_char d = (if d < 10 then digit_char d else char_of (87 + d))"

function hexs :: "nat \<Rightarrow> string" where
  "hexs n = (if n < 16 then [hex_digit_char n] else hexs (n div 16) @ [hex_digit_char (n mod 16)])"
  by pat_completeness auto
termination by (relation "measure (\<lambda>n. n)") auto

declare hexs.simps [simp del]

section \<open>Texts in memory\<close>

type_synonym text_memory = "nat \<Rightarrow> char"

text \<open>The memory that holds a text and null characters behind it.\<close>

definition text_at :: "string \<Rightarrow> text_memory" where
  "text_at t i = (if i < length t then t ! i else NUL)"

text \<open>No character outside the \<open>n\<close> characters at \<open>q\<close> and their terminator differs.\<close>

definition same_elsewhere :: "text_memory \<Rightarrow> text_memory \<Rightarrow> nat \<Rightarrow> nat \<Rightarrow> bool" where
  "same_elsewhere p p' q n \<longleftrightarrow> (\<forall>i. i < q \<or> q + n < i \<longrightarrow> p' i = p i)"

text \<open>Storing a text from an offset on; \<open>sprintf\<close> stores its text and a null character.\<close>

fun store :: "text_memory \<Rightarrow> nat \<Rightarrow> string \<Rightarrow> text_memory" where
  "store p pos [] = p"
| "store p pos (c # cs) = store (p(pos := c)) (pos + 1) cs"

definition sprintf :: "text_memory \<Rightarrow> nat \<Rightarrow> string \<Rightarrow> text_memory \<times> nat" where
  "sprintf p pos t = (store p pos (t @ [NUL]), length t)"

text \<open>
  \<open>strlen\<close>, \<open>strchr\<close> and \<open>strtoul\<close> to base 10 of the C library, on a platform with 32-bit \<open>long\<close>: white
  space, a sign, digits; an out of range value is \<open>ULONG_MAX\<close>, and a minus sign negates in the unsigned type.
  A text without null character is not read to its end (\<open>None\<close>).
\<close>

partial_function (option) strlen_from :: "text_memory \<Rightarrow> nat \<Rightarrow> nat option" where
  "strlen_from s i = (if s i = NUL then Some i else strlen_from s (i + 1))"

definition strlen :: "text_memory \<Rightarrow> nat option" where
  "strlen s = strlen_from s 0"

partial_function (option) strchr_from :: "text_memory \<Rightarrow> char \<Rightarrow> nat \<Rightarrow> nat option option" where
  "strchr_from s c i =
     (if s i = c then Some (Some i) else if s i = NUL then Some None else strchr_from s c (i + 1))"

definition strchr :: "text_memory \<Rightarrow> char \<Rightarrow> nat option option" where
  "strchr s c = strchr_from s c 0"

definition is_space :: "char \<Rightarrow> bool" where
  "is_space c \<longleftrightarrow> code c = 32 \<or> 9 \<le> code c \<and> code c \<le> 13"

partial_function (option) skip_space :: "text_memory \<Rightarrow> nat \<Rightarrow> nat option" where
  "skip_space s i = (if is_space (s i) then skip_space s (i + 1) else Some i)"

partial_function (option) decimal_value :: "text_memory \<Rightarrow> nat \<Rightarrow> nat \<Rightarrow> nat option" where
  "decimal_value s i v =
     (if is_digit (s i) then decimal_value s (i + 1) (v * 10 + (code (s i) - 48)) else Some v)"

declare strlen_from.simps [code] strchr_from.simps [code] skip_space.simps [code] decimal_value.simps [code]

definition strtoul :: "text_memory \<Rightarrow> nat \<Rightarrow> u32 option" where
  "strtoul s i =
     (case skip_space s i of None \<Rightarrow> None | Some i \<Rightarrow>
        let negative = (s i = CHR ''-'');
            i = (if s i = CHR ''-'' \<or> s i = CHR ''+'' then i + 1 else i)
        in case decimal_value s i 0 of None \<Rightarrow> None | Some v \<Rightarrow>
             Some (if v \<ge> 2 ^ 32 then - 1 else if negative then - of_nat v else of_nat v))"

definition reads :: "(nat \<Rightarrow> char) \<Rightarrow> nat \<Rightarrow> string \<Rightarrow> bool" where
  "reads s n cs \<longleftrightarrow> (\<forall>i < length cs. s (n + i) = cs ! i)"

lemma reads_simps [simp]:
  "reads s n []" "reads s n (c # cs) \<longleftrightarrow> s n = c \<and> reads s (Suc n) cs"
  "reads s n (xs @ ys) \<longleftrightarrow> reads s n xs \<and> reads s (n + length xs) ys"
proof -
  show "reads s n []" by (simp add: reads_def)
  show "reads s n (c # cs) \<longleftrightarrow> s n = c \<and> reads s (Suc n) cs"
    by (auto simp: reads_def less_Suc_eq_0_disj nth_Cons split: nat.splits)
  show "reads s n (xs @ ys) \<longleftrightarrow> reads s n xs \<and> reads s (n + length xs) ys"
  proof (intro iffI conjI)
    assume r: "reads s n (xs @ ys)"
    show "reads s n xs" using r by (fastforce simp: reads_def nth_append)
    show "reads s (n + length xs) ys"
      unfolding reads_def
    proof (intro allI impI)
      fix i assume "i < length ys"
      then show "s (n + length xs + i) = ys ! i"
        using r [unfolded reads_def, rule_format, of "length xs + i"] by (simp add: nth_append add.assoc)
    qed
  next
    assume r: "reads s n xs \<and> reads s (n + length xs) ys"
    show "reads s n (xs @ ys)"
      unfolding reads_def
    proof (intro allI impI)
      fix i assume "i < length (xs @ ys)"
      then show "s (n + i) = (xs @ ys) ! i"
        using r [unfolded reads_def, THEN conjunct1, rule_format, of i]
          r [unfolded reads_def, THEN conjunct2, rule_format, of "i - length xs"]
        by (cases "i < length xs") (auto simp: nth_append)
    qed
  qed
qed

section \<open>Short lists\<close>

lemma length_4: "length xs = 4 \<Longrightarrow> \<exists>a b c d. xs = [a, b, c, d]"
  by (auto simp: length_Suc_conv numeral_eq_Suc)

lemma length_small:
  "length xs = 2 \<Longrightarrow> \<exists>a b. xs = [a, b]" "length xs = 3 \<Longrightarrow> \<exists>a b c. xs = [a, b, c]"
  by (auto simp: length_Suc_conv numeral_eq_Suc)

end
