(* ===== verification/Ip4String.thy ===== *)
theory Ip4String
  imports TextModel
begin

text \<open>
  IPv4 addresses as text: \<open>ip4tos\<close> of \<open>libip4string/ip4tos.c\<close> and \<open>stoip4\<close> of \<open>libip4string/stoip4.c\<close>.
  The parser reads the characters from memory, a function of the offset, since it may look past the
  text; the printer writes into a buffer, a list of characters.
\<close>

section \<open>Printing\<close>

text \<open>\<open>ipv4_itoa\<close>: the digits from the least significant on, the terminator, then the swap.\<close>

function itoa_digits :: "string \<Rightarrow> nat \<Rightarrow> nat \<Rightarrow> string \<times> nat" where
  "itoa_digits buf str byte =
     (let buf = buf[str := digit_char (byte mod 10)];
          str = str + 1;
          byte = byte div 10
      in if byte \<noteq> 0 then itoa_digits buf str byte else (buf, str))"
  by pat_completeness auto
termination by (relation "measure (\<lambda>(_, _, byte). byte)") auto

function itoa_swap :: "string \<Rightarrow> nat \<Rightarrow> nat \<Rightarrow> string" where
  "itoa_swap buf base str =
     (if base < str then
        let tmp = buf ! str;
            buf = buf[str := buf ! base];
            str = str - 1;
            buf = buf[base := tmp];
            base = base + 1
        in itoa_swap buf base str
      else buf)"
  by pat_completeness auto
termination by (relation "measure (\<lambda>(_, base, str). str - base)") auto

declare itoa_digits.simps [simp del] itoa_swap.simps [simp del]

definition ipv4_itoa :: "string \<Rightarrow> nat \<Rightarrow> u8 \<Rightarrow> string" where
  "ipv4_itoa buf base byte =
     (let (buf, str) = itoa_digits buf base (unat byte);
          buf = buf[str := NUL];
          str = str - 1
      in itoa_swap buf base str)"

function skip_to_nul :: "string \<Rightarrow> nat \<Rightarrow> nat" where
  "skip_to_nul p pos = (if pos < length p \<and> p ! pos \<noteq> NUL then skip_to_nul p (pos + 1) else pos)"
  by pat_completeness auto
termination by (relation "measure (\<lambda>(p, pos). length p - pos)") auto

declare skip_to_nul.simps [simp del]

text \<open>One component: the digits, the move to the end, and the dot after all but the last.\<close>

definition ip4tos_step :: "u8 list \<Rightarrow> string \<times> nat \<Rightarrow> nat \<Rightarrow> string \<times> nat" where
  "ip4tos_step byteArray st component =
     (let (p, outputPos) = st;
          p = ipv4_itoa p outputPos (byteArray ! component);
          outputPos = skip_to_nul p outputPos
      in if component < 3 then (p[outputPos := CHR ''.''], outputPos + 1) else (p, outputPos))"

definition ip4tos :: "u8 list \<Rightarrow> string \<Rightarrow> string \<times> nat" where
  "ip4tos ip4addr p = foldl (ip4tos_step ip4addr) (p, 0) [0..<4]"

section \<open>Parsing\<close>

text \<open>
  One number: \<open>None\<close> when it exceeds 255. The value stays below 2560, far from the width of
  \<open>uint_fast16_t\<close>.
\<close>

function stoip4_number :: "(nat \<Rightarrow> char) \<Rightarrow> nat \<Rightarrow> nat \<Rightarrow> nat \<Rightarrow> (nat \<times> nat) option" where
  "stoip4_number ip4addr len stringLength byte =
     (if stringLength < len \<and> is_digit (ip4addr stringLength) then
        let byte = byte * 10;
            byte = byte + (code (ip4addr stringLength) - 48);
            stringLength = stringLength + 1
        in if byte > 0xff then None else stoip4_number ip4addr len stringLength byte
      else Some (stringLength, byte))"
  by pat_completeness auto
termination by (relation "measure (\<lambda>(_, len, n, _). len - n)") auto

declare stoip4_number.simps [simp del]

lemma stoip4_number_advances:
  "stoip4_number s len n b = Some (n', b') \<Longrightarrow> n \<le> n' \<and> (n < len \<and> is_digit (s n) \<longrightarrow> n < n') \<and> (n \<le> len \<longrightarrow> n' \<le> len)"
proof (induction s len n b rule: stoip4_number.induct)
  case (1 s len n b)
  then show ?case by (subst (asm) (2) stoip4_number.simps) (fastforce simp: Let_def split: if_splits)
qed

function stoip4_loop :: "(nat \<Rightarrow> char) \<Rightarrow> nat \<Rightarrow> nat \<Rightarrow> nat \<Rightarrow> u8 list \<Rightarrow> bool \<times> u8 list" where
  "stoip4_loop ip4addr len stringLength byteCount addr =
     (if stringLength = len \<or> \<not> is_digit (ip4addr stringLength) then (False, addr)
      else
        case stoip4_number ip4addr len stringLength 0 of
          None \<Rightarrow> (False, addr)
        | Some (stringLength, byte) \<Rightarrow>
            (let addr = addr[byteCount := of_nat byte];
                 byteCount = byteCount + 1
             in if byteCount = 4 then (stringLength = len \<or> ip4addr stringLength = NUL, addr)
                else if stringLength = len \<or> ip4addr stringLength \<noteq> CHR ''.'' then (False, addr)
                else stoip4_loop ip4addr len (stringLength + 1) byteCount addr))"
  by pat_completeness auto
termination
proof (relation "measure (\<lambda>(_, len, n, _, _). len - n)", simp)
  fix ip4addr :: "nat \<Rightarrow> char" and len n byteCount n' byte addr r addr' bc'
  assume a: "\<not> (n = len \<or> \<not> is_digit (ip4addr n))" "stoip4_number ip4addr len n 0 = Some r"
    "(n', byte) = r" "\<not> (n' = len \<or> ip4addr n' \<noteq> CHR ''.'')"
  show "((ip4addr, len, n' + 1, bc', addr'), ip4addr, len, n, byteCount, addr)
    \<in> measure (\<lambda>(_, len, n, _, _). len - n)"
  proof (cases "n < len")
    case True
    with a stoip4_number_advances [of ip4addr len n 0 n' byte] show ?thesis by auto
  next
    case False
    then have "stoip4_number ip4addr len n 0 = Some (n, 0)" by (subst stoip4_number.simps) simp
    with a have "n' = n" by auto
    with a not_digit(2) show ?thesis by auto
  qed
qed

declare stoip4_loop.simps [simp del]

definition stoip4 :: "(nat \<Rightarrow> char) \<Rightarrow> nat \<Rightarrow> u8 list \<Rightarrow> bool \<times> u8 list" where
  "stoip4 ip4addr len dest =
     (if len > 16 then (False, dest) else stoip4_loop ip4addr len 0 0 dest)"


section \<open>The text of an address\<close>

text \<open>The dotted form.\<close>

fun dotted :: "u8 list \<Rightarrow> string" where
  "dotted [] = []"
| "dotted [b] = dec (unat b)"
| "dotted (b # bs) = dec (unat b) @ CHR ''.'' # dotted bs"

subsection \<open>Reading a number\<close>

lemma stoip4_number_digit:
  assumes "n < len" "s n = digit_char d" "d < 10" "b * 10 + d \<le> 255"
  shows "stoip4_number s len n b = stoip4_number s len (n + 1) (b * 10 + d)"
  by (subst stoip4_number.simps) (use assms in \<open>simp add: is_digit_char code_digit_char Let_def\<close>)

lemma stoip4_number_end:
  "n = len \<or> \<not> is_digit (s n) \<Longrightarrow> stoip4_number s len n b = Some (n, b)"
  by (subst stoip4_number.simps) auto

lemma stoip4_number_dec:
  assumes r: "reads s n (dec v)" and v: "v < 256" and e: "n + length (dec v) \<le> len"
    "n + length (dec v) = len \<or> \<not> is_digit (s (n + length (dec v)))"
  shows "stoip4_number s len n 0 = Some (n + length (dec v), v)"
    and "is_digit (s n)" and "n < len"
proof -
  let ?n' = "n + length (dec v)"
  have stop: "stoip4_number s len ?n' v = Some (?n', v)" using e(2) by (rule stoip4_number_end)
  have div10: "v div 10 = 10 * (v div 100) + v div 10 mod 10"
    using mult_div_mod_eq [of 10 "v div 10"] by (simp add: div_mult2_eq [symmetric])
  have v10: "v = 10 * (v div 10) + v mod 10" by simp
  have v1000: "v < 1000" using v by simp
  have "stoip4_number s len n 0 = Some (?n', v) \<and> is_digit (s n) \<and> n < len"
    using dec_cases [OF v1000]
  proof (elim disjE conjE)
    assume d: "v < 10" "dec v = [digit_char v]"
    then have "stoip4_number s len n 0 = stoip4_number s len ?n' v"
      using stoip4_number_digit [of n len s v 0] r e(1) by simp
    then show ?thesis using stop d r e(1) by (simp add: is_digit_char)
  next
    assume d: "10 \<le> v" "v < 100" "dec v = [digit_char (v div 10), digit_char (v mod 10)]"
    have "stoip4_number s len n 0 = stoip4_number s len (n + 1) (v div 10)"
      using stoip4_number_digit [of n len s "v div 10" 0] r e(1) d by simp
    also have "\<dots> = stoip4_number s len ?n' v"
      using stoip4_number_digit [of "n + 1" len s "v mod 10" "v div 10"] r e(1) d v by simp
    finally show ?thesis using stop d r e(1) by (simp add: is_digit_char)
  next
    assume d: "100 \<le> v" "dec v = [digit_char (v div 100), digit_char (v div 10 mod 10), digit_char (v mod 10)]"
    have h: "v div 100 < 10" "v div 100 \<le> 2" using v by auto
    have e10: "v div 100 * 10 + v div 10 mod 10 = v div 10" using div10 by simp
    have "stoip4_number s len n 0 = stoip4_number s len (n + 1) (v div 100)"
      using stoip4_number_digit [of n len s "v div 100" 0] r e(1) d h by simp
    also have "\<dots> = stoip4_number s len (n + 2) (v div 10)"
      using stoip4_number_digit [of "n + 1" len s "v div 10 mod 10" "v div 100", unfolded e10] r e(1) d h v
      by simp
    also have "\<dots> = stoip4_number s len ?n' v"
      using stoip4_number_digit [of "n + 2" len s "v mod 10" "v div 10"] r e(1) d v v10 by simp
    finally show ?thesis using stop d r e(1) h by (simp add: is_digit_char)
  qed
  then show "stoip4_number s len n 0 = Some (?n', v)" "is_digit (s n)" "n < len" by auto
qed

lemma stoip4_loop_component:
  assumes r: "reads s n (dec (unat b) @ [CHR ''.''])" and e: "n + length (dec (unat b)) < len" and k: "k < 3"
  shows "stoip4_loop s len n k addr = stoip4_loop s len (n + length (dec (unat b)) + 1) (k + 1) (addr[k := b])"
proof -
  have v: "unat b < 256" using unsigned_less [of b, where 'a = nat] by simp
  have r': "reads s n (dec (unat b))" "s (n + length (dec (unat b))) = CHR ''.''" using r by auto
  note num = stoip4_number_dec [OF r'(1) v, of len]
  have "stoip4_number s len n 0 = Some (n + length (dec (unat b)), unat b)" "is_digit (s n)" "n < len"
    using num e r'(2) by (simp_all add: not_digit)
  then show ?thesis using e k r'(2) by (subst stoip4_loop.simps) (simp add: Let_def)
qed

lemma stoip4_loop_last:
  assumes r: "reads s n (dec (unat b))" and e: "n + length (dec (unat b)) \<le> len"
    "n + length (dec (unat b)) = len \<or> s (n + length (dec (unat b))) = NUL"
  shows "stoip4_loop s len n 3 addr = (True, addr[3 := b])"
proof -
  have v: "unat b < 256" using unsigned_less [of b, where 'a = nat] by simp
  have "stoip4_number s len n 0 = Some (n + length (dec (unat b)), unat b)" "is_digit (s n)" "n < len"
    using stoip4_number_dec [OF r v e(1)] e(2) by (auto simp: not_digit)
  then show ?thesis using e by (subst stoip4_loop.simps) (auto simp: Let_def)
qed

lemma stoip4_dotted:
  assumes bs: "length bs = 4" and dest: "length dest = 4" and r: "reads s 0 (dotted bs)"
    and e: "length (dotted bs) \<le> len" "length (dotted bs) = len \<or> s (length (dotted bs)) = NUL" "len \<le> 16"
  shows "stoip4 s len dest = (True, bs)"
proof -
  obtain a b c d where abcd: "bs = [a, b, c, d]" using length_4 [OF bs] by auto
  obtain a' b' c' d' where dest': "dest = [a', b', c', d']" using length_4 [OF dest] by auto
  let ?l = "\<lambda>x :: u8. length (dec (unat x))"
  have r': "reads s 0 (dec (unat a) @ [CHR ''.''])" "reads s (?l a + 1) (dec (unat b) @ [CHR ''.''])"
    "reads s (?l a + 1 + ?l b + 1) (dec (unat c) @ [CHR ''.''])"
    "reads s (?l a + 1 + ?l b + 1 + ?l c + 1) (dec (unat d))"
    using r abcd by (simp_all add: algebra_simps)
  have len: "length (dotted bs) = ?l a + 1 + ?l b + 1 + ?l c + 1 + ?l d" using abcd by simp
  note bound = e(1) [unfolded len]
  have "stoip4_loop s len 0 0 dest = stoip4_loop s len (?l a + 1) 1 [a, b', c', d']"
    using stoip4_loop_component [OF r'(1), of len 0 dest] bound dest' by simp
  also have "\<dots> = stoip4_loop s len (?l a + 1 + ?l b + 1) 2 [a, b, c', d']"
    using stoip4_loop_component [OF r'(2), of len 1 "[a, b', c', d']"] bound by (simp add: numeral_2_eq_2)
  also have "\<dots> = stoip4_loop s len (?l a + 1 + ?l b + 1 + ?l c + 1) 3 [a, b, c, d']"
    using stoip4_loop_component [OF r'(3), of len 2 "[a, b, c', d']"] bound
    by (simp add: numeral_2_eq_2 numeral_3_eq_3)
  also have "\<dots> = (True, [a, b, c, d])"
    using stoip4_loop_last [OF r'(4), of len "[a, b, c, d']"] bound e(2) len by (simp add: numeral_3_eq_3)
  finally show ?thesis using abcd e(3) by (simp add: stoip4_def)
qed


subsection \<open>Writing a number\<close>

lemma buffer_split:
  assumes "base + k \<le> length buf"
  obtains pre cs post where "buf = pre @ cs @ post" "length pre = base" "length cs = k"
proof -
  have "buf = take base buf @ take k (drop base buf) @ drop (base + k) buf"
    by (metis append_take_drop_id drop_drop add.commute)
  then show thesis using that [of "take base buf" "take k (drop base buf)"] assms by simp
qed

lemma list_update_at:
  "length pre = n \<Longrightarrow> k < length cs \<Longrightarrow> (pre @ cs @ post)[n + k := c] = pre @ cs[k := c] @ post"
  by (simp add: list_update_append)

lemma nth_at: "length pre = n \<Longrightarrow> k < length cs \<Longrightarrow> (pre @ cs @ post) ! (n + k) = cs ! k"
  by (simp add: nth_append)

lemma itoa_digits_step:
  "byte < 10 \<Longrightarrow> itoa_digits buf str byte = (buf[str := digit_char byte], str + 1)"
  "10 \<le> byte \<Longrightarrow> itoa_digits buf str byte = itoa_digits (buf[str := digit_char (byte mod 10)]) (str + 1) (byte div 10)"
  by (subst itoa_digits.simps [of buf str byte], simp add: Let_def div_eq_0_iff)+

lemma itoa_swap_step:
  "base < str \<Longrightarrow> itoa_swap buf base str = itoa_swap (buf[str := buf ! base, base := buf ! str]) (base + 1) (str - 1)"
  "str \<le> base \<Longrightarrow> itoa_swap buf base str = buf"
  by (subst itoa_swap.simps [of buf base str], simp add: Let_def)+

lemmas at_simps = list_update_append nth_append itoa_digits_step itoa_swap_step Let_def

lemma ipv4_itoa_dec:
  assumes room: "base + length (dec (unat b)) < length buf"
  shows "ipv4_itoa buf base b =
    take base buf @ dec (unat b) @ NUL # drop (base + length (dec (unat b)) + 1) buf"
proof -
  have v: "unat b < 1000" using unsigned_less [of b, where 'a = nat] by simp
  have room': "base + (length (dec (unat b)) + 1) \<le> length buf" using room by simp
  obtain pre cs post where p: "buf = pre @ cs @ post" "length pre = base" "length cs = length (dec (unat b)) + 1"
    using buffer_split [OF room'] .
  have parts: "take base buf = pre" "drop (base + length (dec (unat b)) + 1) buf = post"
    using p by (simp_all add: add.assoc)
  have "ipv4_itoa (pre @ cs @ post) base b = pre @ dec (unat b) @ NUL # post"
    using dec_cases [OF v]
  proof (elim disjE conjE)
    assume d: "unat b < 10" "dec (unat b) = [digit_char (unat b)]"
    then obtain c0 c1 where cs: "cs = [c0, c1]" using length_small(1) [of cs] p(3) by (auto simp: numeral_2_eq_2)
    have "itoa_digits (pre @ cs @ post) base (unat b) = (pre @ [digit_char (unat b), c1] @ post, base + 1)"
      using p(2) d(1) cs by (simp add: itoa_digits_step list_update_append)
    then show ?thesis using p(2) d(2) by (simp add: ipv4_itoa_def list_update_append itoa_swap_step)
  next
    assume d: "10 \<le> unat b" "unat b < 100" "dec (unat b) = [digit_char (unat b div 10), digit_char (unat b mod 10)]"
    have "length cs = 3" using d(3) p(3) by simp
    then obtain c0 c1 c2 where cs: "cs = [c0, c1, c2]" using length_small(2) by blast
    have "unat b div 10 < 10" using d(2) by simp
    then have "itoa_digits (pre @ cs @ post) base (unat b) =
        (pre @ [digit_char (unat b mod 10), digit_char (unat b div 10), c2] @ post, base + 1 + 1)"
      using p(2) d(1) cs by (simp add: itoa_digits_step list_update_append)
    then show ?thesis
      using p(2) d(3) by (simp add: ipv4_itoa_def list_update_append nth_append itoa_swap_step)
  next
    assume d: "100 \<le> unat b"
      "dec (unat b) = [digit_char (unat b div 100), digit_char (unat b div 10 mod 10), digit_char (unat b mod 10)]"
    have "length cs = 4" using d(2) p(3) by simp
    then obtain c0 c1 c2 c3 where cs: "cs = [c0, c1, c2, c3]" using length_4 by blast
    have d2: "10 \<le> unat b div 10" using d(1) by linarith
    have d3: "unat b div 10 div 10 = unat b div 100" by (simp add: div_mult2_eq [symmetric])
    have d4: "unat b div 100 < 10" using v by linarith
    have "itoa_digits (pre @ cs @ post) base (unat b) =
        itoa_digits (pre @ [digit_char (unat b mod 10), c1, c2, c3] @ post) (base + 1) (unat b div 10)"
      using p(2) d(1) cs by (simp add: itoa_digits_step(2) list_update_append)
    also have "\<dots> = itoa_digits (pre @ [digit_char (unat b mod 10), digit_char (unat b div 10 mod 10), c2, c3] @ post)
        (base + 1 + 1) (unat b div 100)"
      using itoa_digits_step(2) [OF d2] p(2) d3 by (simp add: list_update_append)
    also have "\<dots> = (pre @ [digit_char (unat b mod 10), digit_char (unat b div 10 mod 10), digit_char (unat b div 100), c3] @ post,
        base + 1 + 1 + 1)"
      using itoa_digits_step(1) [OF d4] p(2) by (simp add: list_update_append)
    finally show ?thesis
      using p(2) d(2) by (simp add: ipv4_itoa_def list_update_append nth_append itoa_swap_step)
  qed
  then show ?thesis unfolding parts by (simp add: p(1))
qed


lemma skip_to_nul_over:
  assumes "NUL \<notin> set cs"
  shows "skip_to_nul (pre @ cs @ NUL # post) (length pre) = length pre + length cs"
  using assms
proof (induction cs arbitrary: pre)
  case Nil
  then show ?case by (subst skip_to_nul.simps) simp
next
  case (Cons c cs)
  then have "skip_to_nul ((pre @ [c]) @ cs @ NUL # post) (length (pre @ [c])) = length (pre @ [c]) + length cs"
    by (intro Cons.IH) simp
  moreover have "c \<noteq> NUL" using Cons.prems by auto
  ultimately show ?case by (subst skip_to_nul.simps) (simp add: nth_append)
qed

lemma ip4tos_step_result:
  assumes room: "pos + length (dec (unat (bs ! k))) < length buf" and b: "b = bs ! k"
  shows "ip4tos_step bs (buf, pos) k =
    (take pos buf @ dec (unat b) @ (if k < 3 then CHR ''.'' else NUL) # drop (pos + length (dec (unat b)) + 1) buf,
     pos + length (dec (unat b)) + (if k < 3 then 1 else 0))"
proof -
  let ?d = "dec (unat b)"
  have i: "ipv4_itoa buf pos b = take pos buf @ ?d @ NUL # drop (pos + length ?d + 1) buf"
    using room b by (intro ipv4_itoa_dec) simp
  have s: "skip_to_nul (take pos buf @ ?d @ NUL # drop (pos + length ?d + 1) buf) pos = pos + length ?d"
    using skip_to_nul_over [OF NUL_notin_dec, of "take pos buf"] room b by simp
  show ?thesis
    using room b unfolding ip4tos_step_def Let_def prod.case b [symmetric] i s
    by (simp add: list_update_append)
qed

lemma ip4tos_dotted:
  assumes bs: "length bs = 4" and room: "length (dotted bs) < length p"
  shows "ip4tos bs p = (dotted bs @ NUL # drop (length (dotted bs) + 1) p, length (dotted bs))"
proof -
  obtain a b c d where abcd: "bs = [a, b, c, d]" using length_4 [OF bs] by auto
  let ?t = "\<lambda>x :: u8. dec (unat x)"
  have upt: "[0..<4] = [0, 1, 2, 3 :: nat]" by (simp add: upt_rec)
  have l: "length (dotted bs) = length (?t a) + 1 + length (?t b) + 1 + length (?t c) + 1 + length (?t d)"
    using abcd by simp
  note room = room [unfolded l]
  have step: "ip4tos_step bs (h @ drop (length h) p, length h) k =
      (h @ ?t (bs ! k) @ (if k < 3 then CHR ''.'' else NUL) # drop (length h + length (?t (bs ! k)) + 1) p,
       length h + length (?t (bs ! k)) + (if k < 3 then 1 else 0))"
    if "length h + length (?t (bs ! k)) < length p" for h k
    using ip4tos_step_result [of "length h" bs k "h @ drop (length h) p", OF _ refl] that
    by (simp add: add.assoc) (simp add: add.commute)
  have dot: "ip4tos_step bs (h @ drop (length h) p, length h) k =
      (h' @ drop (length h') p, length h')"
    if "length h + length (?t (bs ! k)) < length p" "k < 3" "h' = h @ ?t (bs ! k) @ [CHR ''.'']" for h h' k
    using step [OF that(1)] that(2,3) by simp
  let ?ha = "?t a @ [CHR ''.'']"
  let ?hb = "?ha @ ?t b @ [CHR ''.'']"
  let ?hc = "?hb @ ?t c @ [CHR ''.'']"
  have 1: "ip4tos_step bs (p, 0) 0 = (?ha @ drop (length ?ha) p, length ?ha)"
    using dot [of "[]" 0 ?ha] room abcd by simp
  have 2: "ip4tos_step bs (?ha @ drop (length ?ha) p, length ?ha) 1 = (?hb @ drop (length ?hb) p, length ?hb)"
    by (rule dot) (use room abcd in simp_all)
  have 3: "ip4tos_step bs (?hb @ drop (length ?hb) p, length ?hb) 2 = (?hc @ drop (length ?hc) p, length ?hc)"
    by (rule dot) (use room abcd in simp_all)
  have 4: "ip4tos_step bs (?hc @ drop (length ?hc) p, length ?hc) 3 =
      (?hc @ ?t d @ NUL # drop (length ?hc + length (?t d) + 1) p, length ?hc + length (?t d))"
    using step [of ?hc 3] room abcd by simp
  have "ip4tos bs p = (?hc @ ?t d @ NUL # drop (length ?hc + length (?t d) + 1) p, length ?hc + length (?t d))"
    unfolding ip4tos_def upt by (simp only: foldl.simps 1 2 3 4)
  moreover have "dotted bs = ?hc @ ?t d" using abcd by simp
  ultimately show ?thesis by (simp add: add.assoc)
qed

lemma dotted_length:
  "length bs = 4 \<Longrightarrow> length (dotted bs) \<le> 15"
proof -
  assume bs4: "length bs = 4"
  obtain a b c d where "bs = [a, b, c, d]" using length_4 [OF bs4] by blast
  then show ?thesis
    using byte_dec_length(2) [of a] byte_dec_length(2) [of b] byte_dec_length(2) [of c] byte_dec_length(2) [of d]
    by simp
qed

text \<open>
  \<open>ip4tos\<close> writes the four bytes in decimal with dots between, at most 15 characters, and a terminator,
  into a buffer of 16, writes nothing behind the terminator, and returns the length of the text.
\<close>

theorem ip4tos_prints_dotted_decimal:
  assumes "length bs = 4" "16 \<le> length p"
  shows "ip4tos bs p = (dotted bs @ NUL # drop (length (dotted bs) + 1) p, length (dotted bs)) \<and>
    length (dotted bs) \<le> 15"
  using ip4tos_dotted [OF assms(1), of p] dotted_length [OF assms(1)] assms(2) by simp

theorem ip4tos_prints_dotted_decimal_witness:
  "ip4tos [192, 168, 0, 7] (replicate 16 (CHR ''x'')) = (''192.168.0.7'' @ NUL # ''xxxx'', 11)"
proof -
  have h: "length [192, 168, 0, 7 :: u8] = 4" "16 \<le> length (replicate 16 (CHR ''x''))" by simp_all
  have d: "dotted [192, 168, 0, 7] = ''192.168.0.7''" by code_simp
  from ip4tos_prints_dotted_decimal [OF h] show ?thesis unfolding d by (simp add: numeral_eq_Suc)
qed

text \<open>
  C32. \<open>stoip4\<close> reads back what \<open>ip4tos\<close> wrote: for every address, whether the length passed is that of the
  text or up to the terminator of a longer buffer.
\<close>

theorem stoip4_ip4tos_roundtrip:
  assumes "length bs = 4" "16 \<le> length p" "length dest = 4" "ip4tos bs p = (p', n)" "n \<le> len" "len \<le> 16"
  shows "stoip4 (\<lambda>i. p' ! i) len dest = (True, bs)"
proof -
  have p': "p' = dotted bs @ NUL # drop (length (dotted bs) + 1) p" "n = length (dotted bs)"
    using ip4tos_dotted [OF assms(1), of p] dotted_length [OF assms(1)] assms(2,4) by auto
  have "reads (\<lambda>i. p' ! i) 0 (dotted bs)" by (simp add: reads_def p'(1) nth_append)
  then show ?thesis using assms(1,3,5,6) p' by (intro stoip4_dotted) (auto simp: nth_append)
qed

theorem stoip4_ip4tos_roundtrip_witness:
  "\<exists>p' n. ip4tos [10, 0, 255, 1] (replicate 16 NUL) = (p', n) \<and> stoip4 (\<lambda>i. p' ! i) n [9, 9, 9, 9] = (True, [10, 0, 255, 1])"
proof -
  obtain p' n where p: "ip4tos [10, 0, 255, 1] (replicate 16 NUL) = (p', n)" by (metis surj_pair)
  have h: "length [10, 0, 255, 1 :: u8] = 4" "16 \<le> length (replicate 16 NUL)" "length [9, 9, 9, 9 :: u8] = 4" by simp_all
  have "n \<le> 16" using ip4tos_dotted [OF h(1), of "replicate 16 NUL"] dotted_length [OF h(1)] p by simp
  with stoip4_ip4tos_roundtrip [OF h p order_refl] p show ?thesis by blast
qed

end
