(* ===== verification/Ip4Parse.thy ===== *)
theory Ip4Parse
  imports Ip4String
begin

text \<open>
  What \<open>stoip4\<close> accepts: exactly four decimal numbers up to 255 with dots between them, leading zeros allowed, that
  fill the given length or end at a null character; and what it may touch on any input.
\<close>

section \<open>The text form\<close>

definition number :: "string \<Rightarrow> nat" where
  "number t = foldl (\<lambda>v c. v * 10 + (code c - 48)) 0 t"

definition is_component :: "string \<Rightarrow> bool" where
  "is_component t \<longleftrightarrow> t \<noteq> [] \<and> (\<forall>c \<in> set t. is_digit c) \<and> number t \<le> 255"

fun dots :: "string list \<Rightarrow> string" where
  "dots [] = []"
| "dots [t] = t"
| "dots (t # ts) = t @ CHR ''.'' # dots ts"

definition ends_text :: "string \<Rightarrow> bool" where
  "ends_text rest \<longleftrightarrow> rest = [] \<or> hd rest = NUL"

text \<open>The characters of the text from an offset on.\<close>

abbreviation text_from :: "(nat \<Rightarrow> char) \<Rightarrow> nat \<Rightarrow> nat \<Rightarrow> string" where
  "text_from s n len \<equiv> map s [n..<len]"

lemma text_from_Cons: "n < len \<Longrightarrow> text_from s n len = s n # text_from s (Suc n) len"
  by (simp add: upt_conv_Cons)

lemma text_from_drop: "n + k \<le> len \<Longrightarrow> drop k (text_from s n len) = text_from s (n + k) len"
  by (simp add: drop_map)

section \<open>One number\<close>

lemma foldl_digits_mono: "v \<le> foldl (\<lambda>v c. v * 10 + (code c - 48)) v t"
proof (induction t arbitrary: v)
  case (Cons c t)
  have "v \<le> v * 10 + (code c - 48)" by simp
  also have "\<dots> \<le> foldl (\<lambda>v c. v * 10 + (code c - 48)) (v * 10 + (code c - 48)) t" by (rule Cons.IH)
  finally show ?case by simp
qed simp

lemma stoip4_number_result:
  assumes "n \<le> len" "b \<le> 255"
  shows "stoip4_number s len n b =
    (let t = takeWhile is_digit (text_from s n len); v = foldl (\<lambda>v c. v * 10 + (code c - 48)) b t
     in if v \<le> 255 then Some (n + length t, v) else None)"
  using assms
proof (induction "len - n" arbitrary: n b)
  case 0
  then show ?case by (subst stoip4_number.simps) simp
next
  case (Suc d)
  then have n: "n < len" by simp
  let ?b = "b * 10 + (code (s n) - 48)"
  show ?case
  proof (cases "is_digit (s n)")
    case False
    with n Suc.prems show ?thesis by (subst stoip4_number.simps) (simp add: text_from_Cons [OF n])
  next
    case True
    let ?t = "takeWhile is_digit (text_from s (Suc n) len)"
    have t: "takeWhile is_digit (text_from s n len) = s n # ?t" using True by (simp add: text_from_Cons [OF n])
    show ?thesis
    proof (cases "?b \<le> 255")
      case False
      then have "\<not> foldl (\<lambda>v c. v * 10 + (code c - 48)) ?b ?t \<le> 255" using foldl_digits_mono [of ?b ?t] by linarith
      with False True n show ?thesis by (subst stoip4_number.simps) (simp add: t Let_def)
    next
      case b: True
      have "stoip4_number s len (Suc n) ?b =
        (let t = ?t; v = foldl (\<lambda>v c. v * 10 + (code c - 48)) ?b t in if v \<le> 255 then Some (Suc n + length t, v) else None)"
        using Suc.hyps(1) [of "Suc n" ?b] Suc.hyps(2) n b by simp
      with b True n show ?thesis by (subst stoip4_number.simps) (simp add: t Let_def)
    qed
  qed
qed

section \<open>The components\<close>

fun components :: "nat \<Rightarrow> string \<Rightarrow> nat list option" where
  "components 0 xs = None"
| "components (Suc k) xs =
     (let t = takeWhile is_digit xs; r = dropWhile is_digit xs
      in if \<not> is_component t then None
         else if k = 0 then if ends_text r then Some [number t] else None
         else if r = [] \<or> hd r \<noteq> CHR ''.'' then None
         else map_option ((#) (number t)) (components k (tl r)))"

lemma components_length: "components k xs = Some vs \<Longrightarrow> length vs = k"
  by (induction k arbitrary: xs vs) (auto simp: Let_def split: if_splits)

lemma takeWhile_component: "is_component t \<Longrightarrow> r = [] \<or> \<not> is_digit (hd r) \<Longrightarrow>
    takeWhile is_digit (t @ r) = t \<and> dropWhile is_digit (t @ r) = r"
  by (cases r) (auto simp: is_component_def takeWhile_append2 dropWhile_append2)

lemma ends_text_digit: "ends_text r \<Longrightarrow> r = [] \<or> \<not> is_digit (hd r)"
  by (auto simp: ends_text_def not_digit)

lemma components_iff:
  "components k xs = Some vs \<longleftrightarrow> k \<noteq> 0 \<and> (\<exists>ts rest. length ts = k \<and> (\<forall>t \<in> set ts. is_component t) \<and>
     xs = dots ts @ rest \<and> ends_text rest \<and> vs = map number ts)"
proof (induction k arbitrary: xs vs)
  case 0
  then show ?case by simp
next
  case (Suc k)
  let ?t = "takeWhile is_digit xs" and ?r = "dropWhile is_digit xs"
  show ?case
  proof
    assume "components (Suc k) xs = Some vs"
    then have t: "is_component ?t" and c: "k = 0 \<and> ends_text ?r \<and> vs = [number ?t] \<or>
        k \<noteq> 0 \<and> ?r \<noteq> [] \<and> hd ?r = CHR ''.'' \<and> (\<exists>ws. components k (tl ?r) = Some ws \<and> vs = number ?t # ws)"
      by (auto simp: Let_def split: if_splits)
    from c show "Suc k \<noteq> 0 \<and> (\<exists>ts rest. length ts = Suc k \<and> (\<forall>t \<in> set ts. is_component t) \<and>
        xs = dots ts @ rest \<and> ends_text rest \<and> vs = map number ts)"
    proof (elim disjE conjE exE)
      assume "k = 0" "ends_text ?r" "vs = [number ?t]"
      with t show ?thesis by (intro conjI exI [of _ "[?t]"] exI [of _ ?r]) simp_all
    next
      fix ws assume k: "k \<noteq> 0" and r: "?r \<noteq> []" "hd ?r = CHR ''.''" and ws: "components k (tl ?r) = Some ws" "vs = number ?t # ws"
      obtain ts rest where ts: "length ts = k" "\<forall>t \<in> set ts. is_component t" "tl ?r = dots ts @ rest" "ends_text rest"
        "ws = map number ts"
        using Suc.IH [of "tl ?r" ws] ws(1) by blast
      obtain u us where us: "ts = u # us" using ts(1) k by (cases ts) auto
      have "xs = ?t @ hd ?r # tl ?r" using r(1) by simp
      then have "xs = dots (?t # ts) @ rest" using r(2) ts(3) us by simp
      with t ts ws show ?thesis by (intro conjI exI [of _ "?t # ts"] exI [of _ rest]) simp_all
    qed
  next
    assume "Suc k \<noteq> 0 \<and> (\<exists>ts rest. length ts = Suc k \<and> (\<forall>t \<in> set ts. is_component t) \<and>
        xs = dots ts @ rest \<and> ends_text rest \<and> vs = map number ts)"
    then obtain t ts rest where ts: "length ts = k" "is_component t" "\<forall>t \<in> set ts. is_component t"
      "xs = dots (t # ts) @ rest" "ends_text rest" "vs = number t # map number ts"
      by (auto simp: length_Suc_conv)
    show "components (Suc k) xs = Some vs"
    proof (cases ts)
      case Nil
      with ts takeWhile_component [OF ts(2) ends_text_digit [OF ts(5)]] show ?thesis by simp
    next
      case (Cons u us)
      let ?r = "CHR ''.'' # dots ts @ rest"
      have x: "xs = t @ ?r" using ts(4) Cons by simp
      have w: "takeWhile is_digit xs = t" "dropWhile is_digit xs = ?r"
        using takeWhile_component [OF ts(2), of ?r] by (simp_all add: x not_digit)
      have "components k (dots ts @ rest) = Some (map number ts)"
        unfolding Suc.IH using ts Cons by (intro conjI exI [of _ ts] exI [of _ rest]) simp_all
      then show ?thesis using w ts Cons by (simp add: Let_def)
    qed
  qed
qed

text \<open>The loop reads the components and stores them from the place of the first one on.\<close>

lemma stoip4_loop_components:
  assumes "n \<le> len" "k < 4" "length addr = 4"
  shows "case components (4 - k) (text_from s n len) of
      Some vs \<Rightarrow> stoip4_loop s len n k addr = (True, take k addr @ map of_nat vs)
    | None \<Rightarrow> \<not> fst (stoip4_loop s len n k addr)"
  using assms
proof (induction "4 - k" arbitrary: n k addr)
  case 0
  then show ?case by simp
next
  case (Suc d)
  let ?xs = "text_from s n len"
  let ?t = "takeWhile is_digit ?xs" and ?r = "dropWhile is_digit ?xs"
  have k: "4 - k = Suc (3 - k)" "d = 3 - k" using Suc.hyps(2) Suc.prems(2) by auto
  show ?case
  proof (cases "is_component ?t")
    case False
    have "\<not> fst (stoip4_loop s len n k addr)"
    proof (cases "n < len \<and> is_digit (s n)")
      case True
      then have "?t \<noteq> []" by (simp add: text_from_Cons)
      then have "\<not> number ?t \<le> 255" using False by (auto simp: is_component_def dest: set_takeWhileD)
      then have "stoip4_number s len n 0 = None"
        using stoip4_number_result [of n len 0 s] Suc.prems(1) by (simp add: number_def Let_def)
      with True show ?thesis by (subst stoip4_loop.simps) simp
    next
      case no: False
      then show ?thesis using Suc.prems(1) by (subst stoip4_loop.simps) auto
    qed
    with False show ?thesis by (simp add: k(1))
  next
    case comp: True
    let ?m = "n + length ?t" and ?a = "addr[k := of_nat (number ?t)]"
    have t: "?t \<noteq> []" "number ?t \<le> 255" using comp by (auto simp: is_component_def)
    then have n: "n < len" using Suc.prems(1) by (cases "n < len") auto
    have dn: "is_digit (s n)" using t(1) by (simp add: text_from_Cons [OF n] split: if_splits)
    have num: "stoip4_number s len n 0 = Some (?m, number ?t)"
      using stoip4_number_result [of n len 0 s] Suc.prems(1) t(2) by (simp add: number_def Let_def)
    have "length ?t \<le> length ?xs" by (rule length_takeWhile_le)
    then have m: "?m \<le> len" using n by simp
    have r: "?r = text_from s ?m len" using text_from_drop [OF m, of s] by (simp add: dropWhile_eq_drop)
    have rn: "?r = [] \<longleftrightarrow> ?m = len" using m n unfolding r by auto
    have rh: "hd ?r = s ?m" "tl ?r = text_from s (Suc ?m) len" if "?m \<noteq> len"
      using text_from_Cons [of ?m len s] m that unfolding r by simp_all
    have step: "stoip4_loop s len n k addr =
        (if k = 3 then (?m = len \<or> s ?m = NUL, ?a)
         else if ?m = len \<or> s ?m \<noteq> CHR ''.'' then (False, ?a) else stoip4_loop s len (Suc ?m) (Suc k) ?a)"
      using n dn num by (subst stoip4_loop.simps) (simp add: Let_def)
    have tk: "take (Suc k) ?a = take k addr @ [of_nat (number ?t)]"
      using Suc.prems(2,3) by (simp add: take_Suc_conv_app_nth)
    show ?thesis
    proof (cases "k = 3")
      case True
      have "take (Suc k) ?a = ?a" using True Suc.prems(3) by simp
      then have a: "?a = take k addr @ [of_nat (number ?t)]" using tk by simp
      have "ends_text ?r \<longleftrightarrow> ?m = len \<or> s ?m = NUL" using rn rh(1) unfolding ends_text_def by metis
      then show ?thesis using True comp step a by (simp add: k(1) Let_def)
    next
      case False
      show ?thesis
      proof (cases "?m = len \<or> s ?m \<noteq> CHR ''.''")
        case True
        then have "?r = [] \<or> hd ?r \<noteq> CHR ''.''" using rn rh(1) by metis
        with True False comp step show ?thesis using Suc.prems(2) by (simp add: k(1) Let_def)
      next
        case dot: False
        then have d: "?r \<noteq> []" "hd ?r = CHR ''.''" "tl ?r = text_from s (Suc ?m) len" using rn rh by auto
        have IH: "case components (4 - Suc k) (text_from s (Suc ?m) len) of
              Some vs \<Rightarrow> stoip4_loop s len (Suc ?m) (Suc k) ?a = (True, take (Suc k) ?a @ map of_nat vs)
            | None \<Rightarrow> \<not> fst (stoip4_loop s len (Suc ?m) (Suc k) ?a)"
          using dot m False Suc.prems(2,3) k by (intro Suc.hyps(1)) auto
        have "3 - k = 4 - Suc k" "3 - k \<noteq> 0" using False Suc.prems(2) by auto
        moreover have "components (4 - k) ?xs = map_option ((#) (number ?t)) (components (3 - k) (tl ?r))"
          using calculation(2) comp d(1,2) by (simp add: k(1) Let_def del: dropWhile_eq_Nil_conv)
        ultimately show ?thesis
          using IH dot False step tk d(3) by (cases "components (3 - k) (tl ?r)") simp_all
      qed
    qed
  qed
qed

section \<open>The properties\<close>

text \<open>
  C33. \<open>stoip4\<close> succeeds exactly on four decimal numbers of 0 to 255 with dots between them that end with the given
  length, at most 16, or at a null character before; it then has stored their values. Everything else is refused:
  numbers above 255, empty or missing components, other characters.
\<close>

theorem stoip4_accepts_dotted_decimal:
  assumes "length dest = 4"
  shows "stoip4 s len dest = (True, bs) \<longleftrightarrow> len \<le> 16 \<and>
    (\<exists>ts rest. length ts = 4 \<and> (\<forall>t \<in> set ts. is_component t) \<and> map s [0..<len] = dots ts @ rest \<and> ends_text rest \<and>
       bs = map (\<lambda>t. of_nat (number t)) ts)"
proof (cases "len \<le> 16")
  case True
  have "stoip4 s len dest = (True, bs) \<longleftrightarrow> (\<exists>vs. components 4 (map s [0..<len]) = Some vs \<and> bs = map of_nat vs)"
    using stoip4_loop_components [of 0 len 0 dest s] assms True
    by (cases "components 4 (map s [0..<len])") (auto simp: stoip4_def)
  also have "\<dots> \<longleftrightarrow> (\<exists>ts rest. length ts = 4 \<and> (\<forall>t \<in> set ts. is_component t) \<and> map s [0..<len] = dots ts @ rest \<and>
      ends_text rest \<and> bs = map (\<lambda>t. of_nat (number t)) ts)"
    (is "?L \<longleftrightarrow> ?R")
  proof
    assume ?R
    then obtain ts rest where ts: "length ts = 4" "\<forall>t \<in> set ts. is_component t" "map s [0..<len] = dots ts @ rest"
      "ends_text rest" "bs = map (\<lambda>t. of_nat (number t)) ts" by blast
    have "components 4 (map s [0..<len]) = Some (map number ts)"
      unfolding components_iff using ts by (intro conjI exI [of _ ts] exI [of _ rest]) simp_all
    then show ?L using ts(5) by (simp add: comp_def)
  qed (auto simp: components_iff comp_def)
  finally show ?thesis using True by simp
qed (simp add: stoip4_def)

theorem stoip4_accepts_dotted_decimal_witness:
  "stoip4 (\<lambda>i. ''10.02.0.255'' ! i) 11 [0, 0, 0, 0] = (True, [10, 2, 0, 255])"
proof -
  let ?ts = "[''10'', ''02'', ''0'', ''255'']"
  have l: "length [0, 0, 0, 0 :: u8] = 4" by simp
  have m: "map (\<lambda>i. ''10.02.0.255'' ! i) [0..<11] = dots ?ts @ []" by code_simp
  have c: "list_all is_component ?ts" "map (\<lambda>t. of_nat (number t)) ?ts = [10, 2, 0, 255 :: u8]" by code_simp+
  show ?thesis
    unfolding stoip4_accepts_dotted_decimal [OF l] m using c
    by (intro conjI exI [of _ ?ts] exI [of _ "[]"]) (simp_all add: list_all_iff ends_text_def)
qed

lemma stoip4_number_cong:
  assumes "\<And>i. i < len \<Longrightarrow> s i = s' i"
  shows "stoip4_number s len n b = stoip4_number s' len n b"
proof (induction "len - n" arbitrary: n b)
  case 0
  then show ?case by (subst (1 2) stoip4_number.simps) simp
next
  case (Suc d)
  then have "stoip4_number s len (n + 1) b' = stoip4_number s' len (n + 1) b'" for b' by simp
  moreover have "s n = s' n" using Suc.hyps(2) assms by simp
  ultimately show ?case by (subst (1 2) stoip4_number.simps) (simp add: Let_def)
qed

lemma stoip4_loop_cong:
  assumes eq: "\<And>i. i < len \<Longrightarrow> s i = s' i" and "n \<le> len"
  shows "stoip4_loop s len n k addr = stoip4_loop s' len n k addr"
  using assms(2)
proof (induction "len - n" arbitrary: n k addr rule: less_induct)
  case less
  have num: "stoip4_number s len n 0 = stoip4_number s' len n 0" by (rule stoip4_number_cong [OF eq])
  show ?case
  proof (cases "n < len \<and> is_digit (s n)")
    case False
    then have "n = len \<or> \<not> is_digit (s n) \<and> \<not> is_digit (s' n)" using eq less.prems by auto
    then show ?thesis by (subst (1 2) stoip4_loop.simps) auto
  next
    case True
    then have d: "is_digit (s' n)" using eq by auto
    show ?thesis
    proof (cases "stoip4_number s len n 0")
      case None
      then show ?thesis using True d num by (subst (1 2) stoip4_loop.simps) simp
    next
      case (Some p)
      obtain m b where p: "p = (m, b)" by (cases p)
      have m: "n < m" "m \<le> len" using stoip4_number_advances [of s len n 0 m b] Some p True by auto
      have sm: "m = len \<or> s m = s' m" using m(2) eq [of m] by (cases "m = len") simp_all
      have "m \<noteq> len \<Longrightarrow> stoip4_loop s len (m + 1) k' a = stoip4_loop s' len (m + 1) k' a" for k' a
        using m by (intro less.hyps) auto
      moreover have "stoip4_number s' len n 0 = Some (m, b)" "stoip4_number s len n 0 = Some (m, b)"
        using num Some p by simp_all
      ultimately show ?thesis using True d sm by (subst (1 2) stoip4_loop.simps) (auto simp: Let_def)
    qed
  qed
qed

lemma stoip4_loop_writes:
  assumes "n \<le> len" "k < 4"
  shows "length (snd (stoip4_loop s len n k addr)) = length addr \<and>
     (\<forall>i. 4 \<le> i \<longrightarrow> snd (stoip4_loop s len n k addr) ! i = addr ! i)"
  using assms
proof (induction "len - n" arbitrary: n k addr rule: less_induct)
  case less
  show ?case
  proof (cases "n < len \<and> is_digit (s n)")
    case False
    then show ?thesis using less.prems by (subst (1 2) stoip4_loop.simps) auto
  next
    case True
    show ?thesis
    proof (cases "stoip4_number s len n 0")
      case None
      then show ?thesis using True by (subst (1 2) stoip4_loop.simps) simp
    next
      case (Some p)
      obtain m b where p: "p = (m, b)" by (cases p)
      have m: "n < m" "m \<le> len" using stoip4_number_advances [of s len n 0 m b] Some p True by auto
      have IH: "length (snd (stoip4_loop s len (Suc m) (Suc k) a)) = length a \<and>
          (\<forall>i. 4 \<le> i \<longrightarrow> snd (stoip4_loop s len (Suc m) (Suc k) a) ! i = a ! i)" if "m \<noteq> len" "k \<noteq> 3" for a
        using m that less.prems by (intro less.hyps) auto
      show ?thesis using True Some p less.prems(2) IH by (subst (1 2) stoip4_loop.simps) (auto simp: Let_def)
    qed
  qed
qed

text \<open>
  C34. On any text \<open>stoip4\<close> returns, reads only characters before the given length, and writes only the first four bytes
  of the destination.
\<close>

theorem stoip4_stays_in_bounds:
  assumes "\<And>i. i < len \<Longrightarrow> s i = s' i"
  shows "stoip4 s len dest = stoip4 s' len dest \<and> length (snd (stoip4 s len dest)) = length dest \<and>
    drop 4 (snd (stoip4 s len dest)) = drop 4 dest"
proof -
  have "snd (stoip4 s len dest) ! i = dest ! i" if "4 \<le> i" "i < length dest" for i
    using stoip4_loop_writes [of 0 len 0 s dest] that by (auto simp: stoip4_def)
  moreover have l: "length (snd (stoip4 s len dest)) = length dest"
    using stoip4_loop_writes [of 0 len 0 s dest] by (simp add: stoip4_def)
  ultimately have "drop 4 (snd (stoip4 s len dest)) = drop 4 dest"
    by (intro nth_equalityI) auto
  with l show ?thesis using stoip4_loop_cong [OF assms, where n = 0 and k = 0 and addr = dest] by (simp add: stoip4_def)
qed

theorem stoip4_stays_in_bounds_witness:
  "stoip4 (\<lambda>i. ''1.2.3.45'' ! i) 7 [0, 0, 0, 0, 9] = stoip4 (\<lambda>i. ''1.2.3.4'' ! i) 7 [0, 0, 0, 0, 9]"
proof -
  have "''1.2.3.45'' ! i = ''1.2.3.4'' ! i" if "i < 7" for i
    using that by (auto simp: numeral_eq_Suc less_Suc_eq)
  from stoip4_stays_in_bounds [of 7 "\<lambda>i. ''1.2.3.45'' ! i" "\<lambda>i. ''1.2.3.4'' ! i", OF this] show ?thesis by blast
qed

end
