(* ===== verification/Ip6String.thy ===== *)
theory Ip6String
  imports TextModel CommonBits
begin

text \<open>
  IPv6 addresses as text: \<open>ip6tos\<close> and \<open>ip6_prefix_tos\<close> of \<open>libip6string/ip6tos.c\<close>, \<open>stoip6\<close>,
  \<open>sipv6_prefixlength\<close> and \<open>stoip6_prefix\<close> of \<open>libip6string/stoip6.c\<close>. Pointers into the text and into
  the address are offsets; \<open>size_t\<close> is a 32-bit word, so that its subtractions wrap around.
\<close>

section \<open>Printing\<close>

text \<open>The two bytes at \<open>addr\<close> as the code reads them, most significant first.\<close>

definition read_part :: "u8 list \<Rightarrow> nat \<Rightarrow> u32" where
  "read_part ip6addr addr =
     (let part = ucast (ip6addr ! addr)
      in push_bit 8 part OR ucast (ip6addr ! (addr + 1)))"

text \<open>The inner loop of the scan: to the first part that is not zero, which is consumed.\<close>

function zero_run :: "u8 list \<Rightarrow> nat \<Rightarrow> nat \<Rightarrow> nat \<times> nat" where
  "zero_run ip6addr addr n =
     (if n < 8 then
        if read_part ip6addr addr \<noteq> 0 then (addr + 2, n) else zero_run ip6addr (addr + 2) (n + 1)
      else (addr, n))"
  by pat_completeness auto
termination by (relation "measure (\<lambda>(_, _, n). 8 - n)") auto

declare zero_run.simps [simp del]

lemma zero_run_advances: "n \<le> snd (zero_run ip6addr addr n)"
proof (induction ip6addr addr n rule: zero_run.induct)
  case (1 ip6addr addr n)
  then show ?case by (subst zero_run.simps) auto
qed

function longest_zeros :: "u8 list \<Rightarrow> nat \<Rightarrow> nat \<Rightarrow> nat \<Rightarrow> nat \<Rightarrow> nat \<times> nat" where
  "longest_zeros ip6addr addr n zero_start zero_len =
     (if n < 8 then
        if read_part ip6addr addr \<noteq> 0
        then longest_zeros ip6addr (addr + 2) (n + 1) zero_start zero_len
        else
          let n0 = n;
              (addr, n) = zero_run ip6addr (addr + 2) (n0 + 1);
              (zero_start, zero_len) = (if n - n0 > zero_len then (n0, n - n0) else (zero_start, zero_len))
          in longest_zeros ip6addr addr (n + 1) zero_start zero_len
      else (zero_start, zero_len))"
  by pat_completeness auto
termination
proof (relation "measure (\<lambda>(_, _, n, _, _). 8 - n)", goal_cases)
  case (3 ip6addr addr n zero_start zero_len n0 r addr' n' p zs zl)
  then have "n + 1 \<le> n'" using zero_run_advances [of "n + 1" ip6addr "addr + 2"] by (metis snd_conv)
  with 3 show ?case by simp
qed simp_all

declare longest_zeros.simps [simp del]

text \<open>The printing loop; on a run of length 0 it would not end.\<close>

partial_function (option) print_parts ::
    "u8 list \<Rightarrow> nat \<Rightarrow> nat \<Rightarrow> nat \<Rightarrow> nat \<Rightarrow> text_memory \<Rightarrow> nat \<Rightarrow> (text_memory \<times> nat) option" where
  "print_parts ip6addr zero_start zero_len addr n p pos =
     (if n < 8 then
        if n = zero_start then
          let (p, pos) = (if n = 0 then (p(pos := CHR '':''), pos + 1) else (p, pos));
              (p, pos) = (p(pos := CHR '':''), pos + 1)
          in print_parts ip6addr zero_start zero_len (addr + 2 * zero_len) (n + zero_len) p pos
        else
          let part = read_part ip6addr addr;
              n = n + 1;
              (p, len) = sprintf p pos (hexs (unat part));
              pos = pos + len;
              (p, pos) = (if n \<noteq> 8 then (p(pos := CHR '':''), pos + 1) else (p, pos))
          in print_parts ip6addr zero_start zero_len (addr + 2) n p pos
      else Some (p, pos))"

declare print_parts.simps [code]

text \<open>\<open>ip6tos\<close> into the memory from \<open>p_orig\<close> on; the value is the length of the text.\<close>

definition ip6tos :: "u8 list \<Rightarrow> text_memory \<Rightarrow> nat \<Rightarrow> (text_memory \<times> nat) option" where
  "ip6tos ip6addr p p_orig =
     (let (zero_start, zero_len) = longest_zeros ip6addr 0 0 255 1
      in case print_parts ip6addr zero_start zero_len 0 0 p p_orig of
           None \<Rightarrow> None
         | Some (p, pos) \<Rightarrow> Some (p(pos := NUL), pos - p_orig))"

definition ip6_prefix_tos :: "u8 list \<Rightarrow> u8 \<Rightarrow> text_memory \<Rightarrow> (text_memory \<times> nat) option" where
  "ip6_prefix_tos prefix prefix_len p =
     (if prefix_len > 128 then Some (p, 0)
      else
        let addr = replicate 16 0;
            (addr, _) = bitcopy addr prefix prefix_len
        in case ip6tos addr p 0 of
             None \<Rightarrow> None
           | Some (p, len) \<Rightarrow>
               let wptr = len;
                   (p, len) = sprintf p wptr (CHR ''/'' # dec (unat prefix_len))
               in Some (p, wptr + len))"

section \<open>Parsing\<close>

definition is_hex :: "char \<Rightarrow> bool" where
  "is_hex c \<longleftrightarrow>
     (let folded = (of_char c :: int) AND NOT 0x20
      in of_char (CHR ''A'') \<le> folded \<and> folded \<le> of_char (CHR ''F'')) \<or>
     code (CHR ''0'') \<le> code c \<and> code c \<le> code (CHR ''9'')"

definition hex_digit_value :: "char \<Rightarrow> u16 option" where
  "hex_digit_value c =
     (if code (CHR ''0'') \<le> code c \<and> code c \<le> code (CHR ''9'') then Some (of_nat (code c - code (CHR ''0'')))
      else if code (CHR ''A'') \<le> code c \<and> code c \<le> code (CHR ''F'')
      then Some (10 + of_nat (code c - code (CHR ''A'')))
      else if code (CHR ''a'') \<le> code c \<and> code c \<le> code (CHR ''f'')
      then Some (10 + of_nat (code c - code (CHR ''a'')))
      else None)"

text \<open>\<open>hex\<close> reads to the first character that is no digit, wherever that is.\<close>

partial_function (option) hex_loop :: "text_memory \<Rightarrow> nat \<Rightarrow> u16 \<Rightarrow> u16 option" where
  "hex_loop s p val =
     (case hex_digit_value (s p) of
        Some d \<Rightarrow> hex_loop s (p + 1) (push_bit 4 val OR d)
      | None \<Rightarrow> Some val)"

declare hex_loop.simps [code]

definition hex :: "text_memory \<Rightarrow> nat \<Rightarrow> u16 option" where
  "hex s p = hex_loop s p 0"

text \<open>To the next colon or the end; \<open>None\<close> on a character that is neither.\<close>

function seek_colon :: "text_memory \<Rightarrow> nat \<Rightarrow> u32 \<Rightarrow> (nat \<times> u32) option" where
  "seek_colon s q len =
     (if len \<noteq> 0 \<and> s q \<noteq> NUL \<and> s q \<noteq> CHR '':'' then
        if \<not> is_hex (s q) then None else seek_colon s (q + 1) (len - 1)
      else Some (q, len))"
  by pat_completeness auto
termination
  by (relation "measure (\<lambda>(_, _, len). unat len)") (auto simp: unat_minus_one unat_gt_0)

declare seek_colon.simps [simp del]

text \<open>
  The main loop. It ends with the number of fields and the position of \<open>::\<close>, or with the jump to
  \<open>error\<close>; in both cases with the destination as written so far.
\<close>

datatype fields_exit = Fields nat int "u8 list" | Parse_error "u8 list"

partial_function (option) stoip6_fields ::
    "text_memory \<Rightarrow> nat \<Rightarrow> u32 \<Rightarrow> nat \<Rightarrow> int \<Rightarrow> u8 list \<times> nat \<Rightarrow> fields_exit option" where
  "stoip6_fields s p len field_no coloncolon addr =
     (if len \<noteq> 0 \<and> s p \<noteq> NUL then
        case seek_colon s p len of
          None \<Rightarrow> Some (Parse_error (fst addr))
        | Some (q, len) \<Rightarrow>
            if q - p > 4 then Some (Parse_error (fst addr))
            else if field_no = 8 then Some (Parse_error (fst addr))
            else case hex s p of
              None \<Rightarrow> None
            | Some v \<Rightarrow>
                let addr = common_write_16_bit v addr;
                    field_no = field_no + 1
                in if len \<noteq> 0 then
                     if s q = CHR '':'' \<and> s (q + 1) = CHR '':'' then
                       if coloncolon \<noteq> -1 then Some (Parse_error (fst addr))
                       else let coloncolon = int field_no; q = q + 1; len = len - 2
                            in stoip6_fields s (q + 1) len field_no coloncolon addr
                     else let len = len - 1
                          in stoip6_fields s (q + 1) len field_no coloncolon addr
                   else stoip6_fields s (q + 1) len field_no coloncolon addr
      else Some (Fields field_no coloncolon (fst addr)))"

declare stoip6_fields.simps [code]

definition memmove :: "'a list \<Rightarrow> nat \<Rightarrow> nat \<Rightarrow> nat \<Rightarrow> 'a list" where
  "memmove m dst src n = take dst m @ take n (drop src m) @ drop (dst + n) m"

definition memset :: "'a list \<Rightarrow> nat \<Rightarrow> 'a \<Rightarrow> nat \<Rightarrow> 'a list" where
  "memset m dst c n = take dst m @ replicate n c @ drop (dst + n) m"

definition stoip6 :: "text_memory \<Rightarrow> u32 \<Rightarrow> u8 list \<Rightarrow> (bool \<times> u8 list) option" where
  "stoip6 ip6addr len dest =
     (let error = (\<lambda>dest. Some (False, memset dest 0 0 16))
      in if len > 39 then error dest
         else case stoip6_fields ip6addr 0 len 0 (-1) (dest, 0) of
           None \<Rightarrow> None
         | Some (Parse_error dest) \<Rightarrow> error dest
         | Some (Fields field_no coloncolon dest) \<Rightarrow>
             if coloncolon \<noteq> -1 then
               let head_size = 2 * nat coloncolon;
                   inserted_size = 2 * (8 - field_no);
                   tail_size = 16 - head_size - inserted_size;
                   dest = memmove dest (head_size + inserted_size) head_size tail_size
               in Some (True, memset dest head_size 0 inserted_size)
             else if field_no \<noteq> 8 then error dest
             else Some (True, dest))"

definition sipv6_prefixlength :: "text_memory \<Rightarrow> u8 option" where
  "sipv6_prefixlength ip6addr =
     (case strchr ip6addr (CHR ''/'') of
        None \<Rightarrow> None
      | Some (Some ptr) \<Rightarrow> map_option ucast (strtoul ip6addr (ptr + 1))
      | Some None \<Rightarrow> Some 0)"

text \<open>
  \<open>prefix_len_out\<close> is \<open>None\<close> for a null pointer, else the value behind it; the result is the status, the
  destination and the new value. \<open>int_fast16_t\<close> is a 32-bit signed integer.
\<close>

definition stoip6_prefix ::
    "text_memory \<Rightarrow> u8 list \<Rightarrow> int option \<Rightarrow> (int \<times> u8 list \<times> int option) option" where
  "stoip6_prefix ip6addr dest prefix_len_out =
     (let prefix_len_out = map_option (\<lambda>_. -1) prefix_len_out;
          parse = (\<lambda>addr_len prefix_len_out.
            case stoip6 ip6addr (of_nat addr_len) dest of
              None \<Rightarrow> None
            | Some (ok, dest) \<Rightarrow> Some (if \<not> ok then -1 else 0, dest, prefix_len_out))
      in case strlen ip6addr of None \<Rightarrow> None | Some total_len \<Rightarrow>
         case strchr ip6addr (CHR ''/'') of
           None \<Rightarrow> None
         | Some None \<Rightarrow> parse total_len prefix_len_out
         | Some (Some ptr) \<Rightarrow>
             let addr_len = ptr
             in if prefix_len_out = None then parse addr_len prefix_len_out
                else if total_len - addr_len > 3 then Some (-1, dest, prefix_len_out)
                else case strtoul ip6addr (ptr + 1) of
                  None \<Rightarrow> None
                | Some v \<Rightarrow>
                    let prefix_length = sint v
                    in if prefix_length < 0 \<or> prefix_length > 128 then Some (-1, dest, prefix_len_out)
                       else parse addr_len (Some prefix_length))"

end
