(* ===== verification/Ip6Print.thy ===== *)
theory Ip6Print
  imports Ip6String
begin

text \<open>
  What \<open>ip6tos\<close> prints: the form RFC 5952 prescribes, with the longest run of zero parts, the first one
  among equals, written as \<open>::\<close>.
\<close>

section \<open>The text of an address\<close>

fun colons :: "string list \<Rightarrow> string" where
  "colons [] = []"
| "colons [t] = t"
| "colons (t # ts) = t @ CHR '':'' # colons ts"

definition parts_of :: "u8 list \<Rightarrow> nat list" where
  "parts_of ip = map (\<lambda>k. unat (ip ! (2 * k)) * 256 + unat (ip ! (2 * k + 1))) [0..<8]"

text \<open>A run of zero parts, and the one to be compressed: the longest, first, of at least two parts.\<close>

definition zero_stretch :: "nat list \<Rightarrow> nat \<Rightarrow> nat \<Rightarrow> bool" where
  "zero_stretch ps i k \<longleftrightarrow> i + k \<le> length ps \<and> (\<forall>j < k. ps ! (i + j) = 0)"

definition compressed_run :: "nat list \<Rightarrow> (nat \<times> nat) option \<Rightarrow> bool" where
  "compressed_run ps run = (case run of
     None \<Rightarrow> (\<forall>i < length ps. \<forall>k \<le> length ps. zero_stretch ps i k \<longrightarrow> k < 2)
   | Some (start, len) \<Rightarrow> 2 \<le> len \<and> zero_stretch ps start len \<and>
       (\<forall>i < length ps. \<forall>k \<le> length ps. zero_stretch ps i k \<longrightarrow> k \<le> len \<and> (k = len \<longrightarrow> start \<le> i)))"

definition rfc5952_text :: "nat list \<Rightarrow> (nat \<times> nat) option \<Rightarrow> string" where
  "rfc5952_text ps run = (case run of
     None \<Rightarrow> colons (map hexs ps)
   | Some (start, len) \<Rightarrow> colons (map hexs (take start ps)) @ ''::'' @ colons (map hexs (drop (start + len) ps)))"

section \<open>Texts in memory\<close>

lemma store_append: "store p pos (xs @ ys) = store (store p pos xs) (pos + length xs) ys"
  by (induction xs arbitrary: p pos) auto

lemma store_outside: "i < pos \<or> pos + length xs \<le> i \<Longrightarrow> store p pos xs i = p i"
  by (induction xs arbitrary: p pos) auto

lemma store_reads: "reads (store p pos xs) pos xs"
  by (induction xs arbitrary: p pos) (auto simp: store_outside)

lemma store_replace_last: "(store p pos (xs @ [c]))(pos + length xs := d) = store p pos (xs @ [d])"
  by (simp add: store_append)

section \<open>Parts\<close>

lemma read_part_value:
  "unat (read_part ip a) = unat (ip ! a) * 256 + unat (ip ! (a + 1))"
proof -
  let ?h = "ucast (ip ! a) :: u32" and ?l = "ucast (ip ! (a + 1)) :: u32"
  have b: "unat ?h = unat (ip ! a)" "unat ?l = unat (ip ! (a + 1))" "unat (ip ! a) < 256" "unat (ip ! (a + 1)) < 256"
    using unsigned_less [of "ip ! a", where 'a = nat] unsigned_less [of "ip ! (a + 1)", where 'a = nat]
    by (simp_all add: unsigned_ucast_eq take_bit_nat_eq_self)
  have "push_bit 8 ?h AND ?l = 0"
    by (rule bit_word_eqI) (auto simp: bit_and_iff bit_push_bit_iff bit_ucast_iff dest: bit_imp_le_length)
  then have "push_bit 8 ?h OR ?l = push_bit 8 ?h + ?l" using word_plus_and_or [of "push_bit 8 ?h" ?l] by simp
  moreover have h: "unat (push_bit 8 ?h) = unat (ip ! a) * 256"
    unfolding unsigned_push_bit_eq b(1) using b(3) by (simp add: push_bit_eq_mult take_bit_nat_eq_self)
  moreover have "unat (push_bit 8 ?h + ?l) = unat (push_bit 8 ?h) + unat ?l"
    using b h by (intro unat_plus_simple [THEN iffD1] no_olen_add_nat [THEN iffD2]) simp
  ultimately show ?thesis using b by (simp add: read_part_def Let_def)
qed

lemma interval_extend:
  "P n \<Longrightarrow> \<forall>k. n + 1 \<le> k \<and> k < n' \<longrightarrow> P k \<Longrightarrow> \<forall>k. n \<le> k \<and> k < n' \<longrightarrow> P k" for n n' :: nat
proof (intro allI impI)
  fix k assume p: "P n" "\<forall>k. n + 1 \<le> k \<and> k < n' \<longrightarrow> P k" and k: "n \<le> k \<and> k < n'"
  show "P k"
  proof (cases "k = n")
    case False
    then have "n + 1 \<le> k \<and> k < n'" using k by simp
    with p(2) show ?thesis by blast
  qed (use p(1) in blast)
qed

lemma read_part_parts: "k < 8 \<Longrightarrow> unat (read_part ip (2 * k)) = parts_of ip ! k"
  by (simp add: read_part_value parts_of_def)

lemma read_part_zero: "k < 8 \<Longrightarrow> read_part ip (2 * k) = 0 \<longleftrightarrow> parts_of ip ! k = 0"
  using read_part_parts [of k ip] by (metis unat_eq_0)

lemma length_parts_of [simp]: "length (parts_of ip) = 8"
  by (simp add: parts_of_def)

lemma parts_of_nonempty [simp]: "parts_of ip \<noteq> []"
  using length_parts_of [of ip] by fastforce

lemma parts_of_less: "x \<in> set (parts_of ip) \<Longrightarrow> x < 65536"
proof -
  assume "x \<in> set (parts_of ip)"
  then obtain a b :: u8 where "x = unat a * 256 + unat b" by (auto simp: parts_of_def)
  then show ?thesis using unsigned_less [of a, where 'a = nat] unsigned_less [of b, where 'a = nat] by simp
qed

section \<open>The scan for zeros\<close>

lemma zero_run_result:
  assumes "n \<le> 8" "zero_run ip (2 * n) n = (a', n')"
  shows "n \<le> n' \<and> n' \<le> 8 \<and> (\<forall>k. n \<le> k \<and> k < n' \<longrightarrow> parts_of ip ! k = 0) \<and>
    (n' < 8 \<longrightarrow> parts_of ip ! n' \<noteq> 0 \<and> a' = 2 * (n' + 1))"
  using assms
proof (induction "8 - n" arbitrary: n)
  case 0
  then show ?case by (subst (asm) zero_run.simps) auto
next
  case (Suc d)
  show ?case
  proof (cases "parts_of ip ! n = 0")
    case True
    then have z: "zero_run ip (2 * (n + 1)) (n + 1) = (a', n')"
      using Suc.prems Suc.hyps(2) by (subst (asm) zero_run.simps) (simp add: read_part_zero split: if_splits)
    have "n + 1 \<le> n' \<and> n' \<le> 8 \<and> (\<forall>k. n + 1 \<le> k \<and> k < n' \<longrightarrow> parts_of ip ! k = 0) \<and>
        (n' < 8 \<longrightarrow> parts_of ip ! n' \<noteq> 0 \<and> a' = 2 * (n' + 1))"
      using Suc.hyps(2) by (intro Suc.hyps(1) [OF _ _ z]) auto
    with interval_extend [where P = "\<lambda>k. parts_of ip ! k = 0", OF True] show ?thesis by auto
  next
    case False
    then show ?thesis
      using Suc.prems Suc.hyps(2) by (subst (asm) zero_run.simps) (auto simp: read_part_zero split: if_splits)
  qed
qed

text \<open>Between two scanned stretches: no run reaches over \<open>n\<close>, and the best one before \<open>n\<close> is known.\<close>

definition scanned :: "nat list \<Rightarrow> nat \<Rightarrow> nat \<Rightarrow> nat \<Rightarrow> bool" where
  "scanned ps n zs zl \<longleftrightarrow>
     (\<forall>i k. i < n \<longrightarrow> 0 < k \<longrightarrow> zero_stretch ps i k \<longrightarrow> i + k \<le> n \<and> k \<le> zl \<and> (k = zl \<and> 2 \<le> zl \<longrightarrow> zs \<le> i)) \<and>
     (zs = 255 \<and> zl = 1 \<or> 2 \<le> zl \<and> zs < n \<and> zero_stretch ps zs zl)"

lemma scannedD:
  "scanned ps n zs zl \<Longrightarrow> zero_stretch ps i k \<Longrightarrow> i < n \<Longrightarrow> 0 < k \<Longrightarrow>
     i + k \<le> n \<and> k \<le> zl \<and> (k = zl \<and> 2 \<le> zl \<longrightarrow> zs \<le> i)"
  unfolding scanned_def by (drule conjunct1, drule spec [of _ i], drule spec [of _ k]) simp

lemma scanned_best:
  "scanned ps n zs zl \<Longrightarrow> zs = 255 \<and> zl = 1 \<or> 2 \<le> zl \<and> zs < n \<and> zero_stretch ps zs zl"
  unfolding scanned_def by (rule conjunct2)

lemma scanned_nonzero:
  assumes s: "scanned ps n zs zl" and n: "n < length ps" "ps ! n \<noteq> 0"
  shows "scanned ps (n + 1) zs zl"
  unfolding scanned_def
proof (intro conjI allI impI)
  fix i k assume a: "i < n + 1" "0 < k" "zero_stretch ps i k"
  have "i \<noteq> n" using a n(2) by (auto simp: zero_stretch_def)
  with a have "i < n" by simp
  from scannedD [OF s a(3) this a(2)] show "i + k \<le> n + 1" "k \<le> zl"
    and "k = zl \<and> 2 \<le> zl \<Longrightarrow> zs \<le> i" by auto
next
  show "zs = 255 \<and> zl = 1 \<or> 2 \<le> zl \<and> zs < n + 1 \<and> zero_stretch ps zs zl"
    using scanned_best [OF s] by auto
qed

lemma scanned_stretch:
  assumes s: "scanned ps n zs zl" and n: "n < n'" "n' \<le> length ps" "\<forall>k. n \<le> k \<and> k < n' \<longrightarrow> ps ! k = 0"
    "n' < length ps \<longrightarrow> ps ! n' \<noteq> 0"
    and new: "(zs', zl') = (if n' - n > zl then (n, n' - n) else (zs, zl))"
  shows "scanned ps (n' + 1) zs' zl'"
  unfolding scanned_def
proof (intro conjI allI impI)
  have zl: "1 \<le> zl" using scanned_best [OF s] by auto
  have new_run: "zero_stretch ps n (n' - n)" using n by (simp add: zero_stretch_def)
  show "zs' = 255 \<and> zl' = 1 \<or> 2 \<le> zl' \<and> zs' < n' + 1 \<and> zero_stretch ps zs' zl'"
    using scanned_best [OF s] new n new_run zl by (auto split: if_splits)
  fix i k assume a: "i < n' + 1" "0 < k" "zero_stretch ps i k"
  have in': "i + k \<le> n'" if "n \<le> i"
  proof (rule ccontr)
    assume "\<not> i + k \<le> n'"
    then have "n' < i + k" by simp
    then have "n' < length ps" "n' - i < k" using a by (auto simp: zero_stretch_def)
    moreover from this(2) have "ps ! (i + (n' - i)) = 0" using a(3) unfolding zero_stretch_def by blast
    ultimately show False using n(4) a(1) by simp
  qed
  have k: "k \<le> n' - n" if "n \<le> i" using in' [OF that] that by simp
  consider "i < n" "i + k \<le> n" "k \<le> zl" "k = zl \<and> 2 \<le> zl \<longrightarrow> zs \<le> i" | "n \<le> i"
    using scannedD [OF s a(3) _ a(2)] by (cases "i < n") auto
  note cases = this
  show "i + k \<le> n' + 1" using cases in' n(1) by cases auto
  show "k \<le> zl'" using cases k new by cases (auto split: if_splits)
  assume "k = zl' \<and> 2 \<le> zl'"
  then show "zs' \<le> i"
  proof (cases rule: cases [case_names before after])
    case before
    then show ?thesis using \<open>k = zl' \<and> 2 \<le> zl'\<close> new by (auto split: if_splits)
  next
    case after
    have "zs < n" if "2 \<le> zl" using scanned_best [OF s] that by auto
    then show ?thesis using after \<open>k = zl' \<and> 2 \<le> zl'\<close> new k by (auto split: if_splits)
  qed
qed

lemma longest_zeros_result:
  assumes "scanned (parts_of ip) n zs zl" "longest_zeros ip (2 * n) n zs zl = (zs', zl')"
  shows "\<exists>n' \<ge> 8. scanned (parts_of ip) n' zs' zl'"
  using assms
proof (induction "8 - n" arbitrary: n zs zl rule: less_induct)
  case less
  show ?case
  proof (cases "n < 8")
    case False
    then show ?thesis using less.prems by (subst (asm) longest_zeros.simps) (auto intro!: exI [of _ n])
  next
    case n: True
    show ?thesis
    proof (cases "parts_of ip ! n = 0")
      case False
      then have l: "longest_zeros ip (2 * (n + 1)) (n + 1) zs zl = (zs', zl')"
        using less.prems(2) n by (subst (asm) longest_zeros.simps) (simp add: read_part_zero)
      show ?thesis
        by (rule less.hyps [OF _ scanned_nonzero l]) (use n False less.prems(1) in simp_all)
    next
      case True
      obtain a' n' where r: "zero_run ip (2 * (n + 1)) (n + 1) = (a', n')" by (metis surj_pair)
      obtain zs1 zl1 where new: "(zs1, zl1) = (if n' - n > zl then (n, n' - n) else (zs, zl))" by (metis surj_pair)
      have run: "n + 1 \<le> n'" "n' \<le> 8" "\<forall>k. n + 1 \<le> k \<and> k < n' \<longrightarrow> parts_of ip ! k = 0"
        "n' < 8 \<longrightarrow> parts_of ip ! n' \<noteq> 0" "n' < 8 \<longrightarrow> a' = 2 * (n' + 1)"
        using zero_run_result [OF _ r] n by auto
      have all: "\<forall>k. n \<le> k \<and> k < n' \<longrightarrow> parts_of ip ! k = 0"
        using interval_extend [where P = "\<lambda>k. parts_of ip ! k = 0", OF True run(3)] .
      have s: "scanned (parts_of ip) (n' + 1) zs1 zl1"
        by (rule scanned_stretch [OF less.prems(1) _ _ all _ new]) (use run in simp_all)
      have l: "longest_zeros ip a' (n' + 1) zs1 zl1 = (zs', zl')"
        using less.prems(2) n True r new by (subst (asm) longest_zeros.simps) (simp add: read_part_zero Let_def new [symmetric])
      show ?thesis
      proof (cases "n' < 8")
        case True
        show ?thesis by (rule less.hyps [OF _ s]) (use l run True in simp_all)
      next
        case False
        then have "(zs1, zl1) = (zs', zl')" using l by (subst (asm) longest_zeros.simps) simp
        with s False show ?thesis by (auto intro!: exI [of _ "n' + 1"])
      qed
    qed
  qed
qed

lemma longest_zeros_compressed:
  assumes "longest_zeros ip 0 0 255 1 = (zs, zl)"
  shows "zs = 255 \<and> zl = 1 \<and> compressed_run (parts_of ip) None \<or>
    zs + zl \<le> 8 \<and> 2 \<le> zl \<and> compressed_run (parts_of ip) (Some (zs, zl))"
proof -
  have "scanned (parts_of ip) 0 255 1" by (simp add: scanned_def)
  then obtain n' where n': "8 \<le> n'" "scanned (parts_of ip) n' zs zl"
    using longest_zeros_result [of ip 0 255 1] assms by auto
  have best: "k \<le> zl \<and> (k = zl \<longrightarrow> zs \<le> i)" if "i < 8" "zero_stretch (parts_of ip) i k" "2 \<le> zl" for i k
    using scannedD [OF n'(2) that(2)] n'(1) that by (cases "k = 0") auto
  have small: "k \<le> 1" if "i < 8" "zero_stretch (parts_of ip) i k" "zl = 1" for i k
    using scannedD [OF n'(2) that(2)] n'(1) that by (cases "k = 0") auto
  consider "zs = 255" "zl = 1" | "2 \<le> zl" "zero_stretch (parts_of ip) zs zl" using scanned_best [OF n'(2)] by auto
  then show ?thesis
  proof cases
    case 1
    then show ?thesis using small by (fastforce simp: compressed_run_def)
  next
    case 2
    then show ?thesis using best by (auto simp: compressed_run_def zero_stretch_def)
  qed
qed

section \<open>The printing loop\<close>

lemma sprintf_then:
  "sprintf p pos t = (store p pos (t @ [NUL]), length t)"
  "(store p pos (t @ [NUL]))(pos + length t := c) = store p pos (t @ [c])"
  by (simp_all add: sprintf_def store_replace_last)

text \<open>The loop prints \<open>t\<close>: it returns behind it, and with a null character there the memory holds \<open>t\<close>.\<close>

definition prints :: "text_memory \<Rightarrow> nat \<Rightarrow> string \<Rightarrow> (text_memory \<times> nat) option \<Rightarrow> bool" where
  "prints p pos t r \<longleftrightarrow> (\<exists>p'. r = Some (p', pos + length t) \<and> p'(pos + length t := NUL) = store p pos (t @ [NUL]))"

lemma prints_append: "prints (store p pos xs) (pos + length xs) ys r \<Longrightarrow> prints p pos (xs @ ys) r"
  by (auto simp: prints_def store_append add.assoc)

lemma colons_Cons: "ts \<noteq> [] \<Longrightarrow> colons (t # ts) = t @ CHR '':'' # colons ts"
  by (cases ts) auto

lemma print_part:
  assumes n: "n < 8" "n \<noteq> zs" and r: "ps = parts_of ip"
  shows "print_parts ip zs zl (2 * n) n p pos =
    (let t = hexs (ps ! n) @ (if n + 1 \<noteq> 8 then [CHR '':''] else [])
     in print_parts ip zs zl (2 * (n + 1)) (n + 1)
          (if n + 1 \<noteq> 8 then store p pos t else store p pos (t @ [NUL])) (pos + length t))"
  using n read_part_parts [OF n(1), of ip]
  by (cases "n = 7"; subst print_parts.simps) (simp_all add: sprintf_then Let_def r)

lemma print_end: "print_parts ip zs zl a 8 p pos = Some (p, pos)"
  by (subst print_parts.simps) simp

lemma print_plain:
  assumes "n \<le> 8" "zs < n \<or> 8 \<le> zs"
  shows "prints p pos (colons (map hexs (drop n (parts_of ip)))) (print_parts ip zs zl (2 * n) n p pos)"
  using assms
proof (induction "8 - n" arbitrary: n p pos)
  case 0
  then show ?case by (simp add: print_end prints_def)
next
  case (Suc d)
  let ?ps = "parts_of ip"
  have n: "n < 8" "n \<noteq> zs" using Suc.prems Suc.hyps(2) by auto
  have d: "drop n ?ps = ?ps ! n # drop (n + 1) ?ps" using n by (simp add: Cons_nth_drop_Suc)
  show ?case
  proof (cases "n + 1 = 8")
    case True
    then show ?thesis
      unfolding print_part [OF n refl] d
      using store_replace_last [of p pos "hexs (?ps ! n)" NUL NUL] by (simp add: prints_def Let_def print_end)
  next
    case False
    have c: "colons (map hexs (drop n ?ps)) = (hexs (?ps ! n) @ [CHR '':'']) @ colons (map hexs (drop (n + 1) ?ps))"
      unfolding d using False n by (simp add: colons_Cons)
    have "prints (store p pos (hexs (?ps ! n) @ [CHR '':''])) (pos + length (hexs (?ps ! n) @ [CHR '':'']))
      (colons (map hexs (drop (n + 1) ?ps)))
      (print_parts ip zs zl (2 * (n + 1)) (n + 1) (store p pos (hexs (?ps ! n) @ [CHR '':'']))
        (pos + length (hexs (?ps ! n) @ [CHR '':''])))"
      using Suc.hyps(2) Suc.prems n by (intro Suc.hyps(1)) auto
    then show ?thesis
      unfolding c print_part [OF n refl] using False by (intro prints_append) (simp add: Let_def)
  qed
qed

definition lead :: "string list \<Rightarrow> string" where
  "lead ts = concat (map (\<lambda>t. t @ [CHR '':'']) ts)"

lemma lead_colons: "ts \<noteq> [] \<Longrightarrow> lead ts = colons ts @ [CHR '':'']"
  by (induction ts rule: colons.induct) (auto simp: lead_def)

lemma print_run:
  assumes zl: "0 < zl" and z: "zs + zl \<le> 8"
  shows "prints p pos ((if zs = 0 then [CHR '':''] else []) @ CHR '':'' # colons (map hexs (drop (zs + zl) (parts_of ip))))
    (print_parts ip zs zl (2 * zs) zs p pos)"
proof -
  let ?t = "(if zs = 0 then [CHR '':''] else []) @ [CHR '':'']"
  have "print_parts ip zs zl (2 * zs) zs p pos =
      print_parts ip zs zl (2 * (zs + zl)) (zs + zl) (store p pos ?t) (pos + length ?t)"
    using assms by (subst print_parts.simps) (simp add: Let_def)
  moreover have "prints (store p pos ?t) (pos + length ?t) (colons (map hexs (drop (zs + zl) (parts_of ip))))
      (print_parts ip zs zl (2 * (zs + zl)) (zs + zl) (store p pos ?t) (pos + length ?t))"
    using assms by (intro print_plain) auto
  ultimately show ?thesis using prints_append [of p pos ?t] by simp
qed

lemma print_with_run:
  assumes zl: "0 < zl" and z: "zs + zl \<le> 8" and n: "n \<le> zs"
    and t: "t = lead (map hexs (take (zs - n) (drop n (parts_of ip)))) @ (if zs = 0 then [CHR '':''] else []) @
      CHR '':'' # colons (map hexs (drop (zs + zl) (parts_of ip)))"
  shows "prints p pos t (print_parts ip zs zl (2 * n) n p pos)"
  using n t
proof (induction "zs - n" arbitrary: n p pos t)
  case 0
  then show ?case using print_run [OF zl z] by (simp add: lead_def)
next
  case (Suc d)
  let ?ps = "parts_of ip" and ?c = "(if zs = 0 then [CHR '':''] else []) @ CHR '':'' # colons (map hexs (drop (zs + zl) (parts_of ip)))"
  have n: "n < 8" "n \<noteq> zs" "n + 1 \<noteq> 8" using Suc.prems(1) Suc.hyps(2) z zl by auto
  have d: "take (zs - n) (drop n ?ps) = ?ps ! n # take (zs - (n + 1)) (drop (n + 1) ?ps)"
    using n(1) Suc.hyps(2) by (subst Cons_nth_drop_Suc [symmetric]) (auto simp: take_Cons' )
  let ?h = "hexs (?ps ! n) @ [CHR '':'']"
  have t: "t = ?h @ lead (map hexs (take (zs - (n + 1)) (drop (n + 1) ?ps))) @ ?c"
    unfolding Suc.prems(2) d by (simp add: lead_def)
  have "prints (store p pos ?h) (pos + length ?h) (lead (map hexs (take (zs - (n + 1)) (drop (n + 1) ?ps))) @ ?c)
      (print_parts ip zs zl (2 * (n + 1)) (n + 1) (store p pos ?h) (pos + length ?h))"
    using Suc.hyps(2) Suc.prems(1) n by (intro Suc.hyps(1)) auto
  then show ?case
    unfolding t print_part [OF n(1,2) refl] Let_def append.assoc using n(3) by (auto intro!: prints_append [of p pos ?h, simplified])
qed

lemma ip6tos_prints:
  "\<exists>run. compressed_run (parts_of ip) run \<and>
     ip6tos ip p q = Some (store p q (rfc5952_text (parts_of ip) run @ [NUL]), length (rfc5952_text (parts_of ip) run))"
proof -
  let ?ps = "parts_of ip"
  obtain zs zl where z: "longest_zeros ip 0 0 255 1 = (zs, zl)" by (metis surj_pair)
  have "\<exists>run. compressed_run ?ps run \<and> prints p q (rfc5952_text ?ps run) (print_parts ip zs zl 0 0 p q)"
    using longest_zeros_compressed [OF z]
  proof
    assume a: "zs = 255 \<and> zl = 1 \<and> compressed_run ?ps None"
    then have "prints p q (rfc5952_text ?ps None) (print_parts ip zs zl 0 0 p q)"
      using print_plain [of 0 zs p q ip zl] by (simp add: rfc5952_text_def)
    with a show ?thesis by blast
  next
    assume a: "zs + zl \<le> 8 \<and> 2 \<le> zl \<and> compressed_run ?ps (Some (zs, zl))"
    let ?r = "colons (map hexs (drop (zs + zl) ?ps))"
    have "lead (map hexs (take zs ?ps)) @ (if zs = 0 then [CHR '':''] else []) @ CHR '':'' # ?r =
        rfc5952_text ?ps (Some (zs, zl))"
      by (cases "zs = 0") (simp_all add: rfc5952_text_def lead_colons, simp add: lead_def)
    then have "prints p q (rfc5952_text ?ps (Some (zs, zl))) (print_parts ip zs zl 0 0 p q)"
      using print_with_run [of zl zs 0 "rfc5952_text ?ps (Some (zs, zl))" ip p q] a by simp
    with a show ?thesis by blast
  qed
  then obtain run p' where run: "compressed_run ?ps run"
    "print_parts ip zs zl 0 0 p q = Some (p', q + length (rfc5952_text ?ps run))"
    "p'(q + length (rfc5952_text ?ps run) := NUL) = store p q (rfc5952_text ?ps run @ [NUL])"
    by (auto simp: prints_def)
  then show ?thesis by (intro exI [of _ run]) (simp only: ip6tos_def z Let_def prod.case option.case run(2,3), simp)
qed

end
