(* ===== verification/Ip6Parse.thy ===== *)
theory Ip6Parse
  imports Ip6Print
begin

text \<open>
  What \<open>stoip6\<close> accepts: the text forms 1 and 2 of RFC 4291, those without embedded IPv4 address, with the value
  the RFC gives them.
\<close>

section \<open>Fields\<close>

definition hex_digit :: "char \<Rightarrow> nat" where
  "hex_digit c = unat (the (hex_digit_value c))"

definition hex_value :: "string \<Rightarrow> nat" where
  "hex_value t = foldl (\<lambda>n c. 16 * n + hex_digit c) 0 t"

text \<open>A field: one to four hexadecimal digits of either case.\<close>

definition is_field :: "string \<Rightarrow> bool" where
  "is_field t \<longleftrightarrow> t \<noteq> [] \<and> length t \<le> 4 \<and> (\<forall>c \<in> set t. hex_digit_value c \<noteq> None)"

lemma code_less: "code c < 256"
  by (simp add: of_char_def char.split)

text \<open>The value of a digit by the code of its character.\<close>

lemma hex_digit_value_code:
  "hex_digit_value c =
    (if 48 \<le> code c \<and> code c \<le> 57 then Some (of_nat (code c - 48))
     else if 65 \<le> code c \<and> code c \<le> 70 then Some (of_nat (code c - 55))
     else if 97 \<le> code c \<and> code c \<le> 102 then Some (of_nat (code c - 87)) else None)"
  by (auto simp: hex_digit_value_def of_nat_diff)

lemma hex_digit_code:
  "hex_digit c = (if 48 \<le> code c \<and> code c \<le> 57 then code c - 48
     else if 65 \<le> code c \<and> code c \<le> 70 then code c - 55 else code c - 87)"
  if "hex_digit_value c \<noteq> None"
  using that by (auto simp: hex_digit_def hex_digit_value_code unsigned_of_nat take_bit_nat_eq_self simp del: of_nat_diff split: if_splits)

lemma folded_code:
  assumes "n < 256"
  shows "65 \<le> int n AND NOT 32 \<and> int n AND NOT 32 \<le> 70 \<longleftrightarrow> 65 \<le> n \<and> n \<le> 70 \<or> 97 \<le> n \<and> n \<le> 102"
proof -
  have "\<forall>n \<in> set [0..<256]. 65 \<le> int n AND NOT 32 \<and> int n AND NOT 32 \<le> 70 \<longleftrightarrow>
      65 \<le> n \<and> n \<le> 70 \<or> 97 \<le> n \<and> n \<le> 102"
    by code_simp
  moreover have "n \<in> set [0..<256]" using assms by simp
  ultimately show ?thesis by blast
qed

text \<open>The two tests for hexadecimal digits, by masking and by ranges, agree.\<close>

lemma is_hex_value: "is_hex c \<longleftrightarrow> hex_digit_value c \<noteq> None"
proof -
  have i: "(of_char c :: int) = int (code c)" by (simp add: of_nat_of_char)
  show ?thesis
    using folded_code [OF code_less, of c]
    by (auto simp: is_hex_def hex_digit_value_code i Let_def simp del: of_nat_of_char)
qed

lemma hex_digit_bound: "hex_digit_value c \<noteq> None \<Longrightarrow> hex_digit c < 16"
  by (auto simp: hex_digit_code hex_digit_value_code split: if_splits)

lemma no_hex: "hex_digit_value (CHR '':'') = None" "hex_digit_value NUL = None" "hex_digit_value (CHR ''/'') = None"
  by (simp_all add: hex_digit_value_code)

lemma code_hex_digit_char: "d < 16 \<Longrightarrow> code (hex_digit_char d) = (if d < 10 then 48 + d else 87 + d)"
  by (simp add: hex_digit_char_def code_digit_char take_bit_nat_eq_self)

lemma hex_digit_char_value: "d < 16 \<Longrightarrow> hex_digit_value (hex_digit_char d) \<noteq> None \<and> hex_digit (hex_digit_char d) = d"
  by (auto simp: hex_digit_code hex_digit_value_code code_hex_digit_char)

subsection \<open>Printed fields\<close>

lemma hex_value_snoc: "hex_value (t @ [c]) = 16 * hex_value t + hex_digit c"
  by (simp add: hex_value_def)

lemma hexs_value: "hex_value (hexs n) = n"
proof (induction n rule: hexs.induct)
  case (1 n)
  have m: "hex_digit (hex_digit_char (n mod 16)) = n mod 16" using hex_digit_char_value [of "n mod 16"] by simp
  show ?case
  proof (cases "n < 16")
    case True
    then show ?thesis by (subst hexs.simps) (simp add: hex_value_def hex_digit_char_value)
  next
    case False
    then have "hexs n = hexs (n div 16) @ [hex_digit_char (n mod 16)]" by (subst hexs.simps) simp
    with 1 False m show ?thesis by (simp add: hex_value_snoc)
  qed
qed

lemma hexs_digits: "c \<in> set (hexs n) \<Longrightarrow> hex_digit_value c \<noteq> None"
proof (induction n rule: hexs.induct)
  case (1 n)
  have "n mod 16 < 16" by simp
  then show ?case
    using 1 hex_digit_char_value [of n] hex_digit_char_value [of "n mod 16"]
    by (cases "n < 16") (auto simp: hexs.simps [of n])
qed

lemma hexs_length: "n < 16 ^ Suc k \<Longrightarrow> length (hexs n) \<le> Suc k"
proof (induction k arbitrary: n)
  case 0
  then show ?case by (subst hexs.simps) simp
next
  case (Suc k)
  then have "n div 16 < 16 ^ Suc k" by (simp add: less_mult_imp_div_less)
  with Suc.IH [OF this] show ?case by (subst hexs.simps) simp
qed

lemma hexs_nonempty [simp]: "hexs n \<noteq> []"
  by (subst hexs.simps) simp

lemma hexs_field: "n < 65536 \<Longrightarrow> is_field (hexs n)"
  using hexs_length [of n 3] hexs_digits [of _ n] by (simp add: is_field_def)

section \<open>Reading a field\<close>

lemma field_colon: "hex_digit_value c \<noteq> None \<Longrightarrow> c \<noteq> CHR '':'' \<and> c \<noteq> NUL"
  using no_hex by metis

lemma seek_digits:
  assumes "reads s q t" "\<forall>c \<in> set t. hex_digit_value c \<noteq> None" "length t \<le> unat len"
  shows "seek_colon s q len = seek_colon s (q + length t) (len - of_nat (length t))"
  using assms
proof (induction t arbitrary: q len)
  case (Cons c t)
  then have c: "is_hex (s q)" "s q \<noteq> NUL" "s q \<noteq> CHR '':''" "len \<noteq> 0"
    using field_colon [of c] by (auto simp: is_hex_value)
  then have "length t \<le> unat (len - 1)" using Cons.prems by (simp add: unat_minus_one)
  with Cons have "seek_colon s (q + 1) (len - 1) = seek_colon s (q + 1 + length t) (len - 1 - of_nat (length t))"
    by (intro Cons.IH) auto
  with c show ?case by (subst seek_colon.simps) (simp add: algebra_simps)
qed simp

lemma seek_field:
  assumes "reads s q t" "\<forall>c \<in> set t. hex_digit_value c \<noteq> None" "length t \<le> unat len"
    "length t = unat len \<or> s (q + length t) = CHR '':'' \<or> s (q + length t) = NUL"
  shows "seek_colon s q len = Some (q + length t, len - of_nat (length t))"
proof -
  have "seek_colon s (q + length t) (len - of_nat (length t)) = Some (q + length t, len - of_nat (length t))"
    using assms(4) by (subst seek_colon.simps) auto
  then show ?thesis using seek_digits [OF assms(1-3)] by simp
qed

lemma hex_shift: "push_bit 4 (of_nat n) OR the (hex_digit_value c) = (of_nat (16 * n + hex_digit c) :: u16)"
  if "hex_digit_value c \<noteq> None"
proof -
  let ?d = "the (hex_digit_value c)"
  have d: "unat ?d < 2 ^ 4" using hex_digit_bound [OF that] by (simp add: hex_digit_def)
  have "push_bit 4 (of_nat n :: u16) AND ?d = 0"
  proof (rule bit_word_eqI)
    fix i assume "i < LENGTH(16)"
    have "\<not> bit ?d i" if "4 \<le> i"
    proof -
      have "take_bit 4 (unat ?d) = unat ?d" using d by (rule take_bit_nat_eq_self)
      then have "\<not> bit (unat ?d) i" using that by (metis bit_take_bit_iff not_less)
      then show ?thesis by (auto simp: bit_unsigned_iff dest: bit_imp_le_length)
    qed
    then show "bit (push_bit 4 (of_nat n :: u16) AND ?d) i \<longleftrightarrow> bit (0 :: u16) i"
      by (cases "4 \<le> i") (auto simp: bit_and_iff bit_push_bit_iff)
  qed
  then have "push_bit 4 (of_nat n) OR ?d = push_bit 4 (of_nat n) + ?d"
    using word_plus_and_or [of "push_bit 4 (of_nat n)" ?d] by simp
  then show ?thesis by (simp add: push_bit_eq_mult hex_digit_def mult.commute)
qed

lemma hex_loop_digits:
  assumes "reads s p t" "\<forall>c \<in> set t. hex_digit_value c \<noteq> None" "hex_digit_value (s (p + length t)) = None"
  shows "hex_loop s p (of_nat n) = Some (of_nat (foldl (\<lambda>n c. 16 * n + hex_digit c) n t))"
  using assms
proof (induction t arbitrary: p n)
  case Nil
  then show ?case by (subst hex_loop.simps) simp
next
  case (Cons c t)
  then obtain d where d: "hex_digit_value c = Some d" by auto
  have "hex_loop s p (of_nat n) = hex_loop s (p + 1) (of_nat (16 * n + hex_digit c))"
    using Cons.prems d hex_shift [of c n] by (subst hex_loop.simps) simp
  also have "\<dots> = Some (of_nat (foldl (\<lambda>n c. 16 * n + hex_digit c) (16 * n + hex_digit c) t))"
    using Cons.prems by (intro Cons.IH) auto
  finally show ?case by simp
qed

lemma hex_field:
  assumes "reads s p t" "\<forall>c \<in> set t. hex_digit_value c \<noteq> None" "hex_digit_value (s (p + length t)) = None"
  shows "hex s p = Some (of_nat (hex_value t))"
  using hex_loop_digits [OF assms, of 0] by (simp add: hex_def hex_value_def)


section \<open>One round of the loop\<close>

text \<open>The bytes written for a part, and the address field by field.\<close>

definition part_bytes :: "nat \<Rightarrow> u8 list" where
  "part_bytes n = [of_nat (n div 256), of_nat n]"

definition address_bytes :: "nat list \<Rightarrow> u8 list" where
  "address_bytes ns = concat (map part_bytes ns)"

lemma length_address_bytes [simp]: "length (address_bytes ns) = 2 * length ns"
  by (induction ns) (simp_all add: address_bytes_def part_bytes_def)

lemma address_bytes_append: "address_bytes (xs @ ys) = address_bytes xs @ address_bytes ys"
  by (simp add: address_bytes_def)

lemma hex_value_bound: "is_field t \<Longrightarrow> hex_value t < 65536"
proof -
  have "hex_value t < 16 ^ length t" if "\<forall>c \<in> set t. hex_digit_value c \<noteq> None" for t
    using that
  proof (induction t rule: rev_induct)
    case (snoc c t)
    then have "hex_value t < 16 ^ length t" "hex_digit c < 16" by (simp_all add: hex_digit_bound)
    then show ?case by (simp add: hex_value_snoc)
  qed (simp add: hex_value_def)
  moreover assume "is_field t"
  ultimately have "hex_value t < 16 ^ length t" "length t \<le> 4" by (simp_all add: is_field_def)
  moreover have "(16 :: nat) ^ length t \<le> 16 ^ 4" using \<open>length t \<le> 4\<close> by (intro power_increasing) simp_all
  ultimately show ?thesis by simp
qed

lemma write_part:
  assumes "n < 65536"
  shows "common_write_16_bit (of_nat n) (B @ a # b # R, length B) = (B @ part_bytes n @ R, length B + 2)"
proof -
  have u: "ucast (of_nat m :: u16) = (of_nat m :: u8)" for m
    by (simp add: unsigned_of_nat word_of_nat_eq_iff)
  have "ucast (drop_bit 8 (of_nat n :: u16)) = (of_nat (n div 256) :: u8)"
  proof -
    have "drop_bit 8 (of_nat n :: u16) = of_nat (n div 256)"
      using assms by (intro word_unat_eq_iff [THEN iffD2])
        (simp add: drop_bit_eq_div unat_div_distrib unsigned_of_nat take_bit_nat_eq_self less_mult_imp_div_less)
    then show ?thesis by (simp only: u)
  qed
  moreover have "ucast (of_nat n :: u16) = (of_nat n :: u8)" by (rule u)
  ultimately show ?thesis
    by (simp add: common_write_16_bit_def put_def part_bytes_def list_update_append)
qed

text \<open>What a round of the loop does with the field \<open>t\<close> it finds at \<open>p\<close>.\<close>

lemma fields_step:
  assumes r: "reads s p t" and t: "is_field t \<or> t = [] \<and> s p = CHR '':''" and len: "length t \<le> unat len" "len \<noteq> 0"
    and e: "length t = unat len \<or> s (p + length t) = CHR '':''" "hex_digit_value (s (p + length t)) = None"
    and f: "f < 8"
  shows "stoip6_fields s p len f cc (B @ a # b # R, length B) =
    (let q = p + length t; len = len - of_nat (length t); f = f + 1; dest = B @ part_bytes (hex_value t) @ R
     in if len \<noteq> 0 then
          if s q = CHR '':'' \<and> s (q + 1) = CHR '':'' then
            if cc \<noteq> -1 then Some (Parse_error dest)
            else stoip6_fields s (q + 2) (len - 2) f (int f) (dest, length B + 2)
          else stoip6_fields s (q + 1) (len - 1) f cc (dest, length B + 2)
        else stoip6_fields s (q + 1) len f cc (dest, length B + 2))"
proof -
  have d: "\<forall>c \<in> set t. hex_digit_value c \<noteq> None" "length t \<le> 4" using t by (auto simp: is_field_def)
  have n: "hex_value t < 65536" using t hex_value_bound by (auto simp: hex_value_def)
  have p: "s p \<noteq> NUL"
  proof (cases t)
    case (Cons c cs)
    then show ?thesis using r d(1) field_colon [of c] by auto
  qed (use t in \<open>auto simp: is_field_def\<close>)
  have sk: "seek_colon s p len = Some (p + length t, len - of_nat (length t))"
    using seek_field [OF r d(1) len(1)] e(1) by blast
  have h: "hex s p = Some (of_nat (hex_value t))" using hex_field [OF r d(1) e(2)] .
  show ?thesis
    using p f len d(2) by (subst stoip6_fields.simps) (simp add: sk h write_part [OF n] Let_def)
qed

lemma fields_end: "stoip6_fields s p 0 f cc addr = Some (Fields f cc (fst addr))"
  by (subst stoip6_fields.simps) simp

lemma word_minus_nat:
  "n \<le> unat (len :: u32) \<Longrightarrow> unat (len - of_nat n) = unat len - n"
  "n = unat len \<Longrightarrow> len - of_nat n = 0"
proof -
  have s: "unat (len - of_nat n) = unat len - n" if "n \<le> unat len"
  proof -
    have n: "unat (of_nat n :: u32) = n"
      using that unsigned_less [of len, where 'a = nat] by (simp add: unsigned_of_nat take_bit_nat_eq_self)
    then show ?thesis using that by (simp add: unat_sub word_le_nat_alt)
  qed
  then show "n \<le> unat (len :: u32) \<Longrightarrow> unat (len - of_nat n) = unat len - n" .
  show "n = unat len \<Longrightarrow> len - of_nat n = 0" by simp
qed

lemma space_for_part:
  assumes "2 * Suc n \<le> length D"
  obtains a b D' where "D = a # b # D'" "2 * n \<le> length D'"
  using assms by (cases D; cases "tl D") auto

text \<open>A list of fields to the end of the text.\<close>

lemma fields_list:
  assumes "ts \<noteq> []" "\<forall>t \<in> set ts. is_field t" "reads s p (colons ts)" "unat len = length (colons ts)"
    "hex_digit_value (s (p + length (colons ts))) = None" "f + length ts \<le> 8" "2 * length ts \<le> length D"
  shows "stoip6_fields s p len f cc (B @ D, length B) =
    Some (Fields (f + length ts) cc (B @ address_bytes (map hex_value ts) @ drop (2 * length ts) D))"
  using assms
proof (induction ts arbitrary: p len f B D rule: colons.induct)
  case (2 t)
  from 2(7) obtain a b D' where D: "D = a # b # D'" using space_for_part [of 0 D] by auto
  have "len \<noteq> 0" using 2 by (auto simp: is_field_def)
  then show ?case
    unfolding D using 2 fields_step [of s p t len f cc B a b D'] word_minus_nat(2) [of "length t" len]
    by (simp add: fields_end Let_def address_bytes_def)
next
  case (3 t u us)
  let ?ts = "u # us"
  from 3(8) obtain a b D' where D: "D = a # b # D'" "2 * length ?ts \<le> length D'"
    using space_for_part [of "length ?ts" D] by auto
  have f: "is_field t" "\<forall>t \<in> set ?ts. is_field t" using 3(3) by auto
  obtain c u' where u: "u = c # u'" "hex_digit_value c \<noteq> None" using f(2) by (cases u) (auto simp: is_field_def)
  have c: "colons ?ts = c # tl (colons ?ts)" by (cases us) (simp_all add: u)
  have r: "reads s p t" "s (p + length t) = CHR '':''" "reads s (p + length t + 1) (colons ?ts)"
    using 3(4) by simp_all
  have nc: "s (p + length t + 1) \<noteq> CHR '':''"
    using r(3) field_colon [OF u(2)] by (subst (asm) c) auto
  have len: "length t + 1 \<le> unat len" "unat (len - of_nat (length t + 1)) = length (colons ?ts)" "len \<noteq> 0"
    using 3(5) word_minus_nat(1) [of "length t + 1" len] by auto
  have "len - of_nat (length t) \<noteq> 0"
    using len(1) word_minus_nat(1) [of "length t" len] by auto
  then have "stoip6_fields s p len f cc (B @ D, length B) =
      stoip6_fields s (p + length t + 1) (len - of_nat (length t + 1)) (f + 1) cc
        ((B @ part_bytes (hex_value t)) @ D', length (B @ part_bytes (hex_value t)))"
    unfolding D using fields_step [of s p t len f cc B a b D'] r f nc len 3(7) no_hex
    by (simp add: Let_def part_bytes_def diff_diff_eq add.commute)
  also have "\<dots> = Some (Fields (f + 1 + length ?ts) cc ((B @ part_bytes (hex_value t)) @
      address_bytes (map hex_value ?ts) @ drop (2 * length ?ts) D'))"
    using 3(6,7) D f len r by (intro "3.IH") (auto simp: add.assoc)
  finally show ?case by (simp add: D address_bytes_def)
qed simp


text \<open>Fields followed by \<open>::\<close>.\<close>

lemma fields_head:
  assumes "hs \<noteq> []" "\<forall>t \<in> set hs. is_field t" "reads s p (colons hs @ ''::'')"
    "length (colons hs) + 2 \<le> unat len" "f + length hs \<le> 8" "2 * length hs \<le> length D"
  shows "stoip6_fields s p len f (-1) (B @ D, length B) =
    stoip6_fields s (p + length (colons hs) + 2) (len - of_nat (length (colons hs) + 2)) (f + length hs)
      (int (f + length hs)) (B @ address_bytes (map hex_value hs) @ drop (2 * length hs) D, length B + 2 * length hs)"
  using assms
proof (induction hs arbitrary: p len f B D rule: colons.induct)
  case (2 t)
  from 2(6) obtain a b D' where D: "D = a # b # D'" using space_for_part [of 0 D] by auto
  have "len \<noteq> 0" "len - of_nat (length t) \<noteq> 0" using 2(4) word_minus_nat(1) [of "length t" len] by auto
  then show ?case
    unfolding D using 2 fields_step [of s p t len f "-1" B a b D'] no_hex
    by (simp add: Let_def address_bytes_def diff_diff_eq add.commute)
next
  case (3 t u us)
  let ?hs = "u # us"
  from 3(7) obtain a b D' where D: "D = a # b # D'" "2 * length ?hs \<le> length D'"
    using space_for_part [of "length ?hs" D] by auto
  have f: "is_field t" "\<forall>t \<in> set ?hs. is_field t" using 3(3) by auto
  obtain c u' where u: "u = c # u'" "hex_digit_value c \<noteq> None" using f(2) by (cases u) (auto simp: is_field_def)
  have c: "colons ?hs = c # tl (colons ?hs)" by (cases us) (simp_all add: u)
  have r: "reads s p t" "s (p + length t) = CHR '':''" "reads s (p + length t + 1) (colons ?hs @ ''::'')"
    using 3(4) by simp_all
  have nc: "s (p + length t + 1) \<noteq> CHR '':''"
    using r(3) field_colon [OF u(2)] by (subst (asm) c) auto
  have len: "length t + 1 \<le> unat len" "length (colons ?hs) + 2 \<le> unat (len - of_nat (length t + 1))" "len \<noteq> 0"
    using 3(5) word_minus_nat(1) [of "length t + 1" len] by auto
  have "len - of_nat (length t) \<noteq> 0"
    using len(1) word_minus_nat(1) [of "length t" len] by auto
  then have "stoip6_fields s p len f (-1) (B @ D, length B) =
      stoip6_fields s (p + length t + 1) (len - of_nat (length t + 1)) (f + 1) (-1)
        ((B @ part_bytes (hex_value t)) @ D', length (B @ part_bytes (hex_value t)))"
    unfolding D using fields_step [of s p t len f "-1" B a b D'] r f nc len 3(6) no_hex
    by (simp add: Let_def part_bytes_def diff_diff_eq add.commute)
  also have "\<dots> = stoip6_fields s (p + length t + 1 + length (colons ?hs) + 2)
      (len - of_nat (length t + 1) - of_nat (length (colons ?hs) + 2)) (f + 1 + length ?hs) (int (f + 1 + length ?hs))
      ((B @ part_bytes (hex_value t)) @ address_bytes (map hex_value ?hs) @ drop (2 * length ?hs) D',
       length (B @ part_bytes (hex_value t)) + 2 * length ?hs)"
    using 3(6) D(2) f len r by (intro "3.IH") auto
  finally show ?case by (simp add: D address_bytes_def part_bytes_def diff_diff_eq ac_simps)
qed simp

section \<open>The hexadecimal text forms of RFC 4291\<close>

text \<open>Eight fields, or fewer than eight with \<open>::\<close> for the missing zeros.\<close>

fun address_text :: "string list \<Rightarrow> string list option \<Rightarrow> string" where
  "address_text hs None = colons hs"
| "address_text hs (Some ts) = colons hs @ ''::'' @ colons ts"

fun address_form :: "string list \<Rightarrow> string list option \<Rightarrow> bool" where
  "address_form hs None \<longleftrightarrow> length hs = 8 \<and> (\<forall>t \<in> set hs. is_field t)"
| "address_form hs (Some ts) \<longleftrightarrow> length hs + length ts < 8 \<and> (\<forall>t \<in> set hs \<union> set ts. is_field t)"

fun address_value :: "string list \<Rightarrow> string list option \<Rightarrow> nat list" where
  "address_value hs None = map hex_value hs"
| "address_value hs (Some ts) =
     map hex_value hs @ replicate (8 - length hs - length ts) 0 @ map hex_value ts"

lemma length_colons: "\<forall>t \<in> set ts. is_field t \<Longrightarrow> length (colons ts) \<le> 5 * length ts - 1"
  by (induction ts rule: colons.induct) (auto simp: is_field_def)

lemma address_text_length: "address_form hs rest \<Longrightarrow> length (address_text hs rest) \<le> 39"
  using length_colons [of hs] length_colons [of "the rest"] by (cases rest) auto

lemma insert_zeros:
  assumes "length H = 2 * c" "length T = 2 * k" "length (H @ T @ Q) = 16" "c + k \<le> 8"
  shows "memset (memmove (H @ T @ Q) (2 * c + 2 * (8 - (c + k))) (2 * c) (16 - 2 * c - 2 * (8 - (c + k)))) (2 * c) 0
      (2 * (8 - (c + k))) = H @ replicate (2 * (8 - (c + k))) 0 @ T"
proof -
  have e: "2 * c + 2 * (8 - (c + k)) = 16 - 2 * k" "16 - 2 * c - 2 * (8 - (c + k)) = 2 * k" using assms(4) by auto
  have "memmove (H @ T @ Q) (16 - 2 * k) (2 * c) (2 * k) = take (16 - 2 * k) (H @ T @ Q) @ T"
    using assms by (simp add: memmove_def)
  moreover have "memset (take (16 - 2 * k) (H @ T @ Q) @ T) (2 * c) 0 (2 * (8 - (c + k))) =
      H @ replicate (2 * (8 - (c + k))) 0 @ T"
    using assms e(1) by (simp add: memset_def take_append)
  ultimately show ?thesis by (simp only: e)
qed

lemma address_bytes_zero: "address_bytes (replicate n 0) = replicate (2 * n) 0"
  by (induction n) (simp_all add: address_bytes_def part_bytes_def)

lemma fields_address_some:
  assumes form: "address_form hs (Some ts)" and r: "reads s 0 (address_text hs (Some ts))"
    and e: "hex_digit_value (s (length (address_text hs (Some ts)))) = None"
    and len: "unat len = length (address_text hs (Some ts))" and dest: "length dest = 16"
    and hv: "hv = (if hs = [] then [0] else map hex_value hs)"
  shows "\<exists>Q. stoip6_fields s 0 len 0 (-1) (dest, 0) =
    Some (Fields (length hv + length ts) (int (length hv)) (address_bytes hv @ address_bytes (map hex_value ts) @ Q)) \<and>
    length (address_bytes hv @ address_bytes (map hex_value ts) @ Q) = 16"
proof -
  let ?n = "length (colons hs) + 2" and ?D = "drop (2 * length hv) dest"
  have f: "\<forall>t \<in> set hs. is_field t" "\<forall>t \<in> set ts. is_field t" "length hs + length ts < 8" "length hv + length ts \<le> 8"
    using form hv by auto
  have head: "stoip6_fields s 0 len 0 (-1) (dest, 0) =
      stoip6_fields s ?n (len - of_nat ?n) (length hv) (int (length hv)) (address_bytes hv @ ?D, length (address_bytes hv))"
  proof (cases "hs = []")
    case True
    from dest obtain a b D' where D: "dest = a # b # D'" using space_for_part [of 0 dest] by auto
    have "len \<noteq> 0" "s 0 = CHR '':''" "s 1 = CHR '':''" using len r True by auto
    then show ?thesis
      using fields_step [of s 0 "[]" len 0 "-1" "[]" a b D'] True
      by (simp add: D hv no_hex Let_def hex_value_def address_bytes_def part_bytes_def)
  next
    case False
    then show ?thesis using fields_head [of hs s 0 len 0 dest "[]"] f r len dest hv by simp
  qed
  have n: "unat (len - of_nat ?n) = length (colons ts)" using len word_minus_nat(1) [of ?n len] by simp
  have "stoip6_fields s ?n (len - of_nat ?n) (length hv) (int (length hv)) (address_bytes hv @ ?D, length (address_bytes hv)) =
      Some (Fields (length hv + length ts) (int (length hv))
        (address_bytes hv @ address_bytes (map hex_value ts) @ drop (2 * length ts) ?D))"
  proof (cases "ts = []")
    case True
    then have "len - of_nat ?n = 0" using n by (simp add: unat_eq_0)
    then show ?thesis using True by (simp add: fields_end address_bytes_def)
  next
    case False
    then show ?thesis using f r e n dest by (intro fields_list) (auto simp: add.assoc)
  qed
  with head f(4) dest show ?thesis by (intro exI [of _ "drop (2 * length ts) ?D"]) simp
qed

text \<open>The parser accepts every form, and gives it the value the RFC gives it.\<close>

lemma stoip6_address:
  assumes form: "address_form hs rest" and r: "reads s 0 (address_text hs rest)"
    and e: "hex_digit_value (s (length (address_text hs rest))) = None"
    and dest: "length dest = 16" and len: "len = of_nat (length (address_text hs rest))"
  shows "stoip6 s len dest = Some (True, address_bytes (address_value hs rest))"
proof -
  have l: "length (address_text hs rest) \<le> 39" using form by (rule address_text_length)
  have n: "unat len = length (address_text hs rest)"
    unfolding len using l by (simp add: unsigned_of_nat take_bit_nat_eq_self)
  then have short: "\<not> len > 39" using l by (simp add: word_less_nat_alt)
  show ?thesis
  proof (cases rest)
    case None
    have hs: "hs \<noteq> []" using form None by auto
    have "stoip6_fields s 0 len 0 (-1) ([] @ dest, length ([] :: u8 list)) =
        Some (Fields (0 + length hs) (-1) ([] @ address_bytes (map hex_value hs) @ drop (2 * length hs) dest))"
      using form r e n dest None hs by (intro fields_list) auto
    then show ?thesis using short form None dest by (simp add: stoip6_def)
  next
    case (Some ts)
    obtain hv where hv: "hv = (if hs = [] then [0] else map hex_value hs)" by simp
    obtain Q where Q: "stoip6_fields s 0 len 0 (-1) (dest, 0) =
        Some (Fields (length hv + length ts) (int (length hv)) (address_bytes hv @ address_bytes (map hex_value ts) @ Q))"
      "length (address_bytes hv @ address_bytes (map hex_value ts) @ Q) = 16"
      using fields_address_some [of hs ts s len dest hv, OF _ _ _ _ dest hv] form r e n unfolding Some by blast
    have f: "length hv + length ts \<le> 8" using form Some hv by auto
    have "stoip6 s len dest = Some (True, address_bytes hv @ replicate (2 * (8 - (length hv + length ts))) 0 @
        address_bytes (map hex_value ts))"
      using short insert_zeros [OF _ _ Q(2) f] by (simp add: stoip6_def Q(1) Let_def del: length_append)
    moreover have "address_bytes hv @ replicate (2 * (8 - (length hv + length ts))) 0 =
        address_bytes (map hex_value hs @ replicate (8 - length hs - length ts) 0)"
    proof (cases "hs = []")
      case True
      have "length ts < 8" using form Some by simp
      then have "2 * (8 - length ts) = Suc (Suc (2 * (7 - length ts)))" by arith
      moreover have "address_bytes [0] = [0, 0]" by (simp add: address_bytes_def part_bytes_def)
      ultimately show ?thesis by (simp add: hv True address_bytes_zero)
    qed (simp add: hv address_bytes_append address_bytes_zero)
    ultimately show ?thesis
      unfolding Some address_value.simps append_assoc [symmetric] by (simp only: address_bytes_append)
  qed
qed

end
