(* ===== verification/Ip6Props.thy ===== *)
theory Ip6Props
  imports Ip6Parse
begin

text \<open>
  The properties of the IPv6 printer and parser.
\<close>

section \<open>Printing\<close>

lemma colons_parts_length:
  assumes "\<forall>x \<in> set ps. x < 65536"
  shows "length (colons (map hexs ps)) \<le> 5 * length ps - 1"
  using length_colons [of "map hexs ps"] assms by (simp add: hexs_field)

lemma compressed_run_bounds:
  "compressed_run (parts_of ip) (Some (start, n)) \<Longrightarrow> 2 \<le> n \<and> start + n \<le> 8 \<and> (\<forall>j < n. parts_of ip ! (start + j) = 0)"
  by (auto simp: compressed_run_def zero_stretch_def)

lemma rfc5952_length:
  assumes "compressed_run (parts_of ip) run"
  shows "length (rfc5952_text (parts_of ip) run) \<le> 39"
proof (cases run)
  case None
  then show ?thesis using colons_parts_length [of "parts_of ip"] parts_of_less by (simp add: rfc5952_text_def)
next
  case (Some sn)
  obtain start n where sn: "sn = (start, n)" by (cases sn)
  have b: "2 \<le> n" "start + n \<le> 8" using compressed_run_bounds assms Some sn by auto
  have "\<forall>x \<in> set (take start (parts_of ip)). x < 65536" "\<forall>x \<in> set (drop (start + n) (parts_of ip)). x < 65536"
    using parts_of_less in_set_takeD in_set_dropD by fast+
  from colons_parts_length [OF this(1)] colons_parts_length [OF this(2)] b show ?thesis
    by (simp add: rfc5952_text_def Some sn)
qed

text \<open>
  C35. \<open>ip6tos\<close> writes the text RFC 5952 prescribes for the address: lower case without leading zeros, with
  \<open>::\<close> for the longest run of at least two zero parts, the first one among equals. The text has at most 39
  characters and its length is returned; behind it stands the terminator, and no other character of the
  memory changes. In particular the call returns.
\<close>

theorem ip6tos_prints_rfc5952:
  "\<exists>run p' n. compressed_run (parts_of ip) run \<and> ip6tos ip p q = Some (p', n) \<and>
     reads p' q (rfc5952_text (parts_of ip) run @ [NUL]) \<and> n = length (rfc5952_text (parts_of ip) run) \<and>
     n \<le> 39 \<and> same_elsewhere p p' q n"
proof -
  obtain run where run: "compressed_run (parts_of ip) run"
    "ip6tos ip p q = Some (store p q (rfc5952_text (parts_of ip) run @ [NUL]), length (rfc5952_text (parts_of ip) run))"
    using ip6tos_prints by blast
  then show ?thesis
    using rfc5952_length [OF run(1)] store_reads [of p q "rfc5952_text (parts_of ip) run @ [NUL]"]
    by (intro exI conjI) (auto simp: same_elsewhere_def store_outside)
qed

section \<open>Parsing\<close>

text \<open>
  C37. \<open>stoip6\<close> accepts the two hexadecimal text forms of RFC 4291 section 2.2 (form 1: eight fields of one to four
  hexadecimal digits of either case; form 2: fewer, with one \<open>::\<close> in any position) and stores the sixteen bytes of
  the address the text stands for, provided the character behind the text is no hexadecimal digit. Form 3, with the
  last 32 bits in dotted decimal, is not covered by the code, as its documentation says: \<open>stoip6_refuses_other_characters\<close>.
\<close>

theorem stoip6_accepts_hex_forms:
  assumes "address_form hs rest" "reads s 0 (address_text hs rest)"
    "hex_digit_value (s (length (address_text hs rest))) = None" "length dest = 16"
  shows "stoip6 s (of_nat (length (address_text hs rest))) dest = Some (True, address_bytes (address_value hs rest))"
  using stoip6_address [OF assms refl] .

theorem stoip6_accepts_hex_forms_witness:
  "stoip6 (text_at ''Fe80::1:2/64'') 9 (replicate 16 7) = Some (True, [0xFE, 0x80, 0, 0, 0, 0, 0, 0, 0, 0, 0, 0, 0, 1, 0, 2])"
proof -
  have f: "address_form [''Fe80''] (Some [''1'', ''2''])" by (simp add: is_field_def hex_digit_value_code)
  have t: "address_text [''Fe80''] (Some [''1'', ''2'']) = ''Fe80::1:2''" by simp
  have "reads (text_at ''Fe80::1:2/64'') 0 ''Fe80::1:2''" by (simp add: text_at_def)
  then have "stoip6 (text_at ''Fe80::1:2/64'') (of_nat (length ''Fe80::1:2'')) (replicate 16 7) =
      Some (True, address_bytes (address_value [''Fe80''] (Some [''1'', ''2''])))"
    using stoip6_accepts_hex_forms [OF f, of "text_at ''Fe80::1:2/64''" "replicate 16 7"] unfolding t
    by (simp add: text_at_def hex_digit_value_code)
  moreover have "address_bytes (address_value [''Fe80''] (Some [''1'', ''2''])) =
      [0xFE, 0x80, 0, 0, 0, 0, 0, 0, 0, 0, 0, 0, 0, 1, 0, 2]"
    by (simp add: address_bytes_def part_bytes_def hex_value_def hex_digit_code hex_digit_value_code)
      (simp add: eval_nat_numeral)
  ultimately show ?thesis by simp
qed

text \<open>The printed text is one of the forms, and stands for the address printed.\<close>

lemma parts_split:
  assumes "compressed_run (parts_of ip) (Some (start, n))"
  shows "take start (parts_of ip) @ replicate n 0 @ drop (start + n) (parts_of ip) = parts_of ip"
proof -
  have b: "2 \<le> n" "start + n \<le> 8" "\<forall>j < n. parts_of ip ! (start + j) = 0"
    using compressed_run_bounds [OF assms] by auto
  have "take n (drop start (parts_of ip)) = replicate n 0"
    using b by (intro nth_equalityI) simp_all
  moreover have "parts_of ip = take start (parts_of ip) @ take n (drop start (parts_of ip)) @ drop n (drop start (parts_of ip))"
    by (metis append_take_drop_id)
  ultimately show ?thesis by (simp add: add.commute)
qed

lemma hexs_values: "map (hex_value \<circ> hexs) ns = ns"
  by (simp add: comp_def hexs_value)

lemma rfc5952_form:
  assumes "compressed_run (parts_of ip) run"
  shows "\<exists>hs rest. rfc5952_text (parts_of ip) run = address_text hs rest \<and> address_form hs rest \<and>
    address_value hs rest = parts_of ip"
proof (cases run)
  case None
  then show ?thesis
    using parts_of_less hexs_field
    by (intro exI [of _ "map hexs (parts_of ip)"] exI [of _ None]) (auto simp: rfc5952_text_def hexs_values)
next
  case (Some sn)
  obtain start n where sn: "sn = (start, n)" by (cases sn)
  have b: "2 \<le> n" "start + n \<le> 8" using compressed_run_bounds assms Some sn by auto
  let ?h = "take start (parts_of ip)" and ?t = "drop (start + n) (parts_of ip)"
  have "8 - start - (8 - (start + n)) = n" using b by simp
  then have "address_value (map hexs ?h) (Some (map hexs ?t)) = parts_of ip"
    using parts_split [of ip start n] assms Some sn b by (simp add: hexs_values)
  moreover have "address_form (map hexs ?h) (Some (map hexs ?t))"
    using b parts_of_less hexs_field by (auto dest!: in_set_takeD in_set_dropD)
  ultimately show ?thesis
    using Some sn by (intro exI [of _ "map hexs ?h"] exI [of _ "Some (map hexs ?t)"]) (simp add: rfc5952_text_def)
qed

lemma byte_pairs: "2 * n \<le> length xs \<Longrightarrow> concat (map (\<lambda>k. [xs ! (2 * k), xs ! (2 * k + 1)]) [0..<n]) = take (2 * n) xs"
proof (induction n)
  case (Suc n)
  then have "take (2 * Suc n) xs = take (2 * n) xs @ [xs ! (2 * n), xs ! (2 * n + 1)]"
    by (simp add: take_Suc_conv_app_nth)
  with Suc show ?case by simp
qed simp

lemma part_bytes_value: "part_bytes (unat a * 256 + unat b) = [a, b]"
proof -
  have "unat a < 256" "unat b < 256"
    using unsigned_less [of a, where 'a = nat] unsigned_less [of b, where 'a = nat] by simp_all
  moreover have "a * 256 = 0"
  proof -
    have "(256 :: u8) = 0" by code_simp
    then show ?thesis by (metis mult_zero_right)
  qed
  ultimately show ?thesis by (simp add: part_bytes_def)
qed

lemma address_bytes_parts: "length ip = 16 \<Longrightarrow> address_bytes (parts_of ip) = ip"
  using byte_pairs [of 8 ip] by (simp add: address_bytes_def parts_of_def comp_def part_bytes_value)

text \<open>
  C36. \<open>stoip6\<close> reads back what \<open>ip6tos\<close> wrote, for every address.
\<close>

theorem stoip6_ip6tos_roundtrip:
  assumes "length ip = 16" "length dest = 16"
  shows "\<exists>p' n. ip6tos ip p 0 = Some (p', n) \<and> stoip6 p' (of_nat n) dest = Some (True, ip)"
proof -
  obtain run where run: "compressed_run (parts_of ip) run"
    "ip6tos ip p 0 = Some (store p 0 (rfc5952_text (parts_of ip) run @ [NUL]), length (rfc5952_text (parts_of ip) run))"
    using ip6tos_prints by blast
  obtain hs rest where f: "rfc5952_text (parts_of ip) run = address_text hs rest" "address_form hs rest"
    "address_value hs rest = parts_of ip"
    using rfc5952_form [OF run(1)] by blast
  have "reads (store p 0 (address_text hs rest @ [NUL])) 0 (address_text hs rest @ [NUL])" by (rule store_reads)
  then have "stoip6 (store p 0 (address_text hs rest @ [NUL])) (of_nat (length (address_text hs rest))) dest = Some (True, ip)"
    using stoip6_address [OF f(2) _ _ assms(2) refl] no_hex(2) by (simp add: f(3) address_bytes_parts assms(1))
  then show ?thesis using run(2) f(1) by simp
qed

theorem stoip6_ip6tos_roundtrip_witness:
  "\<exists>p' n. ip6tos [0x20, 0x01, 0x0D, 0xB8, 0, 0, 0, 0, 0, 1, 0, 0, 0, 0, 0, 1] (\<lambda>_. CHR ''x'') 0 = Some (p', n) \<and>
     stoip6 p' (of_nat n) (replicate 16 7) = Some (True, [0x20, 0x01, 0x0D, 0xB8, 0, 0, 0, 0, 0, 1, 0, 0, 0, 0, 0, 1])"
  by (rule stoip6_ip6tos_roundtrip) simp_all


section \<open>Any input\<close>

lemma hex_loop_returns:
  assumes "p \<le> j" "hex_digit_value (s j) = None"
  shows "\<exists>v'. hex_loop s p v = Some v'"
  using assms
proof (induction "j - p" arbitrary: p v)
  case 0
  then show ?case by (subst hex_loop.simps) simp
next
  case (Suc d)
  show ?case
  proof (cases "hex_digit_value (s p)")
    case None
    then show ?thesis by (subst hex_loop.simps) simp
  next
    case (Some x)
    have "\<exists>v'. hex_loop s (p + 1) (push_bit 4 v OR x) = Some v'" using Suc by (intro Suc.hyps(1)) auto
    then show ?thesis using Some by (subst hex_loop.simps) simp
  qed
qed

definition ends_hex :: "text_memory \<Rightarrow> bool" where
  "ends_hex s \<longleftrightarrow> (\<forall>i. \<exists>j \<ge> i. hex_digit_value (s j) = None)"

lemma hex_returns: "\<exists>v. hex s p = Some v" if ends: "ends_hex s"
proof -
  obtain j where "p \<le> j" "hex_digit_value (s j) = None" using ends unfolding ends_hex_def by blast
  then show ?thesis unfolding hex_def by (rule hex_loop_returns)
qed

text \<open>What the loop leaves: a destination changed in its first 16 bytes only, and sensible counters.\<close>

fun exit_ok :: "u8 list \<Rightarrow> fields_exit \<Rightarrow> bool" where
  "exit_ok D (Parse_error D') \<longleftrightarrow> length D' = length D \<and> drop 16 D' = drop 16 D"
| "exit_ok D (Fields f cc D') \<longleftrightarrow> length D' = length D \<and> drop 16 D' = drop 16 D \<and> f \<le> 8 \<and>
     (cc = -1 \<or> 0 \<le> cc \<and> cc \<le> int f)"

lemma write_part_in_bounds:
  assumes "n + 2 \<le> 16"
  shows "length (fst (common_write_16_bit v (D, n))) = length D" "snd (common_write_16_bit v (D, n)) = n + 2"
    "drop 16 (fst (common_write_16_bit v (D, n))) = drop 16 D"
  using assms by (simp_all add: common_write_16_bit_def put_def)

lemma exit_ok_trans: "length D' = length D \<Longrightarrow> drop 16 D' = drop 16 D \<Longrightarrow> exit_ok D' e \<Longrightarrow> exit_ok D e"
  by (cases e) auto

lemma fields_return:
  assumes "ends_hex s" "f \<le> 8" "cc = -1 \<or> 0 \<le> cc \<and> cc \<le> int f"
  shows "\<exists>e. stoip6_fields s p len f cc (D, 2 * f) = Some e \<and> exit_ok D e"
  using assms(2,3)
proof (induction "8 - f" arbitrary: p len f cc D)
  case (0 f)
  then show ?case
    by (cases "seek_colon s p len"; subst stoip6_fields.simps) (auto simp: split_def)
next
  case (Suc d)
  then have f: "f < 8" by simp
  show ?case
  proof (cases "len \<noteq> 0 \<and> s p \<noteq> NUL")
    case False
    then show ?thesis using Suc.prems by (subst stoip6_fields.simps) auto
  next
    case True
    obtain v where v: "hex s p = Some v" using hex_returns [OF assms(1)] by blast
    obtain D' where w: "common_write_16_bit v (D, 2 * f) = (D', 2 * (f + 1))" "length D' = length D" "drop 16 D' = drop 16 D"
      using write_part_in_bounds [of "2 * f" v D] f by (cases "common_write_16_bit v (D, 2 * f)") auto
    have IH: "\<exists>e. stoip6_fields s q l (f + 1) cc' (D', 2 * (f + 1)) = Some e \<and> exit_ok D e"
      if "cc' = -1 \<or> 0 \<le> cc' \<and> cc' \<le> int (f + 1)" for q l cc'
      using Suc.hyps(1) [of "f + 1" cc' q l D'] Suc.hyps(2) that exit_ok_trans [OF w(2,3)] by fastforce
    show ?thesis
    proof (cases "seek_colon s p len")
      case None
      then show ?thesis using True by (subst stoip6_fields.simps) simp
    next
      case (Some ql)
      obtain q l where ql: "ql = (q, l)" by (cases ql)
      have cc: "cc = -1 \<or> 0 \<le> cc \<and> cc \<le> int (f + 1)" using Suc.prems by auto
      note out = IH [OF cc] IH [of "int (f + 1)"] w(2,3)
      show ?thesis
        using True f out by (subst stoip6_fields.simps) (auto simp: Some ql v w(1) Let_def)
    qed
  qed
qed

lemma memset_in_bounds:
  "dst + n \<le> 16 \<Longrightarrow> 16 \<le> length m \<Longrightarrow> length (memset m dst c n) = length m \<and> drop 16 (memset m dst c n) = drop 16 m"
  by (simp add: memset_def)

lemma memmove_in_bounds:
  "dst + n \<le> 16 \<Longrightarrow> src + n \<le> 16 \<Longrightarrow> 16 \<le> length m \<Longrightarrow>
     length (memmove m dst src n) = length m \<and> drop 16 (memmove m dst src n) = drop 16 m"
  by (simp add: memmove_def)

text \<open>
  C38. On any text and with any length \<open>stoip6\<close> returns, as long as the memory is not hexadecimal digits to
  its end; it writes to the first sixteen bytes of the destination only, and on failure leaves them zero.
\<close>

theorem stoip6_stays_in_bounds:
  assumes "ends_hex s" "16 \<le> length dest"
  shows "\<exists>ok d. stoip6 s len dest = Some (ok, d) \<and> length d = length dest \<and> drop 16 d = drop 16 dest \<and>
    (\<not> ok \<longrightarrow> take 16 d = replicate 16 0)"
proof -
  have err: "length (memset D 0 0 16) = length dest" "drop 16 (memset D 0 0 16) = drop 16 dest"
    "take 16 (memset D 0 0 16) = replicate 16 0" if "length D = length dest" "drop 16 D = drop 16 dest" for D :: "u8 list"
    using that assms(2) memset_in_bounds [of 0 16 D 0] by (simp_all add: memset_def)
  obtain e where e: "stoip6_fields s 0 len 0 (-1) (dest, 0) = Some e" "exit_ok dest e"
    using fields_return [OF assms(1), of 0 "-1" 0 len dest] by auto
  show ?thesis
  proof (cases e)
    case (Parse_error D)
    then show ?thesis using e err [of D] err [of dest] by (auto simp: stoip6_def)
  next
    case (Fields f cc D)
    have D: "length D = length dest" "drop 16 D = drop 16 dest" "f \<le> 8" "cc = -1 \<or> 0 \<le> cc \<and> cc \<le> int f"
      using e(2) Fields by auto
    show ?thesis
    proof (cases "len > 39 \<or> cc = -1")
      case True
      then show ?thesis using e(1) Fields err [of D] err [of dest] D by (auto simp: stoip6_def)
    next
      case False
      then have c: "nat cc \<le> f" using D(4) by auto
      let ?h = "2 * nat cc" and ?i = "2 * (8 - f)"
      let ?m = "memmove D (?h + ?i) ?h (16 - ?h - ?i)"
      have "length ?m = length D \<and> drop 16 ?m = drop 16 D"
        using c D assms(2) by (intro memmove_in_bounds) auto
      moreover have "length (memset ?m ?h 0 ?i) = length ?m \<and> drop 16 (memset ?m ?h 0 ?i) = drop 16 ?m"
        using c D assms(2) calculation by (intro memset_in_bounds) auto
      moreover have "stoip6 s len dest = Some (True, memset ?m ?h 0 ?i)"
        using e(1) Fields False by (simp add: stoip6_def Let_def)
      ultimately show ?thesis using D by (intro exI [of _ True] exI [of _ "memset ?m ?h 0 ?i"]) simp
    qed
  qed
qed

lemma text_ends_hex: "ends_hex (text_at t)"
  unfolding ends_hex_def
proof
  fix i
  have "text_at t (max i (length t)) = NUL" by (simp add: text_at_def)
  then show "\<exists>j \<ge> i. hex_digit_value (text_at t j) = None" using no_hex(2) by (intro exI [of _ "max i (length t)"]) simp
qed

theorem stoip6_stays_in_bounds_witness:
  "\<exists>ok d. stoip6 (text_at ''1:2::3::4'') 9 (replicate 20 7) = Some (ok, d) \<and> length d = 20 \<and> drop 16 d = [7, 7, 7, 7] \<and>
    (\<not> ok \<longrightarrow> take 16 d = replicate 16 0)"
proof -
  have "drop 16 (replicate 20 (7 :: u8)) = [7, 7, 7, 7]" by (simp add: eval_nat_numeral)
  with stoip6_stays_in_bounds [OF text_ends_hex, of "replicate 20 7" "''1:2::3::4''" 9] show ?thesis by simp
qed

section \<open>Inputs at the edges\<close>

text \<open>
  A text with a character that is neither a hexadecimal digit nor a colon before its length and its terminator is
  refused; so are all texts with a tail in dotted decimal, form 3 of RFC 4291 section 2.2.
\<close>

lemma seek_refuses:
  assumes "i < unat len" "\<And>j. j < i \<Longrightarrow> s (q + j) \<noteq> NUL" "s (q + i) \<noteq> NUL" "s (q + i) \<noteq> CHR '':''" "\<not> is_hex (s (q + i))"
  shows "seek_colon s q len = None \<or>
    (\<exists>k < i. seek_colon s q len = Some (q + k, len - of_nat k) \<and> s (q + k) = CHR '':'')"
  using assms
proof (induction i arbitrary: q len)
  case 0
  then have "len \<noteq> 0" by auto
  then show ?case using 0 by (subst seek_colon.simps) simp
next
  case (Suc i)
  have q: "len \<noteq> 0" "s q \<noteq> NUL" using Suc.prems(1) Suc.prems(2) [of 0] by auto
  consider (colon) "s q = CHR '':''" | (bad) "s q \<noteq> CHR '':''" "\<not> is_hex (s q)" | (hex) "s q \<noteq> CHR '':''" "is_hex (s q)"
    by blast
  then show ?case
  proof cases
    case colon
    then have "seek_colon s q len = Some (q + 0, len - of_nat 0)" by (subst seek_colon.simps) simp
    then show ?thesis using colon by (intro disjI2 exI [of _ 0]) simp
  next
    case bad
    then show ?thesis using q by (subst seek_colon.simps) simp
  next
    case hex
    then have s: "seek_colon s q len = seek_colon s (q + 1) (len - 1)" using q by (subst seek_colon.simps) simp
    have "i < unat (len - 1)" using Suc.prems(1) q(1) by (simp add: unat_minus_one)
    moreover have "s (q + 1 + j) \<noteq> NUL" if "j < i" for j using Suc.prems(2) [of "Suc j"] that by simp
    ultimately consider "seek_colon s (q + 1) (len - 1) = None"
      | k where "k < i" "seek_colon s (q + 1) (len - 1) = Some (q + 1 + k, len - 1 - of_nat k)" "s (q + 1 + k) = CHR '':''"
      using Suc.IH [of "len - 1" "q + 1"] Suc.prems(3-5) by auto
    then show ?thesis
    proof cases
      case 2
      then show ?thesis unfolding s by (intro disjI2 exI [of _ "Suc k"]) (simp add: algebra_simps)
    qed (simp add: s)
  qed
qed

lemma fields_refuse:
  assumes "ends_hex s" "f \<le> 8" "i < unat len" "\<And>j. j < i \<Longrightarrow> s (p + j) \<noteq> NUL" "s (p + i) \<noteq> NUL" "s (p + i) \<noteq> CHR '':''"
    "\<not> is_hex (s (p + i))"
  shows "\<exists>D'. stoip6_fields s p len f cc (D, 2 * f) = Some (Parse_error D') \<and> length D' = length D"
  using assms(2-)
proof (induction "8 - f" arbitrary: p len f cc D i)
  case 0
  have "len \<noteq> 0" "s p \<noteq> NUL" using 0(3,5) 0(4) [of 0] by (cases i; auto)+
  then show ?case using 0 by (cases "seek_colon s p len"; subst stoip6_fields.simps) (auto simp: split_def)
next
  case (Suc d)
  then have f: "f < 8" by simp
  have start: "len \<noteq> 0" "s p \<noteq> NUL" using Suc.prems(2,4) Suc.prems(3) [of 0] by (cases i; auto)+
  obtain v where v: "hex s p = Some v" using hex_returns [OF assms(1)] by blast
  obtain D' where w: "common_write_16_bit v (D, 2 * f) = (D', 2 * (f + 1))" "length D' = length D"
    using write_part_in_bounds [of "2 * f" v D] f by (cases "common_write_16_bit v (D, 2 * f)") auto
  have IH: "\<exists>E. stoip6_fields s (p + a) (len - of_nat a) (f + 1) cc' (D', 2 * (f + 1)) = Some (Parse_error E) \<and> length E = length D"
    if a: "a \<le> i" for a cc'
  proof -
    have "i - a < unat (len - of_nat a)" using word_minus_nat(1) [of a len] a Suc.prems(2) by simp
    moreover have "s (p + a + j) \<noteq> NUL" if "j < i - a" for j using Suc.prems(3) [of "a + j"] that by (simp add: add.assoc)
    ultimately show ?thesis
      using Suc.hyps(1) [of "f + 1" "i - a" "len - of_nat a" "p + a" cc' D'] Suc.hyps(2) Suc.prems(4-6) f a w(2) by simp
  qed
  have "seek_colon s p len = None \<or>
      (\<exists>k < i. seek_colon s p len = Some (p + k, len - of_nat k) \<and> s (p + k) = CHR '':'')"
    by (rule seek_refuses) (use Suc.prems in auto)
  then consider "seek_colon s p len = None"
    | k where "k < i" "seek_colon s p len = Some (p + k, len - of_nat k)" "s (p + k) = CHR '':''"
    by (elim disjE exE conjE) simp_all
  then show ?case
  proof cases
    case 1
    then show ?thesis using start by (subst stoip6_fields.simps) simp
  next
    case (2 k)
    have l: "len - of_nat k \<noteq> 0" using word_minus_nat(1) [of k len] 2(1) Suc.prems(2) by auto
    have two: "k + 2 \<le> i" if "s (Suc (p + k)) = CHR '':''"
      using 2(1) that Suc.prems(5) by (cases "i = Suc k") auto
    have one: "k + 1 \<le> i" using 2(1) by simp
    show ?thesis
      using IH [OF one] IH [OF two] 2 start l v w f by (subst stoip6_fields.simps) (auto simp: Let_def algebra_simps)
  qed
qed

lemma stoip6_refuses_other_characters:
  assumes "ends_hex s" "length dest = 16" "i < unat len" "\<And>j. j < i \<Longrightarrow> s j \<noteq> NUL"
    "s i \<noteq> NUL" "s i \<noteq> CHR '':''" "\<not> is_hex (s i)"
  shows "stoip6 s len dest = Some (False, replicate 16 0)"
  using fields_refuse [of s 0 i len 0 "-1" dest] assms by (auto simp: stoip6_def memset_def)

text \<open>
  The length does not bound the reading: a field that the length cuts off is read on to its last digit,
  so that the five characters \<open>1::12\<close> of the text \<open>1::12345\<close> are taken for the address \<open>1::2345\<close>, and when
  the length ends inside \<open>::\<close> its counter wraps around and the whole text is read.
\<close>

lemma stoip6_reads_past_length:
  "stoip6 (text_at ''1::12345'') 5 (replicate 16 7) =
     Some (True, [0, 1, 0, 0, 0, 0, 0, 0, 0, 0, 0, 0, 0, 0, 0x23, 0x45]) \<and>
   stoip6 (text_at ''1::9'') 2 (replicate 16 7) = Some (True, [0, 1, 0, 0, 0, 0, 0, 0, 0, 0, 0, 0, 0, 0, 0, 9])"
  by (intro conjI; code_simp)

text \<open>
  With a length greater than the text's the loop steps over the terminator: a complete address is refused
  because of what happens to stand behind it, and seven fields are completed by an eighth from there.
\<close>

theorem stoip6_steps_over_terminator:
  "map_option fst (stoip6 (text_at (''1:2:3:4:5:6:7:8'' @ NUL # ''x'')) 30 (replicate 16 7)) = Some False \<and>
   stoip6 (text_at (''1:2:3:4:5:6:7'' @ NUL # ''8'')) 30 (replicate 16 7) =
     Some (True, [0, 1, 0, 2, 0, 3, 0, 4, 0, 5, 0, 6, 0, 7, 0, 8])"
  by (intro conjI; code_simp)

text \<open>
  Texts outside RFC 4291 that are accepted: an empty first field counts as zero, a third colon as an empty
  field, a colon may follow the eighth field, and \<open>::\<close> may stand for no field at all.
\<close>

theorem stoip6_accepts_malformed:
  "stoip6 (text_at '':1:2:3:4:5:6:7'') 15 (replicate 16 7) = Some (True, [0, 0, 0, 1, 0, 2, 0, 3, 0, 4, 0, 5, 0, 6, 0, 7]) \<and>
   stoip6 (text_at ''1:::2'') 5 (replicate 16 7) = Some (True, [0, 1, 0, 0, 0, 0, 0, 0, 0, 0, 0, 0, 0, 0, 0, 2]) \<and>
   stoip6 (text_at ''1:2:3:4:5:6:7:8:'') 16 (replicate 16 7) = Some (True, [0, 1, 0, 2, 0, 3, 0, 4, 0, 5, 0, 6, 0, 7, 0, 8]) \<and>
   stoip6 (text_at ''1:2:3::4:5:6:7:8'') 16 (replicate 16 7) = Some (True, [0, 1, 0, 2, 0, 3, 0, 4, 0, 5, 0, 6, 0, 7, 0, 8])"
  by (intro conjI; code_simp)

end
