(* ===== verification/Ip6Prefix.thy ===== *)
theory Ip6Prefix
  imports Ip6Props
begin

text \<open>
  The properties of the prefix functions: \<open>ip6_prefix_tos\<close>, \<open>sipv6_prefixlength\<close> and \<open>stoip6_prefix\<close>.
\<close>

section \<open>The C library on a given text\<close>

lemma strlen_from_text:
  assumes "NUL \<notin> set t" "i \<le> length t"
  shows "strlen_from (text_at t) i = Some (length t)"
  using assms(2)
proof (induction "length t - i" arbitrary: i)
  case 0
  then show ?case by (subst strlen_from.simps) (simp add: text_at_def)
next
  case (Suc d)
  then have "t ! i \<in> set t" by simp
  then have "t ! i \<noteq> NUL" using assms(1) by metis
  then have "text_at t i \<noteq> NUL" using Suc.hyps(2) by (simp add: text_at_def)
  moreover have "strlen_from (text_at t) (i + 1) = Some (length t)" using Suc by (intro Suc.hyps(1)) auto
  ultimately show ?case by (subst strlen_from.simps) simp
qed

lemma strlen_text: "NUL \<notin> set t \<Longrightarrow> strlen (text_at t) = Some (length t)"
  by (simp add: strlen_def strlen_from_text)

lemma strchr_from_text:
  assumes "NUL \<notin> set t" "c \<notin> set t" "i \<le> length t" "s = text_at (t @ u)" "u = [] \<and> c \<noteq> NUL \<or> (\<exists>u'. u = c # u')"
  shows "strchr_from s c i = Some (if u = [] then None else Some (length t))"
  using assms(3)
proof (induction "length t - i" arbitrary: i)
  case 0
  then have "i = length t" by simp
  with assms(4,5) show ?case by (subst strchr_from.simps) (auto simp: text_at_def nth_append)
next
  case (Suc d)
  then have i: "i < length t" "t ! i \<in> set t" by simp_all
  then have "t ! i \<noteq> NUL" "t ! i \<noteq> c" using assms(1,2) by metis+
  then have "s i \<noteq> NUL" "s i \<noteq> c" using i(1) assms(4) by (simp_all add: text_at_def nth_append)
  moreover have "strchr_from s c (i + 1) = Some (if u = [] then None else Some (length t))"
    using Suc by (intro Suc.hyps(1)) auto
  ultimately show ?case by (subst strchr_from.simps) simp
qed

lemma strchr_text:
  assumes "NUL \<notin> set t" "c \<notin> set t" "c \<noteq> NUL"
  shows "strchr (text_at t) c = Some None" "strchr (text_at (t @ c # u)) c = Some (Some (length t))"
  using strchr_from_text [of t c 0 "text_at t" "[]"] strchr_from_text [of t c 0 "text_at (t @ c # u)" "c # u"] assms
  by (simp_all add: strchr_def)

lemma decimal_value_digits:
  assumes "reads s i ds" "\<forall>c \<in> set ds. is_digit c" "\<not> is_digit (s (i + length ds))"
  shows "decimal_value s i v = Some (foldl (\<lambda>v c. v * 10 + (code c - 48)) v ds)"
  using assms
proof (induction ds arbitrary: i v)
  case Nil
  then show ?case by (subst decimal_value.simps) simp
next
  case (Cons c ds)
  then have "decimal_value s (i + 1) (v * 10 + (code c - 48)) =
      Some (foldl (\<lambda>v c. v * 10 + (code c - 48)) (v * 10 + (code c - 48)) ds)"
    by (intro Cons.IH) auto
  then show ?case using Cons.prems by (subst decimal_value.simps) simp
qed

lemma dec_value: "foldl (\<lambda>v c. v * 10 + (code c - 48)) 0 (dec n) = n"
proof (induction n rule: dec.induct)
  case (1 n)
  show ?case
  proof (cases "n < 10")
    case True
    then show ?thesis by (subst dec.simps) (simp add: code_digit_char)
  next
    case False
    then have "dec n = dec (n div 10) @ [digit_char (n mod 10)]" by (subst dec.simps) simp
    with 1 False show ?thesis by (simp add: code_digit_char)
  qed
qed

lemma strtoul_dec:
  assumes r: "reads s i (dec n @ [NUL])" and n: "n < 2 ^ 32"
  shows "strtoul s i = Some (of_nat n)"
proof -
  have d: "\<forall>c \<in> set (dec n). is_digit c" using dec_digits by blast
  have ne: "dec n \<noteq> []" by (subst dec.simps) simp
  then have s: "is_digit (s i)" using r d by (cases "dec n") auto
  then have c: "48 \<le> code (s i)" "code (s i) \<le> 57" by (simp_all add: is_digit_def)
  then have "\<not> is_space (s i)" "s i \<noteq> CHR ''-''" "s i \<noteq> CHR ''+''" by (auto simp: is_space_def)
  moreover have "decimal_value s i 0 = Some n"
    using decimal_value_digits [of s i "dec n" 0] r d dec_value not_digit(1) by simp
  ultimately show ?thesis
    using n by (simp add: strtoul_def skip_space.simps [of s i])
qed

section \<open>Texts with a prefix length\<close>

lemma address_text_chars:
  assumes "address_form hs rest" "c \<in> set (address_text hs rest)"
  shows "hex_digit_value c \<noteq> None \<or> c = CHR '':''"
proof -
  have l: "c \<in> set (colons ts) \<Longrightarrow> \<forall>t \<in> set ts. is_field t \<Longrightarrow> hex_digit_value c \<noteq> None \<or> c = CHR '':''" for ts
    by (induction ts rule: colons.induct) (auto simp: is_field_def)
  show ?thesis using assms l [of hs] l [of "the rest"] by (cases rest) auto
qed

lemma address_text_no:
  "address_form hs rest \<Longrightarrow> NUL \<notin> set (address_text hs rest) \<and> CHR ''/'' \<notin> set (address_text hs rest)"
  using address_text_chars [of hs rest NUL] address_text_chars [of hs rest "CHR ''/''"] no_hex by auto

lemma reads_text_at: "reads (text_at (t @ u)) 0 t" "reads (text_at (t @ c # u)) (Suc (length t)) (u @ [NUL])"
  by (auto simp: reads_def text_at_def nth_append less_Suc_eq)

lemma stoip6_text:
  assumes "address_form hs rest" "length dest = 16" "u = [] \<or> (\<exists>u'. u = CHR ''/'' # u')"
  shows "stoip6 (text_at (address_text hs rest @ u)) (of_nat (length (address_text hs rest))) dest =
    Some (True, address_bytes (address_value hs rest))"
  by (rule stoip6_address [OF assms(1) reads_text_at(1) _ assms(2) refl])
    (use assms(3) no_hex in \<open>auto simp: text_at_def\<close>)

text \<open>
  \<open>sipv6_prefixlength\<close> is the number behind the slash, cut to eight bits, and 0 without a slash.
\<close>

theorem sipv6_prefixlength_value:
  assumes "address_form hs rest" "n < 2 ^ 32"
  shows "sipv6_prefixlength (text_at (address_text hs rest)) = Some 0 \<and>
    sipv6_prefixlength (text_at (address_text hs rest @ CHR ''/'' # dec n)) = Some (of_nat n)"
proof -
  let ?t = "address_text hs rest"
  note no = address_text_no [OF assms(1)]
  have "strtoul (text_at (?t @ CHR ''/'' # dec n)) (length ?t + 1) = Some (of_nat n)"
    using strtoul_dec [OF _ assms(2)] reads_text_at(2) by simp
  moreover have "ucast (of_nat n :: u32) = (of_nat n :: u8)" by (simp add: unsigned_of_nat word_of_nat_eq_iff)
  ultimately show ?thesis using no by (simp add: sipv6_prefixlength_def strchr_text)
qed

theorem sipv6_prefixlength_value_witness:
  "sipv6_prefixlength (text_at (address_text [] (Some []) @ CHR ''/'' # dec 300)) = Some 44"
proof -
  have "address_form [] (Some [])" "300 < (2 :: nat) ^ 32" by simp_all
  from sipv6_prefixlength_value [OF this] show ?thesis by simp
qed

text \<open>
  C39. \<open>stoip6_prefix\<close> reads an address alone (prefix length -1) and an address with a prefix length of one or
  two digits. A prefix length of three digits is refused, also from 100 to 128, where it is legal.
\<close>

theorem stoip6_prefix_lengths:
  assumes "address_form hs rest" "length dest = 16" "n \<le> 128"
  shows "stoip6_prefix (text_at (address_text hs rest)) dest (Some x) =
      Some (0, address_bytes (address_value hs rest), Some (-1)) \<and>
    stoip6_prefix (text_at (address_text hs rest @ CHR ''/'' # dec n)) dest (Some x) =
      Some (if n < 100 then (0, address_bytes (address_value hs rest), Some (int n)) else (-1, dest, Some (-1)))"
proof
  let ?t = "address_text hs rest"
  note no = address_text_no [OF assms(1)]
  show "stoip6_prefix (text_at ?t) dest (Some x) = Some (0, address_bytes (address_value hs rest), Some (-1))"
    using no stoip6_text [OF assms(1,2), of "[]"] by (simp add: stoip6_prefix_def strlen_text strchr_text)
  have v: "strtoul (text_at (?t @ CHR ''/'' # dec n)) (length ?t + 1) = Some (of_nat n)"
    using strtoul_dec [of _ _ n] reads_text_at(2) assms(3) by simp
  have sl: "strlen (text_at (?t @ CHR ''/'' # dec n)) = Some (length ?t + 1 + length (dec n))"
    using strlen_text [of "?t @ CHR ''/'' # dec n"] no NUL_notin_dec by simp
  have digits: "n < 100 \<longleftrightarrow> length (dec n) \<le> 2" using dec_cases [of n] assms(3) by auto
  have si: "sint (of_nat n :: u32) = int n"
    using assms(3) by (simp add: signed_of_nat signed_take_bit_int_eq_self)
  show "stoip6_prefix (text_at (?t @ CHR ''/'' # dec n)) dest (Some x) =
      Some (if n < 100 then (0, address_bytes (address_value hs rest), Some (int n)) else (-1, dest, Some (-1)))"
    using no stoip6_text [OF assms(1,2), of "CHR ''/'' # dec n"] assms(3) digits v
    by (simp add: stoip6_prefix_def sl strchr_text si)
qed

theorem stoip6_prefix_lengths_witness:
  "stoip6_prefix (text_at (address_text [''fe80''] (Some []) @ CHR ''/'' # dec 128)) (replicate 16 7) (Some 0) =
    Some (-1, replicate 16 7, Some (-1))"
proof -
  have "address_form [''fe80''] (Some [])" by (simp add: is_field_def hex_digit_value_code)
  from stoip6_prefix_lengths [OF this, of "replicate 16 7" 128 0] show ?thesis by simp
qed

section \<open>Printing a prefix\<close>

text \<open>
  C40. \<open>ip6_prefix_tos\<close> prints, for a prefix length up to 128, the address made of the leading bits of the prefix
  and zeros, a slash and the length, at most 43 characters; it needs no more of the prefix than the bytes that
  hold these bits. For a greater length it returns 0 and leaves the buffer alone.
\<close>

theorem ip6_prefix_tos_prints:
  assumes "unat n \<le> 8 * length prefix"
  shows "(n > 128 \<longrightarrow> ip6_prefix_tos prefix n p = Some (p, 0)) \<and>
    (n \<le> 128 \<longrightarrow> (\<exists>addr run p' k. bits_of addr = take (unat n) (bits_of prefix) @ replicate (128 - unat n) False \<and>
       compressed_run (parts_of addr) run \<and> ip6_prefix_tos prefix n p = Some (p', k) \<and>
       reads p' 0 (rfc5952_text (parts_of addr) run @ CHR ''/'' # dec (unat n) @ [NUL]) \<and>
       k = length (rfc5952_text (parts_of addr) run @ CHR ''/'' # dec (unat n)) \<and> k \<le> 43 \<and> same_elsewhere p p' 0 k))"
proof (intro conjI impI)
  assume "n > 128"
  then show "ip6_prefix_tos prefix n p = Some (p, 0)" by (simp add: ip6_prefix_tos_def)
next
  assume n: "n \<le> 128"
  then have n128: "unat n \<le> 128" by (simp add: word_le_nat_alt)
  obtain addr r where a: "bitcopy (replicate 16 0) prefix n = (addr, r)" by (metis surj_pair)
  have zero: "bits_of (replicate 16 0) = replicate 128 False"
    by (simp add: bits_of_def byte_bits_def eval_nat_numeral)
  have bits: "bits_of addr = take (unat n) (bits_of prefix) @ replicate (128 - unat n) False"
    using bitcopy_result [of n "replicate 16 0" prefix] n128 assms by (simp add: a zero)
  obtain run where run: "compressed_run (parts_of addr) run"
    "ip6tos addr p 0 = Some (store p 0 (rfc5952_text (parts_of addr) run @ [NUL]), length (rfc5952_text (parts_of addr) run))"
    using ip6tos_prints by blast
  let ?t = "rfc5952_text (parts_of addr) run" and ?u = "CHR ''/'' # dec (unat n)"
  have "store (store p 0 (?t @ [NUL])) (length ?t) (?u @ [NUL]) = store p 0 (?t @ ?u @ [NUL])"
    using store_replace_last [of p 0 ?t NUL "CHR ''/''"] by (simp add: store_append)
  then have res: "ip6_prefix_tos prefix n p = Some (store p 0 (?t @ ?u @ [NUL]), length (?t @ ?u))"
    using n by (simp add: ip6_prefix_tos_def a run(2) sprintf_def not_less)
  have "length (?t @ ?u) \<le> 43" using rfc5952_length [OF run(1)] dec_length [of "unat n"] n128 by simp
  then show "\<exists>addr run p' k. bits_of addr = take (unat n) (bits_of prefix) @ replicate (128 - unat n) False \<and>
       compressed_run (parts_of addr) run \<and> ip6_prefix_tos prefix n p = Some (p', k) \<and>
       reads p' 0 (rfc5952_text (parts_of addr) run @ CHR ''/'' # dec (unat n) @ [NUL]) \<and>
       k = length (rfc5952_text (parts_of addr) run @ CHR ''/'' # dec (unat n)) \<and> k \<le> 43 \<and> same_elsewhere p p' 0 k"
    using bits run(1) res store_reads [of p 0 "?t @ ?u @ [NUL]"]
    by (intro exI conjI) (assumption | rule refl | auto simp: same_elsewhere_def store_outside)+
qed

theorem ip6_prefix_tos_prints_witness:
  "\<exists>addr p' k. bits_of addr = take 20 (bits_of [0x20, 0x01, 0x0D]) @ replicate 108 False \<and>
     ip6_prefix_tos [0x20, 0x01, 0x0D] 20 (text_at []) = Some (p', k) \<and> k \<le> 43"
proof -
  have "unat (20 :: u8) \<le> 8 * length [0x20 :: u8, 0x01, 0x0D]" "(20 :: u8) \<le> 128" by simp_all
  with ip6_prefix_tos_prints [of 20 "[0x20, 0x01, 0x0D]" "text_at []"] show ?thesis by fastforce
qed

end
