(* ===== verification/Spec2Isabelle.thy ===== *)
theory Spec2Isabelle
  imports TrackedHeap ListLoops DynMemProps NvmLive CommonBits Checksum Ip4Parse Ip6Prefix
begin

text \<open>
  A model of nanostack-libservice, the library of services under the nanostack network stack, with the theorems
  that make it correct. Paths are relative to \<open>src/\<close>; \<open>api\<close> stands for \<open>src/mbed-client-libservice\<close>, \<open>impl\<close> for
  \<open>src/source\<close>.

  \<^bold>\<open>The program.\<close> Two kinds of code. The stateful part is a tower: the intrusive list of \<open>api/ns_list.h\<close>; on it the
  heap manager \<open>impl/nsdynmemLIB/nsdynmemLIB.c\<close>, which keeps its holes in such a list, inside the memory it manages;
  on both the NVM helper \<open>impl/nvmHelper/ns_nvm_helper.c\<close>, whose requests are heap blocks on a list and which is
  driven by calls of its clients and callbacks of the platform; and beside the heap the allocation tracker
  \<open>impl/nsdynmemtracker/nsdynmem_tracker_lib.c\<close>, told of every allocation and release. The rest is pure: byte order,
  bit counting, serial numbers and bit strings (\<open>api/common_functions.h\<close>, \<open>impl/libBits/common_functions.c\<close>), the
  Internet checksum (\<open>impl/IPv6_fcf_lib/ip_fsc.c\<close>) and the text forms of IP addresses (\<open>impl/libip4string\<close>,
  \<open>impl/libip6string\<close>).

  \<^bold>\<open>Conventions.\<close> Machine integers are words of their width; the target is ILP32, so \<open>int\<close>, \<open>size_t\<close> and pointers have
  32 bits. Heap and list share a memory of 4-byte cells, \<open>memory\<close> in Prelude: a cell is a block size or a pointer,
  an address the index of a cell, 0 the null pointer. A loop that is not known to end is a
  \<open>partial_function (option)\<close>; there is no fuel anywhere. \<open>None\<close> is then a loop that does not end, or in the tracker
  also an access outside an array; a \<open>nvm_fault\<close> of the NVM helper is an access to a released or unlinked request.
  The theorems state that a result exists. Functions keep the names of the code; pieces of a long function are named
  after what they do.

  \<^bold>\<open>Lists.\<close> NsList holds the operations of \<open>ns_list.h\<close> on cells, the relation \<open>ns_list_rep\<close> to a list of entries, for
  each operation what it does to that list and which cells it leaves alone, and the refinement of every sequence
  of legal operations by operations on lists. ListLoops holds the loop macros: each safe loop visits every entry
  once, in order, also when the body removes the current entry. Walking forwards and backwards are the two
  interpretations of the locale \<open>list_walk\<close>.

  \<^bold>\<open>Heap.\<close> DynMem is the code: \<open>ns_mem_book\<close> is \<open>struct ns_mem_book\<close> with the memory, the statistics it points to and
  the log of the failure callback. DynMemLayout is the invariant \<open>regions_ok\<close>: the memory is a sequence of delimited
  blocks, no two neighbours are free, the free blocks are linked in address order. DynMemAlloc, DynMemFree and
  DynMemInit show that each operation keeps it and what it does to the blocks in use. DynMemSpec proves that the
  layout is determined by the blocks in use, and states the contract between a heap and its clients, the locale
  \<open>block_heap\<close> (disjoint blocks, their contents kept, no fault reported); \<open>dyn\<close> interprets it on the heap, \<open>within\<close> on the
  heaps with the same regions that differ in the managed cells only. DynMemProps has the properties: first fit from
  the lower or upper end, coalescing, which errors are reported; clients do not disturb each other, and one that has
  given everything back leaves blocks and holes as they were; initialisation and additional regions, and the flaws of
  the latter. Up to three regions, as in the code.

  \<^bold>\<open>NVM helper.\<close> NvmHelper is the code: the record \<open>nvm\<close> is the state of the module, with the heap, the pending list, the
  calls accepted by the platform and the log of the callbacks made to clients; an environment \<open>nvm_env\<close> gives
  the status the platform returns for each call and the calls a client makes from its callback. NvmServer is the
  abstract specification, a first-come first-served server of jobs with a bounded amount of work each. NvmInv has the
  invariant, rests on the laws of \<open>dyn\<close>, relates the waiting list to NsList and each step of the helper to the server.
  NvmProps has the properties: with a platform that starts every operation, accepted requests are answered once and in
  order and all memory is given back; the protocol of read, write and delete; what becomes of requests when the
  platform refuses. NvmLive: with such a platform every history of the helper is a run of the server, and no request
  waits for ever.

  \<^bold>\<open>Tracker.\<close> Tracker is the code over \<open>conf_t\<close>, the configuration of the application with its arrays and callbacks.
  TrackerInv has the abstract ledger, a multiset of blocks with caller and size, and how the arrays represent it;
  TrackerRef the refinement of the ledger by recording and releasing; TrackerLists the ageing and the snapshot, a ranking
  of the callers; TrackerReport the update of the lists: who is reported, in which order, and the marks that are left;
  TrackerProps the properties. TrackedHeap composes heap and tracker, in the context of \<open>block_heap\<close>; its
  property is in this theory.

  \<^bold>\<open>Bits, bytes, checksum.\<close> CommonFunctions and CommonBits: writers and readers invert each other, counting agrees with its
  definition, serial numbers are compared as RFC 1982 says, bit strings are compared and copied bit by bit. Checksum:
  splitting a buffer into a gather list does not matter, and the result is the complement of the one's complement sum.

  \<^bold>\<open>Addresses.\<close> TextModel has characters and what the code uses of the C library (\<open>sprintf\<close>, \<open>strlen\<close>, \<open>strchr\<close>,
  \<open>strtoul\<close>). Ip4String: printer, parser, round trip; Ip4Parse: the texts that \<open>stoip4\<close> accepts and what it reads and
  writes. Ip6String is the code for IPv6; Ip6Print shows that \<open>ip6tos\<close> prints the form of RFC 5952; Ip6Parse and
  Ip6Props that \<open>stoip6\<close> accepts the hexadecimal text forms of RFC 4291 and refuses a text with any other
  character (so those with a dotted decimal tail, which its documentation excludes), reads back what
  was printed, returns and writes 16 bytes at most on any input, and where it reads past the given length; Ip6Prefix
  has the prefix functions.

  \<^bold>\<open>Not modelled.\<close> The build with \<open>STANDARD_MALLOC\<close>, which calls \<open>malloc\<close> and \<open>free\<close>. Critical sections and the
  interrupts they hold off: the state is sequential. A platform that calls back before its function returns.
  The wrappers behind \<open>api/nsdynmem_tracker.h\<close>, which are not part of the repository: TrackedHeap assumes only that a
  client makes the calls. \<open>api/ns_types.h\<close> and the type-checking macros of \<open>ns_list.h\<close> (no run-time behaviour),
  \<open>impl/libList/ns_list.c\<close> (compiles the functions of \<open>ns_list.h\<close> once more), \<open>api/platform\<close> (declarations of what the platform
  provides), tests and build files.
\<close>

section \<open>The heap and the tracker\<close>

text \<open>
  C6. A client that tells the tracker of every block it obtains and releases. For every heap and tracker that agree
  at the start and every sequence of calls: all calls return, the heap stays well-formed and reports no fault, and
  the tracker can refuse only a new block; as long as it has refused none, its arrays list exactly the blocks in use,
  each once, the memory it reports is their sum, and 0 when the client has given everything back.
\<close>

theorem tracked_heap_agrees:
  assumes "heap_ok book R" "owns (live_blocks R) owned" "listed M (fst ` live_blocks R) conf" "list_all named_caller calls"
  shows "\<exists>k book' conf' owned' R' M'.
    tracked_run book_alloc ns_mem_free fst (book, conf, owned) calls = Some (k, book', conf', owned') \<and>
    heap_ok book' R' \<and> heap_faults book' = heap_faults book \<and> set owned' = fst ` live_blocks R' \<and>
    k \<le> length calls \<and> (k < length calls \<longrightarrow> obtains_block (calls ! k)) \<and>
    (k = length calls \<longrightarrow> lines (blocks_of conf') (exts_of conf') = M' \<and> fst ` set_mset M' = fst ` live_blocks R' \<and>
       (\<forall>p. count (image_mset fst M') p \<le> 1) \<and> allocated_memory conf' = bytes M' \<and>
       (owned' = [] \<longrightarrow> allocated_memory conf' = 0))"
proof -
  obtain k book' conf' owned' R' where run:
    "tracked_run book_alloc ns_mem_free fst (book, conf, owned) calls = Some (k, book', conf', owned')"
    "heap_ok book' R'" "owns (live_blocks R') owned'" "heap_faults book' = heap_faults book" "k \<le> length calls"
    "k < length calls \<longrightarrow> obtains_block (calls ! k)"
    "k = length calls \<longrightarrow> (\<exists>M'. listed M' (fst ` live_blocks R') conf')"
    using dyn.tracked_run_ok [OF assms] by blast
  from run(7) obtain M' where M': "k = length calls \<longrightarrow> listed M' (fst ` live_blocks R') conf'" by blast
  have own: "set owned' = fst ` live_blocks R'" using run(3) by (simp add: owns_def)
  let ?P = "fst ` live_blocks R'"
  have agree: "k = length calls \<longrightarrow> lines (blocks_of conf') (exts_of conf') = M' \<and> fst ` set_mset M' = ?P \<and>
      (\<forall>p. count (image_mset fst M') p \<le> 1) \<and> allocated_memory conf' = bytes M' \<and>
      (owned' = [] \<longrightarrow> allocated_memory conf' = 0)"
  proof
    assume "k = length calls"
    then have l: "listed M' ?P conf'" using M' by simp
    have "allocated_memory conf' = 0" if "owned' = []"
      by (rule listed_nothing [of M']) (use l that own in simp)
    then show "lines (blocks_of conf') (exts_of conf') = M' \<and> fst ` set_mset M' = ?P \<and>
      (\<forall>p. count (image_mset fst M') p \<le> 1) \<and> allocated_memory conf' = bytes M' \<and>
      (owned' = [] \<longrightarrow> allocated_memory conf' = 0)" by (intro conjI impI listed_ledger [OF l])
  qed
  show ?thesis
    by (intro exI [of _ k] exI [of _ book'] exI [of _ conf'] exI [of _ owned'] exI [of _ R'] exI [of _ M'] conjI
        run(1,2,4-6) own agree)
qed

text \<open>The heap of 600 bytes of NvmProps and a new tracker; three blocks are obtained and given back.\<close>

lemma nvm_book_empty: "\<exists>R. heap_ok nvm_book R \<and> live_blocks R = {} \<and> heap_faults nvm_book = []"
proof -
  have "70 \<le> uint (600 :: u32)" "uint (4096 :: u32) + uint (600 :: u32) \<le> 2 ^ 32" by simp_all
  from ns_mem_init_ok [OF this] obtain start n where "heap_ok nvm_book (fresh_heap start n)" "2 \<le> n"
    unfolding nvm_book_def heap_ok_def by blast
  moreover from this have "live_blocks (fresh_heap start n) = {}" by (simp add: live_blocks_def fresh_heap_def)
  ultimately show ?thesis using nvm_book_ok by blast
qed

abbreviation sample_calls :: "(u32 \<times> bool) tracked_call list" where
  "sample_calls \<equiv>
     [Obtain 100 1 7 (16, False), Obtain 200 1 9 (32, True), Return 0, Obtain 100 1 8 (8, False), Return 1, Return 0]"

lemma sample_calls_recorded:
  "map_option (\<lambda>(k, book, conf, owned). (k, owned))
     (tracked_run book_alloc ns_mem_free fst (nvm_book, new_tracker, []) sample_calls) = Some (6, [])"
  by code_simp

theorem tracked_heap_agrees_witness:
  "\<exists>book' conf' R'. tracked_run book_alloc ns_mem_free fst (nvm_book, new_tracker, []) sample_calls =
      Some (6, book', conf', []) \<and> heap_ok book' R' \<and> heap_faults book' = [] \<and> allocated_memory conf' = 0"
proof -
  obtain R where R: "heap_ok nvm_book R" "live_blocks R = {}" "heap_faults nvm_book = []" using nvm_book_empty by blast
  have o: "owns (live_blocks R) []" "listed {#} (fst ` live_blocks R) new_tracker" "list_all named_caller sample_calls"
    using new_tracker_ok R(2) by (simp_all add: owns_def listed_def)
  show ?thesis
    using tracked_heap_agrees [OF R(1) o]
  proof (elim exE conjE)
    fix k book' conf' owned' R' M'
    assume run: "tracked_run book_alloc ns_mem_free fst (nvm_book, new_tracker, []) sample_calls = Some (k, book', conf', owned')"
      and ok: "heap_ok book' R'" "heap_faults book' = heap_faults nvm_book"
      and agree: "k = length sample_calls \<longrightarrow> lines (blocks_of conf') (exts_of conf') = M' \<and> fst ` set_mset M' = fst ` live_blocks R' \<and>
        (\<forall>p. count (image_mset fst M') p \<le> 1) \<and> allocated_memory conf' = bytes M' \<and>
        (owned' = [] \<longrightarrow> allocated_memory conf' = 0)"
    have k: "k = 6" "owned' = []" using sample_calls_recorded unfolding run by simp_all
    then have "k = length sample_calls" by simp
    then have "allocated_memory conf' = 0" using agree k(2) by blast
    show ?thesis
      by (rule exI [of _ book'], rule exI [of _ conf'], rule exI [of _ R'], intro conjI run [unfolded k] ok(1)
          ok(2) [unfolded R(3)]) fact
  qed
qed
end
